(* ===== verification/Prelude.thy ===== *)
theory Prelude
  imports Main "HOL-Library.Word"
begin

text \<open>
  Types and generic facts every component uses: fixed-width integers, a byte memory
  addressed by 64-bit words, little-endian loads and stores of \<open>n\<close> bytes, and the separation
  lemmas that say when a store leaves a load alone.
\<close>

unbundle bit_operations_syntax

type_synonym u8 = "8 word"
type_synonym u16 = "16 word"
type_synonym u32 = "32 word"
type_synonym u64 = "64 word"
type_synonym mem = "u64 \<Rightarrow> u8"

fun ld :: "nat \<Rightarrow> mem \<Rightarrow> u64 \<Rightarrow> u64" where
  "ld 0 m a = 0"
| "ld (Suc n) m a = ucast (m a) OR push_bit 8 (ld n m (a + 1))"

fun st :: "nat \<Rightarrow> mem \<Rightarrow> u64 \<Rightarrow> u64 \<Rightarrow> mem" where
  "st 0 m a v = m"
| "st (Suc n) m a v = st n (m(a := ucast v)) (a + 1) (drop_bit 8 v)"

definition ld64 :: "mem \<Rightarrow> u64 \<Rightarrow> u64" where "ld64 m a = ld 8 m a"
definition st64 :: "mem \<Rightarrow> u64 \<Rightarrow> u64 \<Rightarrow> mem" where "st64 m a v = st 8 m a v"

definition apart :: "u64 \<Rightarrow> nat \<Rightarrow> u64 \<Rightarrow> nat \<Rightarrow> bool" where
  "apart a n b k \<longleftrightarrow> n \<le> unat (b - a) \<and> k \<le> unat (a - b)"

lemma unat_less64: "unat (a :: u64) < 2 ^ 64"
  by (rule order_less_le_trans [OF unsigned_less]) simp

lemma unat_of_nat64 [simp]: "n < 2 ^ 64 \<Longrightarrow> unat (of_nat n :: u64) = n"
  by (simp add: unat_of_nat take_bit_nat_eq_self_iff)

lemma unat_diff_step: "1 \<le> unat (b - a :: u64) \<Longrightarrow> unat (b - (a + 1)) = unat (b - a) - 1"
proof -
  assume "1 \<le> unat (b - a)"
  then have "unat (b - a - 1) = unat (b - a) - 1" by (metis unat_1 unat_sub word_le_nat_alt)
  then show ?thesis by (simp add: diff_diff_eq)
qed

lemma unat_minus_one64 [simp]: "unat (- 1 :: u64) = 2 ^ 64 - 1"
  by (simp add: unsigned_minus_1_eq_mask mask_eq_exp_minus_1)

lemma unat_mult64: "unat a * unat b < 2 ^ 64 \<Longrightarrow> unat (a * b :: u64) = unat a * unat b"
  by (simp add: unat_word_ariths)

lemma unat_add64: "unat a + unat b < 2 ^ 64 \<Longrightarrow> unat (a + b :: u64) = unat a + unat b"
  by (simp add: unat_word_ariths)

lemma unat_widen: "unat (ucast x :: u64) = unat x" "unat x \<le> 0xffffffff" for x :: u32
proof -
  have lt: "unat x < 2 ^ 32" using unsigned_less [of x] by simp
  then show "unat x \<le> 0xffffffff" by simp
  show "unat (ucast x :: u64) = unat x" using lt by (simp add: unsigned_ucast_eq take_bit_nat_eq_self)
qed

lemma unat_narrow: "unat v < 2 ^ 32 \<Longrightarrow> unat (ucast v :: u32) = unat v" for v :: u64
  by (simp add: unsigned_ucast_eq take_bit_nat_eq_self)

lemma unat_plus_of_nat: "unat a + i < 2 ^ 64 \<Longrightarrow> unat (a + of_nat i :: u64) = unat a + i"
  using unat_of_nat64 [of i] by (simp add: unat_word_ariths)

lemma of_nat64_eq_iff: "i < 2 ^ 64 \<Longrightarrow> j < 2 ^ 64 \<Longrightarrow> (of_nat i :: u64) = of_nat j \<longleftrightarrow> i = j"
  by (metis unat_of_nat64)

lemma st_other: "n \<le> unat (b - a) \<Longrightarrow> st n m a v b = m b"
proof (induction n arbitrary: m a v)
  case (Suc n)
  have ne: "b \<noteq> a" using Suc.prems by auto
  have "unat (b - (a + 1)) = unat (b - a) - 1" using Suc.prems by (intro unat_diff_step) simp
  with Suc.prems have "n \<le> unat (b - (a + 1))" by simp
  with ne show ?case by (simp add: Suc.IH)
qed simp

lemma ld_cong: "(\<And>i. i < n \<Longrightarrow> m (a + of_nat i) = m' (a + of_nat i)) \<Longrightarrow> ld n m a = ld n m' a"
proof (induction n arbitrary: a)
  case (Suc n)
  have "m (a + 1 + of_nat i) = m' (a + 1 + of_nat i)" if "i < n" for i
    using Suc.prems[of "Suc i"] that by (simp add: add.assoc)
  moreover have "m a = m' a" using Suc.prems[of 0] by simp
  ultimately show ?case using Suc.IH[of "a + 1"] by simp
qed simp

lemma ld_st_same: "n \<le> 8 \<Longrightarrow> ld n (st n m a v) a = take_bit (8 * n) v"
proof (induction n arbitrary: m a v)
  case (Suc n)
  have "n \<le> unat (a - (a + 1))" using Suc.prems by simp
  then have byte: "st n (m(a := ucast v)) (a + 1) (drop_bit 8 v) a = ucast v"
    by (simp add: st_other)
  have "ld (Suc n) (st (Suc n) m a v) a =
      ucast (ucast v :: u8) OR push_bit 8 (take_bit (8 * n) (drop_bit 8 v))"
    using Suc by (simp add: byte)
  also have "\<dots> = take_bit (8 * Suc n) v"
    using Suc.prems by (intro bit_eqI) (auto simp: bit_simps)
  finally show ?case .
qed simp

lemma ld64_st64_same [simp]: "ld64 (st64 m a v) a = v"
  by (simp add: ld64_def st64_def ld_st_same take_bit_word_eq_self)


lemma apart_byte: "apart a n b k \<Longrightarrow> i < k \<Longrightarrow> k \<le> 2 ^ 32 \<Longrightarrow> n \<le> 2 ^ 32 \<Longrightarrow> n \<le> unat (b + of_nat i - a)"
proof -
  assume ap: "apart a n b k" and i: "i < k" and k: "k \<le> 2 ^ 32" and n: "n \<le> 2 ^ 32"
  let ?d = "b - a"
  have eq: "b + of_nat i - a = ?d + of_nat i" by simp
  have ui: "unat (of_nat i :: u64) = i" using i k by (simp add: unat_of_nat take_bit_nat_eq_self_iff)
  show ?thesis
  proof (cases "n = 0")
    case False
    then have d0: "?d \<noteq> 0" using ap by (auto simp: apart_def)
    have "unat (a - b) = 2 ^ 64 - unat ?d"
    proof -
      have "unat a \<noteq> unat b" using d0 by (metis unsigned_word_eqI right_minus_eq)
      then show ?thesis using unat_less64[of a] unat_less64[of b] by (auto simp: unat_sub_if')
    qed
    then have "k \<le> 2 ^ 64 - unat ?d" using ap by (simp add: apart_def)
    then have "unat ?d + i < 2 ^ 64" using i by linarith
    then have "unat (?d + of_nat i) = unat ?d + i"
      using ui by (simp add: unat_word_ariths)
    then show ?thesis using ap unfolding eq by (simp add: apart_def)
  qed simp
qed

lemma ld_st_apart: "apart a n b k \<Longrightarrow> k \<le> 8 \<Longrightarrow> n \<le> 8 \<Longrightarrow> ld k (st n m a v) b = ld k m b"
  by (rule ld_cong) (rule st_other, rule apart_byte, auto)

definition al8 :: "u64 \<Rightarrow> bool" where "al8 a \<longleftrightarrow> 8 dvd unat a"

lemma al8_apart: "al8 a \<Longrightarrow> al8 b \<Longrightarrow> a \<noteq> b \<Longrightarrow> apart a 8 b 8"
proof -
  assume a: "al8 a" and b: "al8 b" and ne: "a \<noteq> b"
  have "8 \<le> unat (x - y)" if x: "al8 x" and y: "al8 y" and xy: "x \<noteq> y" for x y
  proof -
    obtain i j where ij: "unat x = 8 * i" "unat y = 8 * j" using x y unfolding al8_def by (elim dvdE) blast
    have lt: "unat x < 2 ^ 64" "unat y < 2 ^ 64" by (rule unat_less64)+
    have "8 dvd unat (x - y)"
    proof (cases "y \<le> x")
      case True
      then show ?thesis using ij by (simp add: unat_sub)
    next
      case False
      then have "unat (x - y) = 2 ^ 64 + unat x - unat y"
        by (simp add: unat_sub_if' word_le_nat_alt)
      also have "\<dots> = 8 * (2 ^ 61 + i - j)" using ij by simp
      finally show ?thesis by simp
    qed
    moreover have "unat (x - y) \<noteq> 0" using xy by (simp add: unat_eq_0)
    ultimately show ?thesis by (auto elim!: dvdE)
  qed
  then show ?thesis using a b ne by (simp add: apart_def)
qed

lemma ld64_st64_al8: "al8 a \<Longrightarrow> al8 b \<Longrightarrow> ld64 (st64 m a v) b = (if a = b then v else ld64 m b)"
  by (cases "a = b") (simp_all add: al8_apart ld64_def st64_def ld_st_apart ld_st_same take_bit_word_eq_self)

lemma ld_byte: "n \<le> 8 \<Longrightarrow> i < n \<Longrightarrow> m (a + of_nat i) = ucast (drop_bit (8 * i) (ld n m a))"
proof (induction n arbitrary: a i)
  case (Suc n)
  show ?case
  proof (cases i)
    case 0
    then show ?thesis using Suc.prems by (intro bit_eqI) (auto simp: bit_simps)
  next
    case (Suc j)
    have "m (a + 1 + of_nat j) = ucast (drop_bit (8 * j) (ld n m (a + 1)))"
      using Suc.prems Suc by (intro Suc.IH) auto
    also have "\<dots> = ucast (drop_bit (8 * i) (ld (Suc n) m a))"
      using Suc.prems Suc by (intro bit_eqI) (auto simp: bit_simps dest: bit_imp_le_length)
    finally show ?thesis by (simp add: Suc add.assoc)
  qed
qed simp

lemma ld64_eq_bytes: "ld64 m a = ld64 m' a \<Longrightarrow> i < 8 \<Longrightarrow> m (a + of_nat i) = m' (a + of_nat i)"
  using ld_byte [of 8 i m a] ld_byte [of 8 i m' a] by (simp add: ld64_def)

end
