(* ===== verification/KString.thy ===== *)
theory KString
  imports Prelude
begin

text \<open>
  \<open>kernel/string.c\<close>: the byte-wise memory and string routines. Pointers advance and wrap as
  64-bit words; the loop of \<open>strcpy\<close> has no bound in the code and is a partial function whose
  value \<open>None\<close> means that it never meets a terminator.
\<close>

fun copy_up :: "nat \<Rightarrow> mem \<Rightarrow> u64 \<Rightarrow> u64 \<Rightarrow> mem" where
  "copy_up 0 m pdest psrc = m"
| "copy_up (Suc n) m pdest psrc = copy_up n (m(pdest := m psrc)) (pdest + 1) (psrc + 1)"

fun copy_down :: "nat \<Rightarrow> mem \<Rightarrow> u64 \<Rightarrow> u64 \<Rightarrow> mem" where
  "copy_down 0 m pdest psrc = m"
| "copy_down (Suc i) m pdest psrc =
     copy_down i (m(pdest + of_nat i := m (psrc + of_nat i))) pdest psrc"

definition memcpy :: "mem \<Rightarrow> u64 \<Rightarrow> u64 \<Rightarrow> u64 \<Rightarrow> u64 \<times> mem" where
  "memcpy m dest src n = (dest, copy_up (unat n) m dest src)"

definition memmove :: "mem \<Rightarrow> u64 \<Rightarrow> u64 \<Rightarrow> u64 \<Rightarrow> u64 \<times> mem" where
  "memmove m dest src n =
     (dest, if src > dest then copy_up (unat n) m dest src
            else if src < dest then copy_down (unat n) m dest src
            else m)"

fun memset_loop :: "nat \<Rightarrow> mem \<Rightarrow> u64 \<Rightarrow> u8 \<Rightarrow> mem" where
  "memset_loop 0 m ptr val = m"
| "memset_loop (Suc len) m ptr val = memset_loop len (m(ptr := val)) (ptr + 1) val"

definition memset :: "mem \<Rightarrow> u64 \<Rightarrow> 32 word \<Rightarrow> u64 \<Rightarrow> u64 \<times> mem" where
  "memset m dest val len = (dest, memset_loop (unat len) m dest (ucast val))"

fun memcmp_loop :: "nat \<Rightarrow> mem \<Rightarrow> u64 \<Rightarrow> u64 \<Rightarrow> int" where
  "memcmp_loop 0 m p1 p2 = 0"
| "memcmp_loop (Suc n) m p1 p2 =
     (if m p1 \<noteq> m p2 then (if m p1 < m p2 then -1 else 1)
      else memcmp_loop n m (p1 + 1) (p2 + 1))"

definition memcmp :: "mem \<Rightarrow> u64 \<Rightarrow> u64 \<Rightarrow> u64 \<Rightarrow> int" where
  "memcmp m s1 s2 n = memcmp_loop (unat n) m s1 s2"

partial_function (option) strcpy_loop :: "mem \<Rightarrow> u64 \<Rightarrow> u64 \<Rightarrow> mem option" where
  "strcpy_loop m strDest strSrc =
     (let m' = m(strDest := m strSrc)
      in if m strSrc \<noteq> 0 then strcpy_loop m' (strDest + 1) (strSrc + 1) else Some m')"

definition strcpy :: "mem \<Rightarrow> u64 \<Rightarrow> u64 \<Rightarrow> (u64 \<times> mem) option" where
  "strcpy m strDest strSrc = map_option (\<lambda>m'. (strDest, m')) (strcpy_loop m strDest strSrc)"

lemma copy_up_other: "n \<le> unat (b - d) \<Longrightarrow> copy_up n m d s b = m b"
proof (induction n arbitrary: m d s)
  case (Suc n)
  have "n \<le> unat (b - (d + 1))" using Suc.prems unat_diff_step[of b d] by linarith
  moreover have "b \<noteq> d" using Suc.prems by auto
  ultimately show ?case by (simp add: Suc.IH)
qed simp

lemma copy_down_other: "n \<le> unat (b - d) \<Longrightarrow> copy_down n m d s b = m b"
proof (induction n arbitrary: m)
  case (Suc n)
  have "Suc n < 2 ^ 64" using Suc.prems unat_less64[of "b - d"] by linarith
  then have "b \<noteq> d + of_nat n" using Suc.prems by auto
  then show ?case using Suc by simp
qed simp

lemma copy_up_at:
  assumes "i < n" "n < 2 ^ 64" "\<And>i j. i < j \<Longrightarrow> j < n \<Longrightarrow> d + of_nat i \<noteq> s + of_nat j"
  shows "copy_up n m d s (d + of_nat i) = m (s + of_nat i)"
  using assms
proof (induction n arbitrary: m d s i)
  case (Suc n)
  show ?case
  proof (cases i)
    case 0
    have "n \<le> unat (d - (d + 1))" using Suc.prems(2) by simp
    then show ?thesis using 0 by (simp add: copy_up_other)
  next
    case (Suc k)
    have "d + of_nat 0 \<noteq> s + of_nat i" using Suc.prems(1,3) Suc by (intro Suc.prems(3)) auto
    moreover have "copy_up n (m(d := m s)) (d + 1) (s + 1) (d + 1 + of_nat k) =
        (m(d := m s)) (s + 1 + of_nat k)"
    proof (rule Suc.IH)
      show "d + 1 + of_nat i \<noteq> s + 1 + of_nat j" if "i < j" "j < n" for i j
        using Suc.prems(3)[of "Suc i" "Suc j"] that by (simp add: add.assoc)
    qed (use Suc Suc.prems in auto)
    ultimately show ?thesis using Suc by (simp add: add.assoc)
  qed
qed simp

lemma copy_down_at:
  assumes "i < n" "n < 2 ^ 64" "\<And>i j. j < i \<Longrightarrow> i < n \<Longrightarrow> d + of_nat i \<noteq> s + of_nat j"
  shows "copy_down n m d s (d + of_nat i) = m (s + of_nat i)"
  using assms
proof (induction n arbitrary: m i)
  case (Suc n)
  show ?case
  proof (cases "i = n")
    case True
    have "n \<le> unat (d + of_nat n - d)" using Suc.prems(2) by simp
    then show ?thesis using True by (simp add: copy_down_other)
  next
    case False
    then have "i < n" using Suc.prems(1) by simp
    moreover have "d + of_nat n \<noteq> s + of_nat i" using \<open>i < n\<close> by (intro Suc.prems(3)) auto
    then have "s + of_nat i \<noteq> d + of_nat n" by metis
    ultimately show ?thesis using Suc by simp
  qed
qed simp

lemma memset_loop_eq:
  "n < 2 ^ 64 \<Longrightarrow> memset_loop n m p v b = (if unat (b - p) < n then v else m b)"
proof (induction n arbitrary: m p)
  case (Suc n)
  show ?case
  proof (cases "b = p")
    case True
    have "n \<le> unat (p - (p + 1))" using Suc.prems by simp
    then show ?thesis using True Suc by simp
  next
    case False
    then have "1 \<le> unat (b - p)" by (simp add: Suc_leI unat_gt_0)
    then have "unat (b - (p + 1)) < n \<longleftrightarrow> unat (b - p) < Suc n"
      using unat_diff_step[of b p] by linarith
    then show ?thesis using False Suc by simp
  qed
qed simp

lemma memmove_noclobber:
  fixes d s :: u64
  assumes "unat d + n \<le> 2 ^ 64" "unat s + n \<le> 2 ^ 64"
  shows "d < s \<Longrightarrow> i < j \<Longrightarrow> j < n \<Longrightarrow> d + of_nat i \<noteq> s + of_nat j"
    and "s < d \<Longrightarrow> j < i \<Longrightarrow> i < n \<Longrightarrow> d + of_nat i \<noteq> s + of_nat j"
  using assms by (auto simp: word_less_nat_alt dest!: arg_cong[where f = unat] simp add: unat_plus_of_nat)

lemma memmove_copies:
  assumes "unat d + unat n \<le> 2 ^ 64" "unat s + unat n \<le> 2 ^ 64" "i < unat n"
  shows "snd (memmove m d s n) (d + of_nat i) = m (s + of_nat i)"
proof -
  consider "d < s" | "s < d" | "s = d" by (meson less_linear)
  then show ?thesis
  proof cases
    case 1
    then show ?thesis using assms memmove_noclobber(1)[OF assms(1,2) 1]
      by (auto simp: memmove_def intro!: copy_up_at unat_less64)
  next
    case 2
    then show ?thesis using assms memmove_noclobber(2)[OF assms(1,2) 2]
      by (auto simp: memmove_def intro!: copy_down_at unat_less64)
  next
    case 3
    then show ?thesis by (simp add: memmove_def)
  qed
qed

lemma strcpy_loop_copy:
  assumes "m (s + of_nat k) = 0" "\<And>i. i < k \<Longrightarrow> m (s + of_nat i) \<noteq> 0"
    "\<And>i j. i < j \<Longrightarrow> j \<le> k \<Longrightarrow> d + of_nat i \<noteq> s + of_nat j"
  shows "strcpy_loop m d s = Some (copy_up (Suc k) m d s)"
  using assms
proof (induction k arbitrary: m d s)
  case 0
  then show ?case by (simp add: strcpy_loop.simps fun_upd_def)
next
  case (Suc k)
  have ne: "m s \<noteq> 0" using Suc.prems(2)[of 0] by simp
  have "strcpy_loop (m(d := m s)) (d + 1) (s + 1) = Some (copy_up (Suc k) (m(d := m s)) (d + 1) (s + 1))"
  proof (rule Suc.IH)
    have neq: "d \<noteq> s + 1 + of_nat i" if "i \<le> k" for i
      using Suc.prems(3)[of 0 "Suc i"] that by (simp add: add.assoc)
    show "(m(d := m s)) (s + 1 + of_nat k) = 0"
      using Suc.prems(1) neq[of k] by (simp add: add.assoc)
    show "(m(d := m s)) (s + 1 + of_nat i) \<noteq> 0" if "i < k" for i
      using Suc.prems(2)[of "Suc i"] neq[of i] that by (simp add: add.assoc)
    show "d + 1 + of_nat i \<noteq> s + 1 + of_nat j" if "i < j" "j \<le> k" for i j
      using Suc.prems(3)[of "Suc i" "Suc j"] that by (simp add: add.assoc)
  qed
  then show ?case using ne by (subst strcpy_loop.simps) simp
qed

section \<open>Properties\<close>

lemma addr_split: "b = d + of_nat (unat (b - d :: u64))"
  by simp

text \<open>C31. \<open>memmove\<close> returns its destination and leaves there the bytes the source held
  before the call, whether or not the two regions overlap, and changes no other byte.\<close>

theorem memmove_correct:
  assumes "unat d + unat n \<le> 2 ^ 64" "unat s + unat n \<le> 2 ^ 64"
  shows "fst (memmove m d s n) = d \<and>
    (\<forall>b. snd (memmove m d s n) b = (if unat (b - d) < unat n then m (s + (b - d)) else m b))"
proof (intro conjI allI)
  fix b
  show "snd (memmove m d s n) b = (if unat (b - d) < unat n then m (s + (b - d)) else m b)"
  proof (cases "unat (b - d) < unat n")
    case True
    then show ?thesis using memmove_copies [OF assms True, of m] by simp
  next
    case False
    then show ?thesis by (simp add: memmove_def copy_up_other copy_down_other)
  qed
qed (simp add: memmove_def)

theorem memmove_correct_witness:
  "snd (memmove (\<lambda>a. ucast a) 2 0 4) 5 = 3 \<and> snd (memmove (\<lambda>a. ucast a) 2 0 4) 6 = 6"
  using memmove_correct [of 2 4 0 "\<lambda>a. ucast a"] by simp

text \<open>\<open>strcpy\<close> of a terminated string returns, returns its destination, copies the bytes
  up to and including the terminator, and changes no other byte.\<close>

lemma strcpy_correct:
  assumes "m (s + of_nat k) = 0" "\<And>i. i < k \<Longrightarrow> m (s + of_nat i) \<noteq> 0" "Suc k < 2 ^ 64"
    "\<And>i j. i \<le> k \<Longrightarrow> j \<le> k \<Longrightarrow> d + of_nat i \<noteq> s + of_nat j"
  shows "\<exists>m'. strcpy m d s = Some (d, m') \<and>
    (\<forall>b. m' b = (if unat (b - d) \<le> k then m (s + (b - d)) else m b))"
proof (intro exI conjI allI)
  show "strcpy m d s = Some (d, copy_up (Suc k) m d s)"
    using strcpy_loop_copy [of m s k d] assms by (simp add: strcpy_def)
  show "copy_up (Suc k) m d s b = (if unat (b - d) \<le> k then m (s + (b - d)) else m b)" for b
  proof (cases "unat (b - d) \<le> k")
    case True
    then have "copy_up (Suc k) m d s (d + of_nat (unat (b - d))) = m (s + of_nat (unat (b - d)))"
      using assms by (intro copy_up_at) auto
    then show ?thesis using True by simp
  next
    case False
    then show ?thesis by (simp add: copy_up_other del: copy_up.simps)
  qed
qed

theorem strcpy_correct_witness:
  "\<exists>m'. strcpy (\<lambda>a. if a < 3 then 65 else 0) 16 0 = Some (16, m') \<and> m' 18 = 65 \<and> m' 19 = 0"
proof -
  define m :: mem where "m = (\<lambda>a. if a < 3 then 65 else 0)"
  have i3: "i = 0 \<or> i = 1 \<or> i = 2" if "i < 3" for i :: nat using that by auto
  have "\<exists>m'. strcpy m 16 0 = Some (16, m') \<and> (\<forall>b. m' b = (if unat (b - 16) \<le> 3 then m (0 + (b - 16)) else m b))"
  proof (rule strcpy_correct)
    show "m (0 + of_nat i) \<noteq> 0" if "i < 3" for i using i3 [OF that] by (auto simp: m_def)
    show "(16 :: u64) + of_nat i \<noteq> 0 + of_nat j" if "i \<le> 3" "j \<le> 3" for i j
    proof
      assume "(16 :: u64) + of_nat i = 0 + of_nat j"
      then have "(of_nat (16 + i) :: u64) = of_nat j" by simp
      then show False using that of_nat64_eq_iff [of "16 + i" j] by simp
    qed
  qed (simp_all add: m_def)
  then obtain m' where "strcpy m 16 0 = Some (16, m')"
      and eq: "\<And>b. m' b = (if unat (b - 16) \<le> 3 then m (0 + (b - 16)) else m b)" by blast
  moreover have "m' 18 = 65" "m' 19 = 0" using eq [of 18] eq [of 19] by (simp_all add: m_def)
  ultimately show ?thesis by (auto simp: m_def)
qed

text \<open>\<open>memset\<close> writes the low byte of its value to exactly the bytes of the region.\<close>

theorem memset_correct:
  "fst (memset m d v n) = d \<and> (\<forall>b. snd (memset m d v n) b = (if unat (b - d) < unat n then ucast v else m b))"
  by (simp add: memset_def memset_loop_eq [OF unat_less64])

lemma find_map_index: "find P (map f xs) = map_option f (find (\<lambda>i. P (f i)) xs)"
  by (induction xs) auto

lemma memcmp_loop_sign:
  "memcmp_loop n m p q = (case find (\<lambda>i. m (p + of_nat i) \<noteq> m (q + of_nat i)) [0..<n] of
     None \<Rightarrow> 0 | Some i \<Rightarrow> if m (p + of_nat i) < m (q + of_nat i) then -1 else 1)"
proof (induction n arbitrary: p q)
  case (Suc n)
  have "[0..<Suc n] = 0 # map Suc [0..<n]" by (simp add: upt_conv_Cons map_Suc_upt del: upt_Suc)
  then show ?case by (simp add: Suc add.assoc find_map_index split: option.splits del: upt_Suc)
qed simp

text \<open>\<open>memcmp\<close> is zero exactly on equal regions, and otherwise its sign is the order of
  the first two bytes that differ.\<close>

theorem memcmp_correct:
  "memcmp m s1 s2 n = (case find (\<lambda>i. m (s1 + of_nat i) \<noteq> m (s2 + of_nat i)) [0..<unat n] of
     None \<Rightarrow> 0 | Some i \<Rightarrow> if m (s1 + of_nat i) < m (s2 + of_nat i) then -1 else 1)"
  unfolding memcmp_def by (rule memcmp_loop_sign)

end
