(* ===== verification/Common.thy ===== *)
theory Common
  imports KString
begin

text \<open>
  \<open>kernel/common.c\<close> and \<open>flurry/common.h\<close>. A panic or a failed assertion halts the machine, so a
  routine that can halt returns a sum whose left side names the halt; a routine that can also
  loop forever returns an option of such a sum (type \<open>run\<close>).
\<close>

datatype halt = KPanic string | KAssert string

definition kassert :: "bool \<Rightarrow> string \<Rightarrow> halt + unit" where
  "kassert expr msg = (if \<not> expr then Inl (KAssert msg) else Inr ())"

fun kbind :: "halt + 'a \<Rightarrow> ('a \<Rightarrow> halt + 'b) \<Rightarrow> halt + 'b" where
  "kbind (Inl e) k = Inl e"
| "kbind (Inr x) k = k x"

type_synonym 'a run = "(halt + 'a) option"

fun rbind :: "'a run \<Rightarrow> ('a \<Rightarrow> 'b run) \<Rightarrow> 'b run" where
  "rbind None k = None"
| "rbind (Some (Inl e)) k = Some (Inl e)"
| "rbind (Some (Inr x)) k = k x"

definition clamp :: "u64 \<Rightarrow> u64 \<Rightarrow> u64 \<Rightarrow> u64" where
  "clamp value mn mx = (if value < mn then mn else if value > mx then mx else value)"

definition from_ms :: "u64 \<Rightarrow> u64" where
  "from_ms ms = ms * 1000000"

definition ALIGN_UP :: "u64 \<Rightarrow> u64 \<Rightarrow> u64" where
  "ALIGN_UP x align = (x + (align - 1)) AND NOT (align - 1)"

lemma unat_and_not_mask64: "unat (w AND NOT (mask n) :: u64) = unat w div 2 ^ n * 2 ^ n"
proof -
  have "w AND NOT (mask n) = push_bit n (drop_bit n w)"
    by (intro bit_eqI) (auto simp: bit_simps)
  then have "w AND NOT (mask n) = w - take_bit n w"
    using bits_ident [of n w] by (simp add: eq_diff_eq)
  moreover have "unat (take_bit n w) = unat w mod 2 ^ n"
    by (simp only: unsigned_take_bit_eq) (simp add: take_bit_eq_mod)
  moreover have "take_bit n w \<le> w"
    by (simp add: word_le_nat_alt calculation(2))
  ultimately have "unat (w AND NOT (mask n)) = unat w - unat w mod 2 ^ n"
    by (simp add: unat_sub)
  then show ?thesis by (simp add: minus_mod_eq_div_mult)
qed

lemma unat_mask64: "n < 64 \<Longrightarrow> unat (mask n :: u64) = 2 ^ n - 1"
proof -
  assume "n < 64"
  then have "uint (mask n :: u64) = 2 ^ n - 1" by (subst uint_mask_eq) (simp add: mask_eq_exp_minus_1)
  then show ?thesis by (simp only: unat_eq_nat_uint) (simp add: nat_diff_distrib nat_power_eq)
qed

lemma unat_ALIGN_UP:
  assumes "unat x + 2 ^ n \<le> 2 ^ 64" "n < 64"
  shows "unat (ALIGN_UP x (2 ^ n)) = (unat x + (2 ^ n - 1)) div 2 ^ n * 2 ^ n"
proof -
  have m: "(2 ^ n :: u64) - 1 = mask n" by (simp add: mask_eq_exp_minus_1)
  have "unat (mask n :: u64) = 2 ^ n - 1"
    using assms(2) by (simp add: unat_mask64)
  then have "unat (x + mask n) = unat x + (2 ^ n - 1)"
    using assms by (simp add: unat_word_ariths)
  then show ?thesis by (simp add: ALIGN_UP_def m unat_and_not_mask64)
qed

end
