(* ===== verification/Machine.thy ===== *)
theory Machine
  imports Common
begin

text \<open>
  The hardware seen from the kernel: every instruction with an effect outside memory is appended to
  the history \<open>io\<close>, and an instruction that reads is answered by \<open>dev\<close>, a function of the history so
  far, which stands for the devices. The wrappers of \<open>flurry/asm_wrappers.h\<close> and
  \<open>flurry/cpu/msr.h\<close> are the operations on it.
\<close>

datatype hw_event =
    OutB u16 u8 | InB u16
  | Mmio_W32 u64 u32 | Mmio_R32 u64 | Mmio_W64 u64 u64 | Mmio_R64 u64
  | Rdmsr u32 | Wrmsr u32 u32 u32 | Rdtsc
  | Cli | Sti | Hlt | Pause
  | Lgdt u16 u64 | Ltr u16 | Reload_segments u16 u16 | Lidt u16 u64

record hw =
  io :: "hw_event list"
  dev :: "hw_event list \<Rightarrow> hw_event \<Rightarrow> u64"

definition hw_do :: "hw_event \<Rightarrow> hw \<Rightarrow> hw" where
  "hw_do e s = s\<lparr>io := io s @ [e]\<rparr>"

definition hw_ask :: "hw_event \<Rightarrow> hw \<Rightarrow> u64 \<times> hw" where
  "hw_ask e s = (dev s (io s) e, s\<lparr>io := io s @ [e]\<rparr>)"

section \<open>Instruction wrappers\<close>

definition read_msr :: "u32 \<Rightarrow> hw \<Rightarrow> (u32 \<times> u32) \<times> hw" where
  "read_msr msr s = (let (a, s1) = hw_ask (Rdmsr msr) s in ((ucast a, ucast (drop_bit 32 a)), s1))"

definition write_msr :: "u32 \<Rightarrow> u32 \<Rightarrow> u32 \<Rightarrow> hw \<Rightarrow> hw" where
  "write_msr msr eax edx s = hw_do (Wrmsr msr eax edx) s"

definition write_portb :: "u16 \<Rightarrow> u8 \<Rightarrow> hw \<Rightarrow> hw" where
  "write_portb port val s = hw_do (OutB port val) s"

definition read_portb :: "u16 \<Rightarrow> hw \<Rightarrow> u8 \<times> hw" where
  "read_portb port s = (let (a, s1) = hw_ask (InB port) s in (ucast a, s1))"

definition MSR_EFER :: u64 where "MSR_EFER = 0xC0000080"
definition MSR_STAR :: u64 where "MSR_STAR = 0xC0000081"
definition MSR_LSTAR :: u64 where "MSR_LSTAR = 0xC0000082"
definition MSR_FMASK :: u64 where "MSR_FMASK = 0xC0000084"

definition msr_read :: "u64 \<Rightarrow> hw \<Rightarrow> u64 \<times> hw" where
  "msr_read msr s =
     (let (a, s1) = hw_ask (Rdmsr (ucast msr)) s;
          low = (ucast a :: u32);
          high = (ucast (drop_bit 32 a) :: u32)
      in (ucast low OR push_bit 32 (ucast high), s1))"

definition msr_write :: "u64 \<Rightarrow> u64 \<Rightarrow> hw \<Rightarrow> hw" where
  "msr_write msr val s = hw_do (Wrmsr (ucast msr) (ucast val) (ucast (drop_bit 32 val))) s"

section \<open>Devices that remember what was written to them\<close>

fun last_wrmsr :: "u32 \<Rightarrow> hw_event list \<Rightarrow> u64 option" where
  "last_wrmsr msr [] = None"
| "last_wrmsr msr (e # es) =
     (case last_wrmsr msr es of
        Some v \<Rightarrow> Some v
      | None \<Rightarrow> (case e of Wrmsr m a d \<Rightarrow> if m = msr then Some (ucast a OR push_bit 32 (ucast d)) else None | _ \<Rightarrow> None))"

definition msr_device :: "hw \<Rightarrow> bool" where
  "msr_device s \<longleftrightarrow> (\<forall>h m v. last_wrmsr m h = Some v \<longrightarrow> dev s h (Rdmsr m) = v)"

lemma split_join64: "ucast (ucast a :: u32) OR push_bit 32 (ucast (ucast (drop_bit 32 a) :: u32)) = (a :: u64)"
  by (rule bit_eqI) (auto simp: bit_simps)

lemma msr_read_answer: "msr_read msr s = (dev s (io s) (Rdmsr (ucast msr)), s\<lparr>io := io s @ [Rdmsr (ucast msr)]\<rparr>)"
  by (simp add: msr_read_def hw_ask_def Let_def split_join64)

lemma last_wrmsr_snoc: "last_wrmsr m (h @ [e]) =
    (case e of Wrmsr k a d \<Rightarrow> if k = m then Some (ucast a OR push_bit 32 (ucast d)) else last_wrmsr m h | _ \<Rightarrow> last_wrmsr m h)"
proof (induction h)
  case (Cons x h)
  then show ?case by (cases e; cases x) auto
qed (cases e; auto)

lemma last_wrmsr_write: "last_wrmsr m (io (msr_write k v s)) = (if ucast k = m then Some v else last_wrmsr m (io s))"
  by (simp add: msr_write_def hw_do_def last_wrmsr_snoc split_join64)

end
