(* ===== verification/Pmm.thy ===== *)
theory Pmm
  imports Common
begin

text \<open>
  \<open>kernel/memory/pmm.c\<close>: the physical page allocator. Free pages form a linked list threaded
  through the pages themselves, written through the bootloader's direct map at
  \<open>hhdm_offset\<close>. The memory map is the list of regions the boot code built; the page frame
  counter is returned where the code logs it.
\<close>

section \<open>State and operations\<close>

datatype PhysMemoryRegionType =
    PhysMemType_Usable | PhysMemType_RESERVED | PhysMemType_ACPI_RECLAIMABLE | PhysMemType_ACPI_NVS
  | PhysMemType_BAD_MEMORY | PhysMemType_BOOTLOADER_RECLAIMABLE | PhysMemType_KERNEL_AND_MODULES
  | PhysMemType_FRAMEBUFFER

record PhysMemoryRegion =
  rg_base :: u64
  rg_length :: u64
  rg_type :: PhysMemoryRegionType

record pmm =
  pmem :: mem
  pmm_hhdm_offset :: u64
  free_list_head :: u64

definition PAGE_SIZE :: u64 where "PAGE_SIZE = 4096"

definition page_address :: "mem \<Rightarrow> u64 \<Rightarrow> u64" where "page_address m page = ld64 m page"
definition page_next :: "mem \<Rightarrow> u64 \<Rightarrow> u64" where "page_next m page = ld64 m (page + 8)"
definition set_page_address :: "mem \<Rightarrow> u64 \<Rightarrow> u64 \<Rightarrow> mem" where "set_page_address m page v = st64 m page v"
definition set_page_next :: "mem \<Rightarrow> u64 \<Rightarrow> u64 \<Rightarrow> mem" where "set_page_next m page v = st64 m (page + 8) v"

definition pmm_add_page :: "u64 \<Rightarrow> pmm \<Rightarrow> pmm" where
  "pmm_add_page addr s =
     (let page = addr + pmm_hhdm_offset s;
          m1 = set_page_address (pmem s) page addr;
          m2 = set_page_next m1 page (free_list_head s)
      in s\<lparr>pmem := m2, free_list_head := page\<rparr>)"

partial_function (option) pmm_region_loop :: "u64 \<Rightarrow> u64 \<Rightarrow> u64 \<Rightarrow> pmm \<Rightarrow> (u64 \<times> pmm) option" where
  "pmm_region_loop addr region_end num s =
     (if addr < region_end
      then pmm_region_loop (addr + PAGE_SIZE) region_end (num + 1) (pmm_add_page addr s)
      else Some (num, s))"

fun pmm_init_loop :: "PhysMemoryRegion list \<Rightarrow> u64 \<Rightarrow> u64 \<Rightarrow> pmm \<Rightarrow> (u64 \<times> u64 \<times> pmm) option" where
  "pmm_init_loop [] num total_mem s = Some (num, total_mem, s)"
| "pmm_init_loop (entry # entries) num total_mem s =
     (if rg_type entry \<noteq> PhysMemType_Usable then pmm_init_loop entries num total_mem s
      else case pmm_region_loop (rg_base entry) (rg_base entry + rg_length entry) num s of
        None \<Rightarrow> None
      | Some (num', s') \<Rightarrow> pmm_init_loop entries num' (total_mem + rg_length entry) s')"

definition pmm_init :: "u64 \<Rightarrow> PhysMemoryRegion list \<Rightarrow> pmm \<Rightarrow> (u64 \<times> pmm) option" where
  "pmm_init offset memory_map s =
     (case pmm_init_loop (drop 1 memory_map) 0 0 (s\<lparr>pmm_hhdm_offset := offset\<rparr>) of
        None \<Rightarrow> None
      | Some (num_of_page_frames, total_mem, s') \<Rightarrow> Some (num_of_page_frames, s'))"

definition pmm_alloc :: "pmm \<Rightarrow> u64 \<times> pmm" where
  "pmm_alloc s =
     (if free_list_head s = 0 then (0, s)
      else let page = free_list_head s;
               s1 = s\<lparr>free_list_head := page_next (pmem s) page\<rparr>;
               addr = page_address (pmem s1) page;
               m = snd (memset (pmem s1) (page_address (pmem s1) page + pmm_hhdm_offset s1) 0 PAGE_SIZE)
           in (addr, s1\<lparr>pmem := m\<rparr>))"

definition pmm_free :: "u64 \<Rightarrow> pmm \<Rightarrow> pmm" where
  "pmm_free addr s =
     (let page = addr
      in s\<lparr>pmem := set_page_next (pmem s) page (free_list_head s), free_list_head := page\<rparr>)"

section \<open>Pages as arrays of 64-bit entries\<close>

definition pgal :: "u64 \<Rightarrow> bool" where "pgal a \<longleftrightarrow> 4096 dvd unat a"

definition pent :: "mem \<Rightarrow> u64 \<Rightarrow> nat \<Rightarrow> u64" where
  "pent m p i = ld64 m (p + 8 * of_nat i)"

lemma unat_eqD: "unat (a :: u64) = unat b \<Longrightarrow> a = b"
  by (metis unsigned_word_eqI)

lemma pgal_add: "pgal a \<Longrightarrow> pgal b \<Longrightarrow> pgal (a + b)"
proof -
  assume "pgal a" "pgal b"
  then have "4096 dvd unat a + unat b" by (simp add: pgal_def)
  moreover have "(4096 :: nat) dvd 2 ^ 64" by simp
  ultimately have "4096 dvd (unat a + unat b) mod 2 ^ 64" by (rule dvd_mod)
  then show ?thesis by (simp add: pgal_def unat_word_ariths)
qed

lemma pgal_entry: "pgal p \<Longrightarrow> i < 512 \<Longrightarrow> unat (p + 8 * of_nat i) = unat p + 8 * i"
proof -
  assume p: "pgal p" and i: "i < 512"
  obtain k where k: "unat p = 4096 * k" using p by (auto simp: pgal_def elim: dvdE)
  then have "k < 2 ^ 52" using unat_less64 [of p] by simp
  then show ?thesis using unat_plus_of_nat [of p "8 * i"] k i by simp
qed

lemma pgal_entry_al8: "pgal p \<Longrightarrow> i < 512 \<Longrightarrow> al8 (p + 8 * of_nat i)"
  by (auto simp: al8_def pgal_entry) (auto simp: pgal_def)

lemma pgal_entry_inj: "pgal p \<Longrightarrow> pgal q \<Longrightarrow> i < 512 \<Longrightarrow> j < 512 \<Longrightarrow>
    p + 8 * of_nat i = q + 8 * of_nat j \<longleftrightarrow> p = q \<and> i = j"
proof
  assume a: "pgal p" "pgal q" "i < 512" "j < 512" and eq: "p + 8 * of_nat i = q + 8 * of_nat j"
  then have u: "unat p + 8 * i = unat q + 8 * j" using pgal_entry by metis
  obtain k l where kl: "unat p = 4096 * k" "unat q = 4096 * l" using a(1,2) by (auto simp: pgal_def elim!: dvdE)
  have "(4096 * k + 8 * i) div 4096 = k" "(4096 * l + 8 * j) div 4096 = l" using a(3,4) by simp_all
  then have "k = l" using u kl by metis
  then have "unat p = unat q" "i = j" using u kl by simp_all
  then show "p = q \<and> i = j" by (simp add: unat_eqD)
qed simp

lemma pent_st64:
  assumes "pgal p" "pgal q" "i < 512" "j < 512"
  shows "pent (st64 m (p + 8 * of_nat i) v) q j = (if p = q \<and> i = j then v else pent m q j)"
  using assms pgal_entry_al8 [of p i] pgal_entry_al8 [of q j] pgal_entry_inj [of p q i j]
  by (simp add: pent_def ld64_st64_al8)

lemma pent_st64_low:
  assumes "pgal p" "pgal q" "j < 512"
  shows "pent (st64 m p v) q j = (if p = q \<and> j = 0 then v else pent m q j)"
    "pent (st64 m (p + 8) v) q j = (if p = q \<and> j = 1 then v else pent m q j)"
  using pent_st64 [of p q 0 j m v] pent_st64 [of p q 1 j m v] assms by auto

lemma ld_zero: "ld n (\<lambda>_. 0) a = 0"
  by (induction n arbitrary: a) auto

lemma pent_memset:
  assumes p: "pgal p" and q: "pgal q" and j: "j < 512"
  shows "pent (snd (memset m p 0 4096)) q j = (if p = q then 0 else pent m q j)"
proof -
  have b: "snd (memset m p 0 4096) (q + 8 * of_nat j + of_nat k) = (if p = q then 0 else m (q + 8 * of_nat j + of_nat k))" if k: "k < 8" for k
  proof -
    let ?b = "q + 8 * of_nat j + of_nat k"
    obtain a c where ac: "unat p = 4096 * a" "unat q = 4096 * c" using p q by (auto simp: pgal_def elim!: dvdE)
    have "unat ?b = unat q + (8 * j + k)"
      using unat_plus_of_nat [of q "8 * j + k"] ac(2) j k unat_less64 [of q] by (simp add: add.assoc)
    then have u: "unat ?b = 4096 * c + (8 * j + k)" "8 * j + k < 4096" using ac(2) j k by simp_all
    have "unat (?b - p) < 4096 \<longleftrightarrow> p = q"
    proof (cases "c = a")
      case True
      then have "p = q" using ac by (intro unat_eqD) simp
      moreover have "unat (of_nat (8 * j + k) :: u64) = 8 * j + k" using u(2) by (intro unat_of_nat64) simp
      ultimately have "p = q" "unat (?b - p) = 8 * j + k" by (simp_all add: add.assoc)
      then show ?thesis using u(2) by simp
    next
      case False
      have "a < 2 ^ 52" "c < 2 ^ 52" using unat_less64 [of p] unat_less64 [of q] ac by simp_all
      then have "\<not> unat (?b - p) < 4096" using u ac False by (auto simp: unat_sub_if')
      moreover have "p \<noteq> q" using False ac by auto
      ultimately show ?thesis by simp
    qed
    then show ?thesis using memset_loop_eq [of 4096 m p 0 ?b] by (simp add: memset_def)
  qed
  show ?thesis
  proof (cases "p = q")
    case True
    then have "ld 8 (snd (memset m p 0 4096)) (q + 8 * of_nat j) = ld 8 (\<lambda>_. 0) (q + 8 * of_nat j)"
      using b by (intro ld_cong) auto
    then show ?thesis using True by (simp add: pent_def ld64_def ld_zero)
  next
    case False
    then show ?thesis unfolding pent_def ld64_def using b by (auto intro!: ld_cong)
  qed
qed

section \<open>The free list\<close>

fun fchain :: "mem \<Rightarrow> u64 \<Rightarrow> u64 \<Rightarrow> u64 list \<Rightarrow> bool" where
  "fchain m h p [] = (p = 0)"
| "fchain m h p (q # qs) = (p = q + h \<and> p \<noteq> 0 \<and> pent m p 0 = q \<and> fchain m h (pent m p 1) qs)"

definition pmm_rep :: "pmm \<Rightarrow> u64 list \<Rightarrow> bool" where
  "pmm_rep s ps \<longleftrightarrow> pgal (pmm_hhdm_offset s) \<and> distinct ps \<and> (\<forall>p\<in>set ps. pgal p) \<and>
     fchain (pmem s) (pmm_hhdm_offset s) (free_list_head s) ps"

lemma fchain_cong:
  "(\<And>q j. q \<in> set ps \<Longrightarrow> j < 2 \<Longrightarrow> pent m' (q + h) j = pent m (q + h) j) \<Longrightarrow> fchain m' h p ps = fchain m h p ps"
  by (induction ps arbitrary: p) auto

lemma page_fields: "page_address m p = pent m p 0" "page_next m p = pent m p 1"
  "set_page_address m p v = st64 m p v" "set_page_next m p v = st64 m (p + 8) v"
  by (simp_all add: page_address_def page_next_def set_page_address_def set_page_next_def pent_def)

lemma pmm_alloc_none: "pmm_rep s [] \<Longrightarrow> pmm_alloc s = (0, s)"
  by (simp add: pmm_rep_def pmm_alloc_def)

lemma pmm_alloc_some:
  assumes rep: "pmm_rep s (p # ps)"
  obtains s' where "pmm_alloc s = (p, s')" "pmm_rep s' ps" "pmm_hhdm_offset s' = pmm_hhdm_offset s"
    "\<And>q j. pgal q \<Longrightarrow> j < 512 \<Longrightarrow> pent (pmem s') q j = (if q = p + pmm_hhdm_offset s then 0 else pent (pmem s) q j)"
proof -
  let ?h = "pmm_hhdm_offset s"
  define m where "m = snd (memset (pmem s) (p + ?h) 0 4096)"
  define s' where "s' = s\<lparr>free_list_head := pent (pmem s) (p + ?h) 1, pmem := m\<rparr>"
  note rp = rep [unfolded pmm_rep_def]
  have pg: "pgal (p + ?h)" using rp by (auto intro: pgal_add)
  have "free_list_head s = p + ?h" "p + ?h \<noteq> 0" "pent (pmem s) (p + ?h) 0 = p" using rp by auto
  then have "pmm_alloc s = (p, s')"
    by (simp add: pmm_alloc_def page_fields Let_def s'_def m_def PAGE_SIZE_def)
  moreover have pe: "pent m q j = (if q = p + ?h then 0 else pent (pmem s) q j)" if "pgal q" "j < 512" for q j
    using pent_memset [OF pg that] by (auto simp: m_def)
  moreover have "fchain m ?h (pent (pmem s) (p + ?h) 1) ps = fchain (pmem s) ?h (pent (pmem s) (p + ?h) 1) ps"
  proof (rule fchain_cong)
    fix q :: u64 and j :: nat
    assume "q \<in> set ps" "j < 2"
    then show "pent m (q + ?h) j = pent (pmem s) (q + ?h) j" using rp by (subst pe) (auto intro: pgal_add)
  qed
  ultimately show thesis using that [of s'] rp by (auto simp: s'_def pmm_rep_def)
qed

definition region_pages :: "u64 \<Rightarrow> nat \<Rightarrow> u64 list" where
  "region_pages base n = map (\<lambda>i. base + 4096 * of_nat i) [0..<n]"

lemma region_pages_Suc: "region_pages base (Suc n) = base # region_pages (base + 4096) n"
proof -
  have "[0..<Suc n] = 0 # map Suc [0..<n]" by (simp add: upt_conv_Cons map_Suc_upt del: upt_Suc)
  then show ?thesis by (simp add: region_pages_def distrib_left add.assoc del: upt_Suc)
qed

lemma pmm_add_page_rep:
  assumes rep: "pmm_rep s ps" and p: "pgal p" "p \<notin> set ps" "p + pmm_hhdm_offset s \<noteq> 0"
  shows "pmm_rep (pmm_add_page p s) (p # ps)" "pmm_hhdm_offset (pmm_add_page p s) = pmm_hhdm_offset s"
proof -
  let ?h = "pmm_hhdm_offset s" and ?s' = "pmm_add_page p s"
  note rp = rep [unfolded pmm_rep_def]
  have pg: "pgal (p + ?h)" using rp p by (auto intro: pgal_add)
  have pe: "pent (pmem ?s') q j = (if q = p + ?h \<and> j = 0 then p else if q = p + ?h \<and> j = 1 then free_list_head s else pent (pmem s) q j)"
    if "pgal q" "j < 512" for q j
    using that pg by (auto simp: pmm_add_page_def Let_def page_fields pent_st64_low)
  have "fchain (pmem ?s') ?h (free_list_head s) ps = fchain (pmem s) ?h (free_list_head s) ps"
  proof (rule fchain_cong)
    fix q :: u64 and j :: nat
    assume "q \<in> set ps" "j < 2"
    then show "pent (pmem ?s') (q + ?h) j = pent (pmem s) (q + ?h) j" using rp p by (subst pe) (auto intro: pgal_add)
  qed
  moreover have "free_list_head ?s' = p + ?h" and h: "pmm_hhdm_offset ?s' = ?h" by (simp_all add: pmm_add_page_def Let_def)
  ultimately show "pmm_rep ?s' (p # ps)" using rp p pe [OF pg, of 0] pe [OF pg, of 1] by (simp add: pmm_rep_def)
  show "pmm_hhdm_offset ?s' = ?h" by (rule h)
qed

lemma pmm_region_loop_rep:
  assumes "unat addr + 4096 * n = unat e" "pgal addr" "pmm_rep s ps" "set (region_pages addr n) \<inter> set ps = {}"
    "\<forall>p\<in>set (region_pages addr n). p + pmm_hhdm_offset s \<noteq> 0"
  shows "\<exists>s'. pmm_region_loop addr e num s = Some (num + of_nat n, s') \<and>
    pmm_rep s' (rev (region_pages addr n) @ ps) \<and> pmm_hhdm_offset s' = pmm_hhdm_offset s"
  using assms
proof (induction n arbitrary: addr num s ps)
  case 0
  then show ?case by (auto simp: pmm_region_loop.simps [of addr] region_pages_def word_less_nat_alt)
next
  case (Suc n)
  have u: "unat (addr + 4096) = unat addr + 4096"
    using unat_plus_of_nat [of addr 4096] Suc.prems(1) unat_less64 [of e] by simp
  note add = pmm_add_page_rep [OF Suc.prems(3,2)]
  have ap: "addr \<notin> set ps" "addr + pmm_hhdm_offset s \<noteq> 0" using Suc.prems(4,5) by (auto simp: region_pages_Suc)
  have "pgal 4096" by (simp add: pgal_def)
  then have pg: "pgal (addr + 4096)" using Suc.prems(2) by (rule pgal_add [rotated])
  have "addr \<notin> set (region_pages (addr + 4096) n)"
  proof
    assume "addr \<in> set (region_pages (addr + 4096) n)"
    then obtain i where i: "i < n" "addr = addr + 4096 + 4096 * of_nat i" by (auto simp: region_pages_def)
    then have "(of_nat (4096 + 4096 * i) :: u64) = 0" by (simp add: add.assoc)
    moreover have "4096 + 4096 * i < 2 ^ 64" using i(1) Suc.prems(1) unat_less64 [of e] by simp
    ultimately show False using unat_of_nat64 [of "4096 + 4096 * i"] by simp
  qed
  then obtain s' where "pmm_region_loop (addr + 4096) e (num + 1) (pmm_add_page addr s) = Some (num + 1 + of_nat n, s')"
      "pmm_rep s' (rev (region_pages (addr + 4096) n) @ addr # ps)" "pmm_hhdm_offset s' = pmm_hhdm_offset s"
    using Suc.IH [of "addr + 4096" "pmm_add_page addr s" "addr # ps" "num + 1"] Suc.prems u pg add ap by (auto simp: region_pages_Suc)
  moreover have "addr < e" using Suc.prems(1) by (simp add: word_less_nat_alt)
  ultimately show ?case
    by (subst pmm_region_loop.simps) (simp add: PAGE_SIZE_def region_pages_Suc add.assoc)
qed

definition usable_pages :: "PhysMemoryRegion list \<Rightarrow> u64 list" where
  "usable_pages rs = concat (map (\<lambda>r. if rg_type r = PhysMemType_Usable
     then region_pages (rg_base r) (unat (rg_length r) div 4096) else []) rs)"

definition regions_ok :: "u64 \<Rightarrow> PhysMemoryRegion list \<Rightarrow> bool" where
  "regions_ok h rs \<longleftrightarrow> distinct (usable_pages rs) \<and> (\<forall>p\<in>set (usable_pages rs). p + h \<noteq> 0) \<and>
     (\<forall>r\<in>set rs. rg_type r = PhysMemType_Usable \<longrightarrow>
        pgal (rg_base r) \<and> pgal (rg_length r) \<and> unat (rg_base r) + unat (rg_length r) < 2 ^ 64)"

lemma pmm_init_loop_rep:
  assumes "regions_ok (pmm_hhdm_offset s) rs" "pmm_rep s ps" "set (usable_pages rs) \<inter> set ps = {}"
  shows "\<exists>tot s'. pmm_init_loop rs num tmem s = Some (num + of_nat (length (usable_pages rs)), tot, s') \<and>
    pmm_rep s' (rev (usable_pages rs) @ ps) \<and> pmm_hhdm_offset s' = pmm_hhdm_offset s"
  using assms
proof (induction rs arbitrary: num tmem s ps)
  case (Cons r rs)
  show ?case
  proof (cases "rg_type r = PhysMemType_Usable")
    case True
    let ?n = "unat (rg_length r) div 4096" and ?e = "rg_base r + rg_length r"
    have ok: "pgal (rg_base r)" "pgal (rg_length r)" "unat (rg_base r) + unat (rg_length r) < 2 ^ 64"
      using Cons.prems(1) True by (auto simp: regions_ok_def)
    have "unat ?e = unat (rg_base r) + unat (rg_length r)" using ok(3) by (simp add: unat_word_ariths)
    then have e: "unat (rg_base r) + 4096 * ?n = unat ?e" using ok(2) by (simp add: pgal_def)
    have up: "usable_pages (r # rs) = region_pages (rg_base r) ?n @ usable_pages rs" using True by (simp add: usable_pages_def)
    obtain s1 where s1: "pmm_region_loop (rg_base r) ?e num s = Some (num + of_nat ?n, s1)"
        "pmm_rep s1 (rev (region_pages (rg_base r) ?n) @ ps)" "pmm_hhdm_offset s1 = pmm_hhdm_offset s"
      using pmm_region_loop_rep [OF e ok(1) Cons.prems(2), of num] Cons.prems(1,3) up by (auto simp: regions_ok_def)
    obtain tot s' where "pmm_init_loop rs (num + of_nat ?n) (tmem + rg_length r) s1 =
          Some (num + of_nat ?n + of_nat (length (usable_pages rs)), tot, s')"
        "pmm_rep s' (rev (usable_pages rs) @ rev (region_pages (rg_base r) ?n) @ ps)" "pmm_hhdm_offset s' = pmm_hhdm_offset s"
      using Cons.IH [of s1 "rev (region_pages (rg_base r) ?n) @ ps" "num + of_nat ?n" "tmem + rg_length r"] Cons.prems(1,3) up s1
      by (auto simp: regions_ok_def)
    then show ?thesis using s1(1) True up by (simp add: region_pages_def add.assoc)
  next
    case False
    then show ?thesis using Cons by (simp add: regions_ok_def usable_pages_def)
  qed
qed (simp add: usable_pages_def)

section \<open>Properties\<close>

text \<open>C20. \<open>pmm_init\<close> returns and links exactly the pages of the usable regions after the first
  entry of the memory map into the free list, the page added last first, and counts them.\<close>

theorem pmm_init_lists_usable:
  assumes "regions_ok offset (drop 1 memory_map)" "pgal offset" "free_list_head s = 0"
  shows "\<exists>s'. pmm_init offset memory_map s = Some (of_nat (length (usable_pages (drop 1 memory_map))), s') \<and>
    pmm_rep s' (rev (usable_pages (drop 1 memory_map))) \<and> pmm_hhdm_offset s' = offset"
proof -
  let ?s = "s\<lparr>pmm_hhdm_offset := offset\<rparr>"
  have "pmm_rep ?s []" using assms by (simp add: pmm_rep_def)
  then show ?thesis
    using pmm_init_loop_rep [of ?s "drop 1 memory_map" "[]" 0 0] assms(1) by (auto simp: pmm_init_def)
qed

definition sample_map :: "PhysMemoryRegion list" where
  "sample_map =
     [\<lparr>rg_base = 0, rg_length = 0x1000, rg_type = PhysMemType_Usable\<rparr>,
      \<lparr>rg_base = 0x8000, rg_length = 0x2000, rg_type = PhysMemType_Usable\<rparr>,
      \<lparr>rg_base = 0xa000, rg_length = 0x1000, rg_type = PhysMemType_RESERVED\<rparr>]"

definition sample_pmm :: pmm where
  "sample_pmm = \<lparr>pmem = (\<lambda>_. 0), pmm_hhdm_offset = 0, free_list_head = 0\<rparr>"

lemma sample_pages: "usable_pages (drop 1 sample_map) = [0x8000, 0x9000]"
  by (simp add: sample_map_def usable_pages_def region_pages_def upt_rec)

lemma sample_regions_ok: "regions_ok 0xffff800000000000 (drop 1 sample_map)"
proof -
  have "\<forall>r\<in>set (drop 1 sample_map). rg_type r = PhysMemType_Usable \<longrightarrow>
        pgal (rg_base r) \<and> pgal (rg_length r) \<and> unat (rg_base r) + unat (rg_length r) < 2 ^ 64"
    by (simp add: sample_map_def pgal_def)
  then show ?thesis unfolding regions_ok_def sample_pages by simp
qed

theorem pmm_init_lists_usable_witness:
  "\<exists>s'. pmm_init 0xffff800000000000 sample_map sample_pmm = Some (2, s') \<and> pmm_rep s' [0x9000, 0x8000]"
  using pmm_init_lists_usable [OF sample_regions_ok, of sample_pmm, unfolded sample_pages]
  by (auto simp: sample_pmm_def pgal_def)

text \<open>C21. \<open>pmm_alloc\<close> hands out the head of the free list with every entry of the page zeroed, and
  changes no other page; on an empty list it returns the null address.\<close>

theorem pmm_alloc_zeroes:
  assumes "pmm_rep s ps"
  shows "case ps of
      [] \<Rightarrow> pmm_alloc s = (0, s)
    | p # ps' \<Rightarrow> \<exists>s'. pmm_alloc s = (p, s') \<and> pmm_rep s' ps' \<and>
        (\<forall>q j. pgal q \<longrightarrow> j < 512 \<longrightarrow>
          pent (pmem s') q j = (if q = p + pmm_hhdm_offset s then 0 else pent (pmem s) q j))"
proof (cases ps)
  case (Cons p ps')
  then obtain s' where "pmm_alloc s = (p, s')" "pmm_rep s' ps'"
      "\<And>q j. pgal q \<Longrightarrow> j < 512 \<Longrightarrow> pent (pmem s') q j = (if q = p + pmm_hhdm_offset s then 0 else pent (pmem s) q j)"
    using pmm_alloc_some assms by blast
  then show ?thesis using Cons by auto
qed (use assms pmm_alloc_none in auto)

theorem pmm_alloc_zeroes_witness: "pmm_alloc sample_pmm = (0, sample_pmm)"
  using pmm_alloc_zeroes [of sample_pmm "[]"] by (simp add: sample_pmm_def pmm_rep_def pgal_def)

text \<open>C30. \<open>pmm_free\<close> links the page at its physical instead of its direct-map address and does not
  record the address in it, so the allocation that follows returns whatever word lies there.\<close>

theorem pmm_free_loses_address:
  assumes "pgal p" "p \<noteq> 0"
  shows "fst (pmm_alloc (pmm_free p s)) = ld64 (pmem s) p"
proof -
  have "pent (st64 (pmem s) (p + 8) v) p 0 = pent (pmem s) p 0" for v using pent_st64_low(2) [OF assms(1,1), where j = 0] by simp
  then show ?thesis using assms(2) by (simp add: pmm_free_def pmm_alloc_def page_fields Let_def) (simp add: pent_def)
qed

theorem pmm_free_loses_address_witness: "fst (pmm_alloc (pmm_free 0x8000 sample_pmm)) = 0"
  using pmm_free_loses_address [of "0x8000" sample_pmm] by (simp add: pgal_def sample_pmm_def ld64_def ld_zero)

end
