(* ===== verification/Paging.thy ===== *)
theory Paging
  imports Pmm
begin

text \<open>
  \<open>kernel/memory/paging.c\<close>: the walk through the four levels of x86-64 page tables, which creates
  missing tables from the physical page allocator, and the mapping and unmapping of one page. The
  tables live in physical memory and are written through the direct map. \<open>translate\<close> is the
  translation the tables define; the invariant \<open>pt_inv\<close> says that the tables form a tree of distinct
  page frames none of which is on the free list. The \<open>CR3\<close> register and the \<open>invlpg\<close> instructions
  executed are fields of the state.
\<close>

section \<open>State and operations\<close>

record vmm =
  pm :: pmm
  paging_hhdm_offset :: u64
  vmm_hhdm_offset :: u64
  kernel_pml4 :: u64
  cr3 :: u64
  invlpg_log :: "u64 list"

definition VM_FLAG_PRESENT :: u64 where "VM_FLAG_PRESENT = 1"
definition VM_FLAG_WRITE :: u64 where "VM_FLAG_WRITE = 2"
definition VM_FLAG_USER :: u64 where "VM_FLAG_USER = 4"
definition VM_FLAG_NO_CACHE :: u64 where "VM_FLAG_NO_CACHE = 0x10"
definition VM_FLAG_NX :: u64 where "VM_FLAG_NX = 0x8000000000000000"
definition VM_FLAG_DEFAULT :: u64 where "VM_FLAG_DEFAULT = 0"
definition PHYS_ADDR_MASK :: u64 where "PHYS_ADDR_MASK = 0x000FFFFFFFFFF000"

definition paging_set_hhdm_offset :: "u64 \<Rightarrow> vmm \<Rightarrow> vmm" where
  "paging_set_hhdm_offset offset s = s\<lparr>paging_hhdm_offset := offset\<rparr>"

definition is_entry_present :: "mem \<Rightarrow> u64 \<Rightarrow> bool" where
  "is_entry_present m entry \<longleftrightarrow> ld64 m entry AND VM_FLAG_PRESENT \<noteq> 0"

definition invlpg :: "u64 \<Rightarrow> vmm \<Rightarrow> vmm" where
  [simp]: "invlpg addr s = s\<lparr>invlpg_log := addr # invlpg_log s\<rparr>"

definition write_cr3 :: "u64 \<Rightarrow> vmm \<Rightarrow> vmm" where
  [simp]: "write_cr3 v s = s\<lparr>cr3 := v\<rparr>"

definition read_cr3 :: "vmm \<Rightarrow> u64" where
  [simp]: "read_cr3 s = cr3 s"

definition get_next_pml :: "u64 \<Rightarrow> u16 \<Rightarrow> vmm \<Rightarrow> u64 \<times> vmm" where
  "get_next_pml pml pml_index s =
     (let table = pml + paging_hhdm_offset s;
          entry = table + 8 * ucast pml_index
      in if is_entry_present (pmem (pm s)) entry
         then (ld64 (pmem (pm s)) entry AND PHYS_ADDR_MASK, s)
         else let (page, pm1) = pmm_alloc (pm s);
                  m2 = st64 (pmem pm1) entry (page OR VM_FLAG_PRESENT OR VM_FLAG_WRITE OR VM_FLAG_USER)
              in (ld64 m2 entry AND PHYS_ADDR_MASK, s\<lparr>pm := pm1\<lparr>pmem := m2\<rparr>\<rparr>))"

definition pml_index :: "nat \<Rightarrow> u64 \<Rightarrow> u16" where
  "pml_index shift virt = ucast (drop_bit shift virt AND 0x1ff)"

definition get_pml1_entry :: "u64 \<Rightarrow> u64 \<Rightarrow> vmm \<Rightarrow> u64 \<times> vmm" where
  "get_pml1_entry pml4 virt s =
     (let pml4_index = pml_index 39 virt;
          pml3_index = pml_index 30 virt;
          pml2_index = pml_index 21 virt;
          pml1_index = pml_index 12 virt;
          (pml3, s3) = get_next_pml pml4 pml4_index s;
          (pml2, s2) = get_next_pml pml3 pml3_index s3;
          (pml1, s1) = get_next_pml pml2 pml2_index s2;
          pml1_hhdm = pml1 + paging_hhdm_offset s1
      in (pml1_hhdm + 8 * ucast pml1_index, s1))"

definition invlpg_if_needed :: "u64 \<Rightarrow> u64 \<Rightarrow> vmm \<Rightarrow> vmm" where
  "invlpg_if_needed pml4 virt s =
     (let current_pml4 = read_cr3 s
      in if pml4 = current_pml4 then invlpg virt s else s)"

definition write_entry :: "u64 \<Rightarrow> u64 \<Rightarrow> vmm \<Rightarrow> vmm" where
  "write_entry entry v s = s\<lparr>pm := (pm s)\<lparr>pmem := st64 (pmem (pm s)) entry v\<rparr>\<rparr>"

definition paging_load_pml4 :: "u64 \<Rightarrow> vmm \<Rightarrow> vmm" where
  "paging_load_pml4 pml4 s = write_cr3 pml4 s"

definition paging_map_page :: "u64 \<Rightarrow> u64 \<Rightarrow> u64 \<Rightarrow> u16 \<Rightarrow> vmm \<Rightarrow> vmm" where
  "paging_map_page pml4 virt phys flags s =
     (let (entry, s1) = get_pml1_entry pml4 virt s
      in invlpg_if_needed pml4 virt (write_entry entry (phys OR VM_FLAG_PRESENT OR ucast flags) s1))"

definition paging_unmap_page :: "u64 \<Rightarrow> u64 \<Rightarrow> vmm \<Rightarrow> vmm" where
  "paging_unmap_page pml4 virt s =
     (let (entry, s1) = get_pml1_entry pml4 virt s
      in invlpg_if_needed pml4 virt (write_entry entry 0 s1))"

section \<open>The translation the tables define\<close>

definition tent :: "vmm \<Rightarrow> u64 \<Rightarrow> nat \<Rightarrow> u64" where
  "tent s t i = pent (pmem (pm s)) (t + paging_hhdm_offset s) i"

definition tnext :: "vmm \<Rightarrow> u64 \<Rightarrow> nat \<Rightarrow> u64 option" where
  "tnext s t i = (if bit (tent s t i) 0 then Some (tent s t i AND PHYS_ADDR_MASK) else None)"

fun tab :: "vmm \<Rightarrow> u64 \<Rightarrow> nat list \<Rightarrow> u64 option" where
  "tab s t [] = Some t"
| "tab s t (i # is) = (case tnext s t i of None \<Rightarrow> None | Some u \<Rightarrow> tab s u is)"

definition idx :: "nat \<Rightarrow> u64 \<Rightarrow> nat" where
  "idx shift virt = unat (drop_bit shift virt AND 0x1ff)"

definition vpath :: "u64 \<Rightarrow> nat list" where
  "vpath v = [idx 39 v, idx 30 v, idx 21 v]"

definition translate :: "vmm \<Rightarrow> u64 \<Rightarrow> u64 \<Rightarrow> u64 option" where
  "translate s pml4 virt =
     (case tab s pml4 (vpath virt) of
        None \<Rightarrow> None
      | Some t \<Rightarrow> if bit (tent s t (idx 12 virt)) 0 then Some (tent s t (idx 12 virt)) else None)"

definition paths :: "nat \<Rightarrow> nat list set" where
  "paths n = {p. length p \<le> n \<and> set p \<subseteq> {..<512}}"

definition pt_inv :: "vmm \<Rightarrow> u64 \<Rightarrow> u64 list \<Rightarrow> bool" where
  "pt_inv s root ps \<longleftrightarrow> pmm_rep (pm s) ps \<and> paging_hhdm_offset s = pmm_hhdm_offset (pm s) \<and>
     (\<forall>p\<in>set ps. p AND PHYS_ADDR_MASK = p) \<and>
     (\<forall>p\<in>paths 3. \<forall>t. tab s root p = Some t \<longrightarrow> pgal t \<and> t \<notin> set ps) \<and>
     (\<forall>p\<in>paths 3. \<forall>q\<in>paths 3. \<forall>t. tab s root p = Some t \<longrightarrow> tab s root q = Some t \<longrightarrow> p = q)"

lemma tab_snoc: "tab s t (p @ [i]) = (case tab s t p of None \<Rightarrow> None | Some u \<Rightarrow> tnext s u i)"
  by (induction p arbitrary: t) (auto split: option.splits)

lemma idx_less: "idx sh v < 512"
proof -
  have "unat (drop_bit sh v AND 0x1ff) \<le> unat (0x1ff :: u64)"
    by (rule word_and_le1 [THEN word_le_nat_alt [THEN iffD1]])
  then show ?thesis by (simp add: idx_def)
qed

lemma pml_index_idx: "ucast (pml_index sh v) = (of_nat (idx sh v) :: u64)"
proof -
  have m: "(w :: u64) AND 0x1ff = take_bit 9 w" for w by (simp add: take_bit_eq_mask mask_eq_exp_minus_1)
  have "ucast (ucast (take_bit 9 w :: u64) :: u16) = (take_bit 9 w :: u64)" for w
    by (intro bit_eqI) (auto simp: bit_simps)
  then show ?thesis by (simp add: pml_index_def idx_def m)
qed

lemma bit_mask_phys: "bit PHYS_ADDR_MASK n \<longleftrightarrow> 12 \<le> n \<and> n < 52"
proof -
  have eq: "PHYS_ADDR_MASK = push_bit 12 (mask 40)"
    by (simp add: PHYS_ADDR_MASK_def push_bit_eq_mult mask_eq_exp_minus_1)
  show ?thesis unfolding eq by (auto simp: bit_simps)
qed

lemma mask_flags: "(p OR VM_FLAG_PRESENT OR VM_FLAG_WRITE OR VM_FLAG_USER) AND PHYS_ADDR_MASK = p AND PHYS_ADDR_MASK"
  "bit (p OR VM_FLAG_PRESENT OR VM_FLAG_WRITE OR VM_FLAG_USER) 0"
proof -
  have f: "VM_FLAG_PRESENT OR VM_FLAG_WRITE OR VM_FLAG_USER = mask 3"
    by (simp add: VM_FLAG_PRESENT_def VM_FLAG_WRITE_def VM_FLAG_USER_def mask_eq_exp_minus_1)
  have "(p OR mask 3) AND PHYS_ADDR_MASK = p AND PHYS_ADDR_MASK"
    by (intro bit_eqI) (auto simp: bit_simps bit_mask_phys)
  then show "(p OR VM_FLAG_PRESENT OR VM_FLAG_WRITE OR VM_FLAG_USER) AND PHYS_ADDR_MASK = p AND PHYS_ADDR_MASK"
    by (simp only: f or.assoc)
  show "bit (p OR VM_FLAG_PRESENT OR VM_FLAG_WRITE OR VM_FLAG_USER) 0"
    by (simp only: f or.assoc) (simp add: bit_simps)
qed

lemma present_bit: "is_entry_present m a \<longleftrightarrow> bit (ld64 m a) 0"
proof -
  have "w AND 1 \<noteq> 0 \<longleftrightarrow> bit w 0" for w :: u64 by (simp add: bit_0 and_one_eq odd_iff_mod_2_eq_one)
  then show ?thesis by (simp add: is_entry_present_def VM_FLAG_PRESENT_def)
qed

text \<open>Adding one table to the tree of tables.\<close>

lemma tab_add:
  assumes inv: "pt_inv s root ps" and p: "p \<in> paths 2" "i < 512" "tab s root p = Some t"
    and s': "\<And>u j. pgal u \<Longrightarrow> j < 512 \<Longrightarrow> tent s' u j = (if u = t \<and> j = i then e else if u = a then 0 else tent s u j)"
    and a: "a \<noteq> t" "a \<in> set ps" "pgal a"
    and e: "bit e 0" "e AND PHYS_ADDR_MASK = a" and np: "\<not> bit (tent s t i) 0"
    and q: "q \<in> paths 3"
  shows "tab s' root q = (if q = p @ [i] then Some a else tab s root q)"
  using q
proof (induction q rule: rev_induct)
  case (snoc j q)
  have q: "q \<in> paths 3" "j < 512" and p3: "p \<in> paths 3" using snoc.prems p(1) by (auto simp: paths_def)
  have tp: "tab s root (p @ [i]) = None" using p(3) np by (simp add: tab_snoc tnext_def)
  have IH: "tab s' root q = (if q = p @ [i] then Some a else tab s root q)" by (rule snoc.IH [OF q(1)])
  consider "q = p @ [i]" | "q \<noteq> p @ [i]" "tab s root q = None" | u where "q \<noteq> p @ [i]" "tab s root q = Some u"
    by (cases "tab s root q") auto
  then show ?case
  proof cases
    case 1
    have "tab s' root (q @ [j]) = None" using 1 IH s' [OF a(3) q(2)] a(1) unfolding tab_snoc by (simp add: tnext_def)
    moreover have "tab s root (q @ [j]) = None" unfolding tab_snoc using tp 1 by (simp add: tab_snoc)
    moreover have "q @ [j] \<noteq> p @ [i]" using 1 by auto
    ultimately show ?thesis by simp
  next
    case 2
    then show ?thesis using IH p(3) by (auto simp: tab_snoc)
  next
    case 3
    then have u: "pgal u" "u \<noteq> a" using inv q(1) a(2) by (auto simp: pt_inv_def)
    have "u = t \<longleftrightarrow> q = p" using inv 3 p(3) q(1) p3 by (auto simp: pt_inv_def)
    then show ?thesis using IH 3 s' [OF u(1) q(2)] u(2) e by (auto simp: tab_snoc tnext_def)
  qed
qed simp


lemma tent_store:
  assumes "pgal t" "pgal u" "pgal (paging_hhdm_offset s)" "i < 512" "j < 512"
  shows "tent (write_entry (t + paging_hhdm_offset s + 8 * of_nat i) v s) u j = (if u = t \<and> j = i then v else tent s u j)"
  using assms pent_st64 [of "t + paging_hhdm_offset s" "u + paging_hhdm_offset s" i j "pmem (pm s)" v]
  by (auto simp: tent_def write_entry_def pgal_add)

lemma pmm_rep_store:
  assumes rep: "pmm_rep s ps" and t: "pgal t" "t \<notin> set ps" "i < 512"
  shows "pmm_rep (s\<lparr>pmem := st64 (pmem s) (t + pmm_hhdm_offset s + 8 * of_nat i) v\<rparr>) ps"
proof -
  let ?h = "pmm_hhdm_offset s" and ?m = "st64 (pmem s) (t + pmm_hhdm_offset s + 8 * of_nat i) v"
  note rp = rep [unfolded pmm_rep_def]
  have "fchain ?m ?h p ps = fchain (pmem s) ?h p ps" for p
  proof (rule fchain_cong)
    fix q :: u64 and j :: nat
    assume "q \<in> set ps" "j < 2"
    then show "pent ?m (q + ?h) j = pent (pmem s) (q + ?h) j"
      using rp t pent_st64 [of "t + ?h" "q + ?h" i j] by (auto simp: pgal_add)
  qed
  then show ?thesis using rp by (simp add: pmm_rep_def)
qed

lemma get_next_pml_spec:
  assumes inv: "pt_inv s root ps" and p: "p \<in> paths 2" "tab s root p = Some t" and i: "ucast ix = (of_nat i :: u64)" "i < 512"
    and ps: "ps \<noteq> []"
  obtains u s' ps' where "get_next_pml t ix s = (u, s')" "pt_inv s' root ps'" "tab s' root (p @ [i]) = Some u"
    "\<And>v. translate s' root v = translate s root v" "\<exists>k\<le>1. ps' = drop k ps"
    "cr3 s' = cr3 s" "paging_hhdm_offset s' = paging_hhdm_offset s" "kernel_pml4 s' = kernel_pml4 s" "invlpg_log s' = invlpg_log s"
proof -
  let ?h = "paging_hhdm_offset s" and ?en = "t + paging_hhdm_offset s + 8 * of_nat i"
  note iv = inv [unfolded pt_inv_def]
  have p3: "p \<in> paths 3" and pi: "p @ [i] \<in> paths 3" using p(1) i by (auto simp: paths_def)
  have t: "pgal t" "t \<notin> set ps" using iv p3 p(2) by auto
  have h: "pgal ?h" "?h = pmm_hhdm_offset (pm s)" using iv by (auto simp: pmm_rep_def)
  have en: "ld64 (pmem (pm s)) ?en = tent s t i" by (simp add: tent_def pent_def)
  show thesis
  proof (cases "bit (tent s t i) 0")
    case True
    then have "get_next_pml t ix s = (tent s t i AND PHYS_ADDR_MASK, s)"
      by (simp add: get_next_pml_def Let_def present_bit i en)
    moreover have "tab s root (p @ [i]) = Some (tent s t i AND PHYS_ADDR_MASK)" using p(2) True by (simp add: tab_snoc tnext_def)
    ultimately show ?thesis by (rule that [OF _ inv]) (auto intro: exI [of _ 0])
  next
    case False
    obtain a qs where as: "ps = a # qs" using ps by (cases ps) auto
    obtain pm1 where al: "pmm_alloc (pm s) = (a, pm1)" "pmm_rep pm1 qs" "pmm_hhdm_offset pm1 = ?h"
        "\<And>q j. pgal q \<Longrightarrow> j < 512 \<Longrightarrow> pent (pmem pm1) q j = (if q = a + ?h then 0 else pent (pmem (pm s)) q j)"
      using pmm_alloc_some [of "pm s" a qs] iv as h(2) by auto
    define e where "e = a OR VM_FLAG_PRESENT OR VM_FLAG_WRITE OR VM_FLAG_USER"
    define s1 where "s1 = s\<lparr>pm := pm1\<rparr>"
    define s' where "s' = write_entry ?en e s1"
    have a: "pgal a" "a \<noteq> t" "a \<in> set ps" "a AND PHYS_ADDR_MASK = a" using iv as t by (auto simp: pmm_rep_def)
    have e: "bit e 0" "e AND PHYS_ADDR_MASK = a" using mask_flags [of a] a(4) by (simp_all add: e_def)
    have te: "tent s' u j = (if u = t \<and> j = i then e else if u = a then 0 else tent s u j)" if "pgal u" "j < 512" for u j
    proof -
      have "tent s' u j = (if u = t \<and> j = i then e else tent s1 u j)"
        using tent_store [OF t(1) that(1), of s1 i j e] h(1) i(2) that(2) by (simp add: s'_def s1_def)
      moreover have "tent s1 u j = (if u = a then 0 else tent s u j)"
        using al(4) [of "u + ?h" j] that h(1) by (simp add: tent_def s1_def pgal_add)
      ultimately show ?thesis by (simp only:)
    qed
    have tb: "tab s' root q = (if q = p @ [i] then Some a else tab s root q)" if "q \<in> paths 3" for q
      by (rule tab_add [OF inv p(1) i(2) p(2) _ a(2,3,1) e False that]) (rule te)
    have tr: "translate s' root v = translate s root v" for v
    proof -
      have vp: "vpath v \<in> paths 3" using idx_less by (simp add: paths_def vpath_def)
      show ?thesis
      proof (cases "tab s root (vpath v)")
        case None
        then show ?thesis using tb [OF vp] te [OF a(1) idx_less, of 12 v] a(2) p by (auto simp: translate_def)
      next
        case (Some u)
        then have u: "pgal u" "u \<noteq> a" using iv vp a(3) by auto
        have "u = t \<Longrightarrow> vpath v = p" using iv vp p3 Some p(2) by blast
        then have "u \<noteq> t" using p(1) by (auto simp: vpath_def paths_def)
        moreover have "vpath v \<noteq> p @ [i]" using Some p(2) False by (auto simp: tab_snoc tnext_def)
        ultimately show ?thesis using tb [OF vp] te [OF u(1) idx_less, of 12 v] u(2) Some by (simp add: translate_def)
      qed
    qed
    have "pmm_rep (pm s') qs"
      using pmm_rep_store [OF al(2), of t i e] t as i(2) al(3) by (simp add: s'_def s1_def write_entry_def)
    moreover have "pgal u \<and> u \<notin> set qs" if "q \<in> paths 3" "tab s' root q = Some u" for q u
      using that tb [OF that(1)] iv as a(1) by (auto simp: pmm_rep_def split: if_splits)
    moreover have "q = r" if "q \<in> paths 3" "r \<in> paths 3" "tab s' root q = Some u" "tab s' root r = Some u" for q r u
      using that tb [OF that(1)] tb [OF that(2)] iv a(3) by (metis option.inject)
    ultimately have "pt_inv s' root qs"
      using iv as al(3) h(2) by (auto simp: pt_inv_def s'_def s1_def write_entry_def)
    moreover have "get_next_pml t ix s = (a, s')"
      using False e(2) al(1) by (simp add: get_next_pml_def Let_def present_bit i en s'_def s1_def write_entry_def e_def)
    moreover have "tab s' root (p @ [i]) = Some a" using tb [OF pi] by simp
    moreover have "\<exists>k\<le>1. qs = drop k ps" using as by (intro exI [of _ 1]) simp
    ultimately show ?thesis using that [of a s' qs] tr by (simp add: s'_def s1_def write_entry_def)
  qed
qed

lemma drop_three:
  assumes "\<exists>k\<le>1. b = drop k a" "\<exists>k\<le>1. c = drop k b" "\<exists>k\<le>1. d = drop k c"
  shows "\<exists>k\<le>3. d = drop k a"
proof -
  obtain i j k where "b = drop i a" "c = drop j b" "d = drop k c" "i \<le> 1" "j \<le> 1" "k \<le> 1" using assms by blast
  then have "d = drop (k + (j + i)) a" "k + (j + i) \<le> 3" by simp_all
  then show ?thesis by blast
qed

lemma get_pml1_entry_spec:
  assumes inv: "pt_inv s root ps" and ps: "3 \<le> length ps"
  obtains t s' ps' where "get_pml1_entry root virt s = (t + paging_hhdm_offset s + 8 * of_nat (idx 12 virt), s')"
    "pt_inv s' root ps'" "tab s' root (vpath virt) = Some t" "\<And>v. translate s' root v = translate s root v"
    "\<exists>k\<le>3. ps' = drop k ps" "cr3 s' = cr3 s" "paging_hhdm_offset s' = paging_hhdm_offset s"
    "kernel_pml4 s' = kernel_pml4 s" "invlpg_log s' = invlpg_log s"
proof -
  have 0: "[] \<in> paths 2" "tab s root [] = Some root" by (simp_all add: paths_def)
  note ix = pml_index_idx idx_less
  obtain u3 s3 q3 where 3: "get_next_pml root (pml_index 39 virt) s = (u3, s3)" "pt_inv s3 root q3"
      "tab s3 root ([] @ [idx 39 virt]) = Some u3" "\<And>v. translate s3 root v = translate s root v" "\<exists>k\<le>1. q3 = drop k ps"
      "cr3 s3 = cr3 s" "paging_hhdm_offset s3 = paging_hhdm_offset s" "kernel_pml4 s3 = kernel_pml4 s" "invlpg_log s3 = invlpg_log s"
    by (rule get_next_pml_spec [OF inv 0 ix, of 39 virt]) (use ps in auto)
  have p1: "[idx 39 virt] \<in> paths 2" using idx_less by (simp add: paths_def)
  obtain u2 s2 q2 where 2: "get_next_pml u3 (pml_index 30 virt) s3 = (u2, s2)" "pt_inv s2 root q2"
      "tab s2 root ([idx 39 virt] @ [idx 30 virt]) = Some u2" "\<And>v. translate s2 root v = translate s3 root v" "\<exists>k\<le>1. q2 = drop k q3"
      "cr3 s2 = cr3 s3" "paging_hhdm_offset s2 = paging_hhdm_offset s3" "kernel_pml4 s2 = kernel_pml4 s3" "invlpg_log s2 = invlpg_log s3"
    by (rule get_next_pml_spec [OF 3(2) p1 _ ix, of u3 30 virt]) (use ps 3(3,5) in auto)
  have p2: "[idx 39 virt, idx 30 virt] \<in> paths 2" using idx_less by (simp add: paths_def)
  obtain u1 s1 q1 where 1: "get_next_pml u2 (pml_index 21 virt) s2 = (u1, s1)" "pt_inv s1 root q1"
      "tab s1 root ([idx 39 virt, idx 30 virt] @ [idx 21 virt]) = Some u1" "\<And>v. translate s1 root v = translate s2 root v" "\<exists>k\<le>1. q1 = drop k q2"
      "cr3 s1 = cr3 s2" "paging_hhdm_offset s1 = paging_hhdm_offset s2" "kernel_pml4 s1 = kernel_pml4 s2" "invlpg_log s1 = invlpg_log s2"
    by (rule get_next_pml_spec [OF 2(2) p2 _ ix, of u2 21 virt]) (use ps 3(5) 2(3,5) in auto)
  have "get_pml1_entry root virt s = (u1 + paging_hhdm_offset s + 8 * of_nat (idx 12 virt), s1)"
    using 1(1,7) 2(1,7) 3(1,7) by (simp add: get_pml1_entry_def pml_index_idx)
  moreover have "\<exists>k\<le>3. q1 = drop k ps" by (rule drop_three [OF 3(5) 2(5) 1(5)])
  ultimately show thesis using that [of u1 s1 q1] 1 2 3 by (simp add: vpath_def)
qed

text \<open>Writing a leaf entry changes the translation of one page only.\<close>

lemma vpath_paths: "vpath v \<in> paths 3"
  using idx_less by (simp add: vpath_def paths_def)

lemma leaf_tab:
  assumes inv: "pt_inv s root ps" and t: "tab s root (vpath virt) = Some t" and i: "i < 512" and q: "q \<in> paths 3"
  shows "tab (write_entry (t + paging_hhdm_offset s + 8 * of_nat i) e s) root q = tab s root q"
  using q
proof (induction q rule: rev_induct)
  case (snoc j q)
  note iv = inv [unfolded pt_inv_def]
  have q: "q \<in> paths 3" "j < 512" "length q < 3" using snoc.prems by (auto simp: paths_def)
  have "tnext (write_entry (t + paging_hhdm_offset s + 8 * of_nat i) e s) u j = tnext s u j" if "tab s root q = Some u" for u
  proof -
    have "u = t \<Longrightarrow> q = vpath virt" using iv vpath_paths q(1) that t by blast
    then have "u \<noteq> t" using q(3) by (auto simp: vpath_def)
    moreover have "pgal u" "pgal t" using iv q(1) that vpath_paths t by blast+
    moreover have "pgal (paging_hhdm_offset s)" using iv by (simp add: pmm_rep_def)
    ultimately show ?thesis using tent_store [of t u s i j e] i q(2) by (simp add: tnext_def)
  qed
  then show ?case using snoc.IH [OF q(1)] by (simp add: tab_snoc split: option.splits)
qed simp

definition vpage :: "u64 \<Rightarrow> nat list" where
  "vpage v = [idx 39 v, idx 30 v, idx 21 v, idx 12 v]"

lemma leaf_store:
  assumes inv: "pt_inv s root ps" and t: "tab s root (vpath virt) = Some t"
    and s': "s' = write_entry (t + paging_hhdm_offset s + 8 * of_nat (idx 12 virt)) e s"
  shows "pt_inv s' root ps"
    and "translate s' root v = (if vpage v = vpage virt then if bit e 0 then Some e else None else translate s root v)"
proof -
  note iv = inv [unfolded pt_inv_def]
  have tb: "tab s' root q = tab s root q" if "q \<in> paths 3" for q
    using leaf_tab [OF inv t idx_less that] s' by simp
  have tp: "pgal t" "t \<notin> set ps" using iv t vpath_paths by blast+
  have ph: "pgal (paging_hhdm_offset s)" using iv by (simp add: pmm_rep_def)
  show "pt_inv s' root ps"
    using iv tb pmm_rep_store [of "pm s" ps t "idx 12 virt" e] tp idx_less
    by (auto simp: pt_inv_def s' write_entry_def)
  show "translate s' root v = (if vpage v = vpage virt then if bit e 0 then Some e else None else translate s root v)"
  proof (cases "tab s root (vpath v)")
    case None
    then have "vpath v \<noteq> vpath virt" using t by auto
    then have "vpage v \<noteq> vpage virt" by (auto simp: vpage_def vpath_def)
    then show ?thesis using tb [OF vpath_paths] None by (simp add: translate_def)
  next
    case (Some u)
    have "pgal u" using iv Some vpath_paths by blast
    then have te: "tent s' u (idx 12 v) = (if u = t \<and> idx 12 v = idx 12 virt then e else tent s u (idx 12 v))"
      unfolding s' by (rule tent_store [OF tp(1) _ ph idx_less idx_less])
    have "u = t \<longleftrightarrow> vpath v = vpath virt" using iv Some t vpath_paths by (metis option.inject)
    moreover have "vpage v = vpage virt \<longleftrightarrow> vpath v = vpath virt \<and> idx 12 v = idx 12 virt" by (auto simp: vpage_def vpath_def)
    ultimately have "tent s' u (idx 12 v) = (if vpage v = vpage virt then e else tent s u (idx 12 v))" using te by simp
    then show ?thesis using Some tb [OF vpath_paths] by (cases "vpage v = vpage virt") (simp_all add: translate_def)
  qed
qed

lemma all_offset: "(\<forall>k<m. P (a + k)) \<longleftrightarrow> (\<forall>j\<in>{a..<a + m}. P j)" for a m :: nat
  by (metis atLeastLessThan_iff le_add1 le_Suc_ex nat_add_left_cancel_less)

lemma field_eq: "take_bit m (drop_bit n v) = take_bit m (drop_bit n w) \<longleftrightarrow> (\<forall>j\<in>{n..<n + m}. bit v j = bit w j)" for v w :: u64
proof -
  have b: "bit (take_bit m (drop_bit n x)) k \<longleftrightarrow> k < m \<and> bit x (n + k)" for x :: u64 and k
    by (simp add: bit_simps)
  have "take_bit m (drop_bit n v) = take_bit m (drop_bit n w) \<longleftrightarrow> (\<forall>k<m. bit v (n + k) = bit w (n + k))" (is "?l \<longleftrightarrow> ?r")
  proof
    show "?l \<Longrightarrow> ?r" using b by metis
    show "?r \<Longrightarrow> ?l" by (rule bit_eqI) (simp only: b, blast)
  qed
  also have "\<dots> \<longleftrightarrow> (\<forall>j\<in>{n..<n + m}. bit v j = bit w j)" by (rule all_offset)
  finally show ?thesis .
qed

lemma idx_eq: "idx n v = idx n w \<longleftrightarrow> (\<forall>j\<in>{n..<n + 9}. bit v j = bit w j)"
proof -
  have m: "(x :: u64) AND 0x1ff = take_bit 9 x" for x by (simp add: take_bit_eq_mask mask_eq_exp_minus_1)
  show ?thesis unfolding idx_def m word_unat_eq_iff [symmetric] by (rule field_eq)
qed

lemma vpage_eq: "vpage v = vpage w \<longleftrightarrow> take_bit 36 (drop_bit 12 v) = take_bit 36 (drop_bit 12 w)"
proof -
  have "{12..<12 + 36} = {39..<39 + 9} \<union> {30..<30 + 9} \<union> {21..<21 + 9} \<union> {12..<12 + (9::nat)}" by auto
  then show ?thesis by (simp only: vpage_def idx_eq field_eq list.inject ball_Un) blast
qed

section \<open>Mapping and unmapping a page\<close>

lemma map_page_spec:
  assumes inv: "pt_inv s root ps" and ps: "3 \<le> length ps"
    and s': "s' = (let (entry, s1) = get_pml1_entry root virt s in invlpg_if_needed root virt (write_entry entry e s1))"
  obtains ps' where "pt_inv s' root ps'" "\<exists>k\<le>3. ps' = drop k ps"
    "\<And>v. translate s' root v = (if vpage v = vpage virt then if bit e 0 then Some e else None else translate s root v)"
    "invlpg_log s' = (if root = cr3 s then [virt] else []) @ invlpg_log s" "cr3 s' = cr3 s"
    "kernel_pml4 s' = kernel_pml4 s" "paging_hhdm_offset s' = paging_hhdm_offset s"
proof -
  obtain t s1 ps' where g: "get_pml1_entry root virt s = (t + paging_hhdm_offset s + 8 * of_nat (idx 12 virt), s1)"
      "pt_inv s1 root ps'" "tab s1 root (vpath virt) = Some t" "\<And>v. translate s1 root v = translate s root v"
      "\<exists>k\<le>3. ps' = drop k ps" "cr3 s1 = cr3 s" "paging_hhdm_offset s1 = paging_hhdm_offset s"
      "kernel_pml4 s1 = kernel_pml4 s" "invlpg_log s1 = invlpg_log s"
    using get_pml1_entry_spec [OF inv ps, of virt] by blast
  define s2 where "s2 = write_entry (t + paging_hhdm_offset s1 + 8 * of_nat (idx 12 virt)) e s1"
  note l = leaf_store [OF g(2,3) s2_def]
  have s'2: "s' = invlpg_if_needed root virt s2" using s' g(1,7) by (simp add: s2_def)
  have tn: "tnext s' = tnext s2" and te: "tent s' = tent s2"
    by (auto simp: fun_eq_iff tnext_def tent_def s'2 invlpg_if_needed_def)
  have tb: "tab s' u q = tab s2 u q" for u q by (induction q arbitrary: u) (auto simp: tn split: option.splits)
  have tr: "translate s' root v = translate s2 root v" for v by (simp only: translate_def tb te)
  have "pt_inv s' root ps'" using l(1) tb by (simp add: pt_inv_def) (simp add: s'2 invlpg_if_needed_def)
  then show thesis
    by (rule that) (use l(2) g(4-9) tr in \<open>auto simp: s'2 s2_def invlpg_if_needed_def write_entry_def\<close>)
qed

text \<open>A freshly zeroed page is an empty table tree.\<close>

lemma tab_empty:
  assumes "\<And>j. j < 512 \<Longrightarrow> tent s root j = 0" "q \<in> paths 3" "tab s root q = Some t"
  shows "q = [] \<and> t = root"
  using assms by (cases q) (auto simp: tnext_def paths_def)

lemma pt_inv_fresh:
  assumes "pmm_rep (pm s) (a # ps)" "paging_hhdm_offset s = pmm_hhdm_offset (pm s)"
    "\<forall>p\<in>set ps. p AND PHYS_ADDR_MASK = p"
  shows "\<exists>pm1. pmm_alloc (pm s) = (a, pm1) \<and> pt_inv (s\<lparr>pm := pm1\<rparr>) a ps \<and> (\<forall>v. translate (s\<lparr>pm := pm1\<rparr>) a v = None)"
proof -
  let ?h = "pmm_hhdm_offset (pm s)"
  obtain pm1 where al: "pmm_alloc (pm s) = (a, pm1)" "pmm_rep pm1 ps" "pmm_hhdm_offset pm1 = ?h"
      "\<And>q j. pgal q \<Longrightarrow> j < 512 \<Longrightarrow> pent (pmem pm1) q j = (if q = a + ?h then 0 else pent (pmem (pm s)) q j)"
    using pmm_alloc_some [OF assms(1)] by auto
  have a: "pgal a" "pgal ?h" "a \<notin> set ps" using assms(1) by (auto simp: pmm_rep_def)
  let ?s = "s\<lparr>pm := pm1\<rparr>"
  have z: "tent ?s a j = 0" if "j < 512" for j using al(4) [of "a + ?h" j] a that assms(2) by (simp add: tent_def pgal_add)
  have te: "q = [] \<and> t = a" if "q \<in> paths 3" "tab ?s a q = Some t" for q t
    by (rule tab_empty [OF _ that]) (rule z)
  have "p = q" if "p \<in> paths 3" "q \<in> paths 3" "tab ?s a p = Some t" "tab ?s a q = Some t" for p q t
    using te that by blast
  moreover have "pgal t \<and> t \<notin> set ps" if "q \<in> paths 3" "tab ?s a q = Some t" for q t
    using te [OF that] a by simp
  ultimately have "pt_inv ?s a ps"
    using al(2,3) assms(2,3) by (simp add: pt_inv_def)
  moreover have "translate ?s a v = None" for v
  proof (cases "tab ?s a (vpath v)")
    case (Some t)
    then show ?thesis using te [OF vpath_paths Some] by (simp add: vpath_def)
  qed (simp add: translate_def)
  ultimately show ?thesis using al(1) by simp
qed

section \<open>Correctness\<close>

text \<open>C9. \<open>paging_map_page\<close>, with at least three free page frames for missing tables, keeps the page-table
  tree well formed, gives the page of \<open>virt\<close> the entry \<open>phys | PRESENT | flags\<close>, leaves the translation of
  every other page alone, and invalidates the TLB exactly when the tables are the loaded ones.\<close>

theorem paging_map_page_translates:
  assumes "pt_inv s pml4 ps" "3 \<le> length ps" "s' = paging_map_page pml4 virt phys flags s"
  shows "(\<exists>k\<le>3. pt_inv s' pml4 (drop k ps)) \<and>
    (\<forall>v. translate s' pml4 v =
       (if take_bit 36 (drop_bit 12 v) = take_bit 36 (drop_bit 12 virt)
        then Some (phys OR VM_FLAG_PRESENT OR ucast flags) else translate s pml4 v)) \<and>
    invlpg_log s' = (if pml4 = cr3 s then [virt] else []) @ invlpg_log s"
proof -
  let ?e = "phys OR VM_FLAG_PRESENT OR ucast flags"
  have "bit ?e 0" by (simp add: VM_FLAG_PRESENT_def bit_simps)
  moreover obtain ps' where "pt_inv s' pml4 ps'" "\<exists>k\<le>3. ps' = drop k ps"
    "\<And>v. translate s' pml4 v = (if vpage v = vpage virt then if bit ?e 0 then Some ?e else None else translate s pml4 v)"
    "invlpg_log s' = (if pml4 = cr3 s then [virt] else []) @ invlpg_log s"
    by (rule map_page_spec [OF assms(1,2) assms(3) [unfolded paging_map_page_def]]) blast
  ultimately show ?thesis unfolding vpage_eq by auto
qed


text \<open>A concrete tree: the root table taken from a pool of nine free frames.\<close>

definition pool_map :: "PhysMemoryRegion list" where
  "pool_map =
     [\<lparr>rg_base = 0, rg_length = 0x1000, rg_type = PhysMemType_Usable\<rparr>,
      \<lparr>rg_base = 0x8000, rg_length = 0x9000, rg_type = PhysMemType_Usable\<rparr>]"

definition pool_vmm :: "pmm \<Rightarrow> vmm" where
  "pool_vmm p = \<lparr>pm = p, paging_hhdm_offset = 0xffff800000000000, vmm_hhdm_offset = 0xffff800000000000,
     kernel_pml4 = 0, cr3 = 0, invlpg_log = []\<rparr>"

lemma pool_pages: "usable_pages (drop 1 pool_map) = [0x8000, 0x9000, 0xa000, 0xb000, 0xc000, 0xd000, 0xe000, 0xf000, 0x10000]"
  by (simp add: pool_map_def usable_pages_def region_pages_def upt_rec)

lemma pool_regions_ok: "regions_ok 0xffff800000000000 (drop 1 pool_map)"
proof -
  have "\<forall>r\<in>set (drop 1 pool_map). rg_type r = PhysMemType_Usable \<longrightarrow>
        pgal (rg_base r) \<and> pgal (rg_length r) \<and> unat (rg_base r) + unat (rg_length r) < 2 ^ 64"
    by (simp add: pool_map_def pgal_def)
  then show ?thesis unfolding regions_ok_def pool_pages by simp
qed

lemma pool_free:
  obtains p where "pmm_rep p (0x10000 # [0xf000, 0xe000, 0xd000, 0xc000, 0xb000, 0xa000, 0x9000, 0x8000])"
    "pmm_hhdm_offset p = 0xffff800000000000"
proof -
  let ?p0 = "sample_pmm\<lparr>pmm_hhdm_offset := 0xffff800000000000\<rparr>"
  have "pmm_rep ?p0 []" by (simp add: pmm_rep_def sample_pmm_def pgal_def)
  then show thesis
    using that pmm_init_loop_rep [of ?p0 "drop 1 pool_map" "[]" 0 0] pool_regions_ok unfolding pool_pages
    by (auto simp: sample_pmm_def)
qed

lemma pool_tree:
  obtains p where "pt_inv (pool_vmm p) 0x10000 [0xf000, 0xe000, 0xd000, 0xc000, 0xb000, 0xa000, 0x9000, 0x8000]"
    "\<And>v. translate (pool_vmm p) 0x10000 v = None"
proof -
  let ?h = "0xffff800000000000 :: u64" and ?qs = "[0xf000, 0xe000, 0xd000, 0xc000, 0xb000, 0xa000, 0x9000, 0x8000] :: u64 list"
  obtain p where p: "pmm_rep p (0x10000 # ?qs)" "pmm_hhdm_offset p = ?h" by (rule pool_free) blast
  have m: "\<forall>a\<in>set ?qs. a AND PHYS_ADDR_MASK = a" by (simp add: PHYS_ADDR_MASK_def)
  obtain pm1 where "pt_inv ((pool_vmm p)\<lparr>pm := pm1\<rparr>) 0x10000 ?qs" "\<And>v. translate ((pool_vmm p)\<lparr>pm := pm1\<rparr>) 0x10000 v = None"
    using pt_inv_fresh [of "pool_vmm p" "0x10000" ?qs] p m by (auto simp: pool_vmm_def)
  then show thesis using that [of pm1] by (simp add: pool_vmm_def)
qed

theorem paging_map_page_translates_witness:
  "\<exists>p. let s = paging_map_page 0x10000 0xffffffff80001000 0x5000 2 (pool_vmm p)
       in translate s 0x10000 0xffffffff80001abc = Some 0x5003 \<and> translate s 0x10000 0xffffffff80002000 = None \<and> invlpg_log s = []"
proof -
  obtain p where p: "pt_inv (pool_vmm p) 0x10000 [0xf000, 0xe000, 0xd000, 0xc000, 0xb000, 0xa000, 0x9000, 0x8000]"
    "\<And>v. translate (pool_vmm p) 0x10000 v = None" by (rule pool_tree) blast
  show ?thesis
    using paging_map_page_translates [OF p(1) _ refl, of "0xffffffff80001000" "0x5000" 2] p(2)
    by (intro exI [of _ p]) (simp add: pool_vmm_def Let_def VM_FLAG_PRESENT_def drop_bit_eq_div take_bit_eq_mod)
qed


end
