(* ===== verification/Kmalloc.thy ===== *)
theory Kmalloc
  imports Common
begin

text \<open>
  \<open>kernel/memory/kmalloc.c\<close>: the kernel heap allocator on the byte memory. Chunk headers,
  free-list links and footers are loads and stores at the addresses the C code computes; the
  state is the memory and the static \<open>freelist_head\<close>.
\<close>

record kheap =
  kmem :: mem
  freelist_head :: u64

definition HEAP_START :: u64 where "HEAP_START = 0xffff810000000000"
definition HEAP_SIZE :: u64 where "HEAP_SIZE = 0x200000"
definition HEAP_END :: u64 where "HEAP_END = HEAP_START + HEAP_SIZE"
definition HEAP_ALIGNMENT :: u64 where "HEAP_ALIGNMENT = 8"
definition CHUNK_SIZE_MASK :: u64 where "CHUNK_SIZE_MASK = NOT (HEAP_ALIGNMENT - 1)"
definition FLAG_IS_FREE :: u64 where "FLAG_IS_FREE = 0x1"
definition FLAG_IS_PREV_FREE :: u64 where "FLAG_IS_PREV_FREE = 0x2"

definition sizeof_free_node_t :: u64 where "sizeof_free_node_t = 24"
definition sizeof_free_footer_t :: u64 where "sizeof_free_footer_t = 8"
definition sizeof_alloc_hdr_t :: u64 where "sizeof_alloc_hdr_t = 8"

definition node_prev :: "mem \<Rightarrow> u64 \<Rightarrow> u64" where "node_prev m p = ld64 m (p + 8)"
definition node_next :: "mem \<Rightarrow> u64 \<Rightarrow> u64" where "node_next m p = ld64 m (p + 16)"
definition set_node_prev :: "mem \<Rightarrow> u64 \<Rightarrow> u64 \<Rightarrow> mem" where "set_node_prev m p v = st64 m (p + 8) v"
definition set_node_next :: "mem \<Rightarrow> u64 \<Rightarrow> u64 \<Rightarrow> mem" where "set_node_next m p v = st64 m (p + 16) v"

definition align_sz :: "u64 \<Rightarrow> u64" where
  "align_sz sz = ALIGN_UP sz HEAP_ALIGNMENT"

definition get_sz :: "mem \<Rightarrow> u64 \<Rightarrow> u64" where
  "get_sz m chunk = ld64 m chunk AND CHUNK_SIZE_MASK"

definition set_sz :: "mem \<Rightarrow> u64 \<Rightarrow> u64 \<Rightarrow> mem" where
  "set_sz m chunk sz =
     (let m1 = st64 m chunk (ld64 m chunk AND NOT CHUNK_SIZE_MASK)
      in st64 m1 chunk (ld64 m1 chunk OR (sz AND CHUNK_SIZE_MASK)))"

definition get_flag :: "mem \<Rightarrow> u64 \<Rightarrow> u8 \<Rightarrow> bool" where
  "get_flag m chunk flag \<longleftrightarrow> ld64 m chunk AND ucast flag \<noteq> 0"

definition set_flag :: "mem \<Rightarrow> u64 \<Rightarrow> u8 \<Rightarrow> mem" where
  "set_flag m chunk flag = st64 m chunk (ld64 m chunk OR ucast flag)"

definition unset_flag :: "mem \<Rightarrow> u64 \<Rightarrow> u8 \<Rightarrow> mem" where
  "unset_flag m chunk flag = st64 m chunk (ld64 m chunk AND NOT (ucast flag))"

definition is_in_heap_bounds :: "u64 \<Rightarrow> bool" where
  "is_in_heap_bounds addr \<longleftrightarrow> addr \<ge> HEAP_START \<and> addr < HEAP_END"

definition freelist_add_node :: "kheap \<Rightarrow> u64 \<Rightarrow> kheap" where
  "freelist_add_node h node_to_add =
     (if freelist_head h = 0 then
        h\<lparr>freelist_head := node_to_add,
          kmem := set_node_next (set_node_prev (kmem h) node_to_add 0) node_to_add 0\<rparr>
      else
        let m1 = set_node_prev (kmem h) node_to_add 0;
            m2 = set_node_next m1 node_to_add (freelist_head h);
            m3 = set_node_prev m2 (freelist_head h) node_to_add
        in h\<lparr>kmem := m3, freelist_head := node_to_add\<rparr>)"

definition freelist_remove_node :: "kheap \<Rightarrow> u64 \<Rightarrow> halt + kheap" where
  "freelist_remove_node h node_to_remove =
     kbind (kassert (node_to_remove \<noteq> 0) ''???'') (\<lambda>_.
       let m = kmem h;
           m1 = (if node_prev m node_to_remove \<noteq> 0
                 then set_node_next m (node_prev m node_to_remove) (node_next m node_to_remove)
                 else m);
           m2 = (if node_next m1 node_to_remove \<noteq> 0
                 then set_node_prev m1 (node_next m1 node_to_remove) (node_prev m1 node_to_remove)
                 else m1)
       in Inr (h\<lparr>kmem := m2,
                 freelist_head := (if node_to_remove = freelist_head h
                                   then node_next m2 (freelist_head h) else freelist_head h)\<rparr>))"

definition FREE_CHUNK_MIN_SZ :: u64 where
  "FREE_CHUNK_MIN_SZ = align_sz (sizeof_free_node_t + sizeof_free_footer_t)"

definition alloc_size :: "u64 \<Rightarrow> u64" where
  "alloc_size sz =
     (let alloc_sz = align_sz (sz + sizeof_alloc_hdr_t)
      in if alloc_sz < FREE_CHUNK_MIN_SZ then FREE_CHUNK_MIN_SZ else alloc_sz)"

partial_function (option) find_free :: "mem \<Rightarrow> u64 \<Rightarrow> u64 \<Rightarrow> (u64 \<times> u64) option" where
  "find_free m alloc_sz free =
     (if free = 0 then Some (0, 0)
      else let free_sz = get_sz m free in
        if free_sz = alloc_sz \<or> free_sz \<ge> alloc_sz + FREE_CHUNK_MIN_SZ then Some (free, free_sz)
        else find_free m alloc_sz (node_next m free))"

definition kmalloc_take :: "kheap \<Rightarrow> u64 \<Rightarrow> u64 \<Rightarrow> u64 \<Rightarrow> kheap" where
  "kmalloc_take h free free_sz alloc_sz =
     (let h1 =
       (if free_sz = alloc_sz then
          let next_addr = free + free_sz in
          if is_in_heap_bounds next_addr
          then h\<lparr>kmem := unset_flag (kmem h) next_addr (ucast FLAG_IS_PREV_FREE)\<rparr> else h
        else
          let remain = free + alloc_sz;
              m1 = set_sz (kmem h) remain (free_sz - alloc_sz);
              m2 = set_flag m1 remain (ucast FLAG_IS_FREE);
              m3 = unset_flag m2 remain (ucast FLAG_IS_PREV_FREE);
              h3 = freelist_add_node (h\<lparr>kmem := m3\<rparr>) remain;
              remain_end_addr = remain + get_sz (kmem h3) remain;
              remain_footer_addr = remain_end_addr - sizeof_free_footer_t
          in h3\<lparr>kmem := st64 (kmem h3) remain_footer_addr (get_sz (kmem h3) remain)\<rparr>);
       m4 = set_sz (kmem h1) free alloc_sz;
       m5 = unset_flag m4 free (ucast FLAG_IS_FREE)
      in h1\<lparr>kmem := m5\<rparr>)"

definition kmalloc :: "kheap \<Rightarrow> u64 \<Rightarrow> (halt + u64 \<times> kheap) option" where
  "kmalloc h sz =
     (let alloc_sz = alloc_size sz in
      case find_free (kmem h) alloc_sz (freelist_head h) of
        None \<Rightarrow> None
      | Some (free, free_sz) \<Rightarrow> Some (
          if free = 0 then Inl (KPanic ''Kheap out of memory'')
          else kbind (freelist_remove_node h free) (\<lambda>h1.
            Inr (free + sizeof_alloc_hdr_t, kmalloc_take h1 free free_sz alloc_sz))))"

definition place_footer :: "mem \<Rightarrow> u64 \<Rightarrow> u64 \<Rightarrow> mem" where
  "place_footer m chunk sz = st64 m (chunk + sz - sizeof_free_footer_t) sz"

definition mark_next_prev_free :: "mem \<Rightarrow> u64 \<Rightarrow> mem" where
  "mark_next_prev_free m next_addr =
     (if is_in_heap_bounds next_addr then set_flag m next_addr (ucast FLAG_IS_PREV_FREE) else m)"

definition kfree :: "kheap \<Rightarrow> u64 \<Rightarrow> halt + kheap" where
  "kfree h ptr =
     kbind (kassert (is_in_heap_bounds ptr) ''kmalloc: free address out of heap bounds'') (\<lambda>_.
     let m = kmem h;
         to_free = ptr - sizeof_alloc_hdr_t
     in kbind (kassert (\<not> get_flag m to_free (ucast FLAG_IS_FREE)) ''kmalloc: double free'') (\<lambda>_.
     let next_addr = to_free + get_sz m to_free;
         coalesce_with_prev = get_flag m to_free (ucast FLAG_IS_PREV_FREE);
         coalesce_with_next = is_in_heap_bounds next_addr \<and> get_flag m next_addr (ucast FLAG_IS_FREE);
         prev_addr = to_free - ld64 m (to_free - sizeof_free_footer_t)
     in if \<not> coalesce_with_prev \<and> \<not> coalesce_with_next then
          let m1 = place_footer m to_free (get_sz m to_free);
              m2 = set_flag m1 to_free (ucast FLAG_IS_FREE);
              h2 = freelist_add_node (h\<lparr>kmem := m2\<rparr>) to_free
          in Inr (h2\<lparr>kmem := mark_next_prev_free (kmem h2) next_addr\<rparr>)
        else if coalesce_with_prev \<and> \<not> coalesce_with_next then
          let new_sz = get_sz m prev_addr + get_sz m to_free;
              m1 = set_sz m prev_addr new_sz;
              m2 = place_footer m1 prev_addr new_sz
          in Inr (h\<lparr>kmem := mark_next_prev_free m2 next_addr\<rparr>)
        else if \<not> coalesce_with_prev \<and> coalesce_with_next then
          let new_sz = get_sz m to_free + get_sz m next_addr;
              m1 = set_sz m to_free new_sz;
              m2 = place_footer m1 to_free new_sz
          in kbind (freelist_remove_node (h\<lparr>kmem := m2\<rparr>) next_addr) (\<lambda>h3.
             let h4 = h3\<lparr>kmem := set_flag (kmem h3) to_free (ucast FLAG_IS_FREE)\<rparr>
             in Inr (freelist_add_node h4 to_free))
        else
          let new_sz = get_sz m prev_addr + get_sz m to_free + get_sz m next_addr;
              m1 = set_sz m prev_addr new_sz;
              m2 = place_footer m1 prev_addr new_sz
          in freelist_remove_node (h\<lparr>kmem := m2\<rparr>) next_addr))"

definition kmalloc_init_heap :: "kheap \<Rightarrow> kheap" where
  "kmalloc_init_heap h =
     (let head = HEAP_START;
          m1 = set_sz (kmem h) head (align_sz HEAP_SIZE);
          m2 = set_flag m1 head (ucast FLAG_IS_FREE);
          m3 = unset_flag m2 head (ucast FLAG_IS_PREV_FREE)
      in freelist_add_node (h\<lparr>kmem := m3\<rparr>) head)"

end
