(* ===== verification/Kmalloc_Cells.thy ===== *)
theory Kmalloc_Cells
  imports Kmalloc
begin

text \<open>
  The heap area as an array of 8-byte cells: every access of the allocator is to an aligned
  cell, and the bit-level facts about size and flags of a header cell.
\<close>

definition NCELLS :: nat where "NCELLS = 0x40000"

definition A :: "nat \<Rightarrow> u64" where "A i = HEAP_START + 8 * of_nat i"

definition cells :: "mem \<Rightarrow> nat \<Rightarrow> u64" where
  "cells m = (\<lambda>i. if i < NCELLS then ld64 m (A i) else 0)"

lemma unat_A: "i \<le> NCELLS + 8 \<Longrightarrow> unat (A i) = 0xffff810000000000 + 8 * i"
  using unat_plus_of_nat [of HEAP_START "8 * i"] by (simp add: A_def HEAP_START_def NCELLS_def)

lemma A_inj: "i \<le> NCELLS + 8 \<Longrightarrow> j \<le> NCELLS + 8 \<Longrightarrow> A i = A j \<longleftrightarrow> i = j"
  by (auto dest!: arg_cong[where f = unat] simp: unat_A)

lemma al8_A: "i \<le> NCELLS + 8 \<Longrightarrow> al8 (A i)"
proof -
  assume "i \<le> NCELLS + 8"
  then have "unat (A i) = 8 * (0xffff810000000000 div 8 + i)" by (simp add: unat_A)
  then show ?thesis by (simp add: al8_def)
qed

lemma A_neq0 [simp]: "i \<le> NCELLS + 8 \<Longrightarrow> A i \<noteq> 0"
  by (auto dest!: arg_cong[where f = unat] simp: unat_A)

lemma A_add: "A i + 8 * of_nat k = A (i + k)"
  by (simp add: A_def distrib_left add.assoc)

lemma A_fields: "A i + 8 = A (Suc i)" "A i + 16 = A (Suc (Suc i))"
  using A_add[of i 1] A_add[of i 2] by simp_all

lemma A_sub: "k \<le> i \<Longrightarrow> A i - 8 * of_nat k = A (i - k)"
  using A_add [of "i - k" k] by (simp add: diff_eq_eq)

lemma A_bounds: "i \<le> NCELLS \<Longrightarrow> is_in_heap_bounds (A i) \<longleftrightarrow> i < NCELLS"
  unfolding is_in_heap_bounds_def HEAP_END_def HEAP_SIZE_def word_le_nat_alt word_less_nat_alt
  by (simp add: unat_A HEAP_START_def NCELLS_def)

lemma cells_st64: "i < NCELLS \<Longrightarrow> cells (st64 m (A i) v) = (cells m)(i := v)"
proof
  fix j assume i: "i < NCELLS"
  show "cells (st64 m (A i) v) j = ((cells m)(i := v)) j"
  proof (cases "j < NCELLS")
    case True
    then show ?thesis using i by (simp add: cells_def ld64_st64_al8 al8_A A_inj)
  qed (use i in \<open>auto simp: cells_def\<close>)
qed

lemma ld64_A: "i < NCELLS \<Longrightarrow> ld64 m (A i) = cells m i"
  by (simp add: cells_def)

definition msz :: "u64 \<Rightarrow> u64" where "msz w = w AND NOT 7"

definition wsz :: "u64 \<Rightarrow> u64 \<Rightarrow> u64" where "wsz w s = (w AND 7) OR (s AND NOT 7)"

lemma mask_simps: "CHUNK_SIZE_MASK = NOT 7" "NOT CHUNK_SIZE_MASK = 7"
  by (simp_all add: CHUNK_SIZE_MASK_def HEAP_ALIGNMENT_def)

lemma get_sz_A: "i < NCELLS \<Longrightarrow> get_sz m (A i) = msz (cells m i)"
  by (simp add: get_sz_def mask_simps msz_def ld64_A)

lemma cells_set_sz: "i < NCELLS \<Longrightarrow> cells (set_sz m (A i) s) = (cells m)(i := wsz (cells m i) s)"
  by (simp add: set_sz_def Let_def cells_st64 mask_simps wsz_def ld64_A)

lemma flag_simps: "ucast (ucast FLAG_IS_FREE :: u8) = (1 :: u64)"
  "ucast (ucast FLAG_IS_PREV_FREE :: u8) = (2 :: u64)"
  by (simp_all add: FLAG_IS_FREE_def FLAG_IS_PREV_FREE_def)

lemma bit_num64: "bit (7 :: u64) n \<longleftrightarrow> n < 3" "bit (2 :: u64) n \<longleftrightarrow> n = 1"
   "bit (- 8 :: u64) n \<longleftrightarrow> 3 \<le> n \<and> n < 64"  "bit (- 2 :: u64) n \<longleftrightarrow> n \<noteq> 0 \<and> n < 64" "bit (- 3 :: u64) n \<longleftrightarrow> n \<noteq> 1 \<and> n < 64"
proof -
  have 7: "bit (mask 3 :: u64) n \<longleftrightarrow> n < 3" unfolding bit_mask_iff by auto
  then show "bit (7 :: u64) n \<longleftrightarrow> n < 3" by (simp add: mask_eq_exp_minus_1)
  show 2: "bit (2 :: u64) n \<longleftrightarrow> n = 1" using bit_exp_iff [of 1 n, where 'a = u64] by auto
  have "bit (NOT (mask 3) :: u64) n \<longleftrightarrow> 3 \<le> n \<and> n < 64" unfolding bit_not_iff 7 by auto
  then show "bit (- 8 :: u64) n \<longleftrightarrow> 3 \<le> n \<and> n < 64" by (simp add: mask_eq_exp_minus_1)
  have "bit (NOT (mask 1) :: u64) n \<longleftrightarrow> n \<noteq> 0 \<and> n < 64" unfolding bit_not_iff bit_mask_iff by auto
  then show "bit (- 2 :: u64) n \<longleftrightarrow> n \<noteq> 0 \<and> n < 64" by (simp add: mask_eq_exp_minus_1)
  have "bit (NOT 2 :: u64) n \<longleftrightarrow> n \<noteq> 1 \<and> n < 64" unfolding bit_not_iff 2 by auto
  then show "bit (- 3 :: u64) n \<longleftrightarrow> n \<noteq> 1 \<and> n < 64" by simp
qed

lemmas word_bits = bit_and_iff bit_or_iff bit_not_iff bit_num64 bit_1_iff bit_push_bit_iff

declare bit_numeral_word_iff [simp del] bit_neg_numeral_word_iff [simp del]

lemma and_flag: "(w :: u64) AND 1 \<noteq> 0 \<longleftrightarrow> bit w 0" "(w :: u64) AND 2 \<noteq> 0 \<longleftrightarrow> bit w 1"
  by (auto simp: bit_eq_iff [of "w AND _" 0] word_bits)

lemma get_flag_A: "i < NCELLS \<Longrightarrow> get_flag m (A i) (ucast FLAG_IS_FREE) = bit (cells m i) 0"
  "i < NCELLS \<Longrightarrow> get_flag m (A i) (ucast FLAG_IS_PREV_FREE) = bit (cells m i) 1"
  by (simp_all only: get_flag_def flag_simps ld64_A and_flag)

lemma cells_set_flag: "i < NCELLS \<Longrightarrow> cells (set_flag m (A i) f) = (cells m)(i := cells m i OR ucast f)"
  by (simp add: set_flag_def cells_st64 ld64_A)

lemma cells_unset_flag:
  "i < NCELLS \<Longrightarrow> cells (unset_flag m (A i) f) = (cells m)(i := cells m i AND NOT (ucast f))"
  by (simp add: unset_flag_def cells_st64 ld64_A)

lemma node_A: "i + 2 < NCELLS \<Longrightarrow> node_prev m (A i) = cells m (Suc i)"
  "i + 2 < NCELLS \<Longrightarrow> node_next m (A i) = cells m (Suc (Suc i))"
  by (simp_all add: node_prev_def node_next_def A_fields ld64_A)

lemma cells_node: "i + 2 < NCELLS \<Longrightarrow> cells (set_node_prev m (A i) v) = (cells m)(Suc i := v)"
  "i + 2 < NCELLS \<Longrightarrow> cells (set_node_next m (A i) v) = (cells m)(Suc (Suc i) := v)"
  by (simp_all add: set_node_prev_def set_node_next_def A_fields cells_st64)

lemma msz_wsz: "msz (wsz w s) = msz s" "bit (wsz w s) 0 = bit w 0" "bit (wsz w s) 1 = bit w 1"
proof -
  show "msz (wsz w s) = msz s"
    by (rule bit_eqI) (auto simp: msz_def wsz_def word_bits)
qed (auto simp: wsz_def word_bits)

lemma msz_flags: "msz (w OR 1) = msz w" "msz (w OR 2) = msz w"
    "msz (w AND NOT 1) = msz w" "msz (w AND NOT 2) = msz w"
  by (auto intro!: bit_eqI simp: msz_def word_bits)

lemma bits_flags:
  fixes w :: u64
  shows "bit (w OR 1) 0" "bit (w OR 1) 1 = bit w 1" "bit (w OR 2) 0 = bit w 0" "bit (w OR 2) 1"
    "\<not> bit (w AND NOT 1) 0" "bit (w AND NOT 1) 1 = bit w 1"
    "bit (w AND NOT 2) 0 = bit w 0" "\<not> bit (w AND NOT 2) 1"
  by (auto simp: word_bits)

lemma msz_units [simp]: "msz (8 * of_nat n) = 8 * of_nat n"
proof -
  have "8 * of_nat n = push_bit 3 (of_nat n :: u64)" by (simp add: push_bit_eq_mult)
  then show ?thesis
    by (simp only:) (auto intro!: bit_eqI simp: msz_def word_bits)
qed

lemma msz_neg [simp]: "msz (w AND - 2) = msz w" "msz (w AND - 3) = msz w"
  using msz_flags(3,4) [of w] by simp_all

lemma bits_neg [simp]:
  fixes w :: u64
  shows "\<not> bit (w AND - 2) 0" "bit (w AND - 2) (Suc 0) = bit w (Suc 0)"
    "bit (w AND - 3) 0 = bit w 0" "\<not> bit (w AND - 3) (Suc 0)"
    "bit (w OR 1) (Suc 0) = bit w (Suc 0)" "bit (w OR 2) (Suc 0)" "bit (wsz w s) (Suc 0) = bit w (Suc 0)"
  using bits_flags [of w] msz_wsz(3) [of w s] by simp_all

declare msz_wsz [simp] msz_flags [simp] bits_flags [simp]

end
