(* ===== verification/Kmalloc_Layout.thy ===== *)
theory Kmalloc_Layout
  imports Kmalloc_Cells
begin

text \<open>
  The shape of the heap: a list of chunks laid out contiguously from the start of the heap,
  each with its header and, when free, a footer, and the doubly linked free list through the
  free chunks; what adding and removing a free-list node does to that shape.
\<close>

type_synonym chunks = "(nat \<times> bool) list"

definition tot :: "chunks \<Rightarrow> nat" where "tot cs = sum_list (map fst cs)"

definition hdr_ok :: "(nat \<Rightarrow> u64) \<Rightarrow> nat \<Rightarrow> nat \<Rightarrow> bool \<Rightarrow> bool \<Rightarrow> bool" where
  "hdr_ok c i n fr pf \<longleftrightarrow> msz (c i) = 8 * of_nat n \<and> bit (c i) 0 = fr \<and> bit (c i) 1 = pf"

fun lay :: "(nat \<Rightarrow> u64) \<Rightarrow> nat \<Rightarrow> bool \<Rightarrow> chunks \<Rightarrow> bool" where
  "lay c i pf [] = True"
| "lay c i pf ((n, fr) # cs) =
     (4 \<le> n \<and> hdr_ok c i n fr pf \<and> (fr \<and> i + n < NCELLS \<longrightarrow> c (i + n - 1) = 8 * of_nat n) \<and>
      lay c (i + n) fr cs)"

fun fp :: "nat \<Rightarrow> chunks \<Rightarrow> nat set" where
  "fp i [] = {}"
| "fp i ((n, fr) # cs) = {i} \<union> (if fr then {i + n - 1} else {}) \<union> fp (i + n) cs"

fun fs :: "nat \<Rightarrow> chunks \<Rightarrow> nat list" where
  "fs i [] = []"
| "fs i ((n, fr) # cs) = (if fr then [i] else []) @ fs (i + n) cs"

fun seg :: "(nat \<Rightarrow> u64) \<Rightarrow> u64 \<Rightarrow> u64 \<Rightarrow> nat list \<Rightarrow> u64 \<Rightarrow> bool" where
  "seg c q p [] e = (p = e)"
| "seg c q p (s # ss) e = (p = A s \<and> c (Suc s) = q \<and> seg c (A s) (c (Suc (Suc s))) ss e)"

definition lastfree :: "bool \<Rightarrow> chunks \<Rightarrow> bool" where
  "lastfree pf xs = (if xs = [] then pf else snd (last xs))"

definition lastp :: "u64 \<Rightarrow> nat list \<Rightarrow> u64" where
  "lastp q us = (if us = [] then q else A (last us))"

definition big :: "chunks \<Rightarrow> bool" where "big cs \<longleftrightarrow> (\<forall>c\<in>set cs. 4 \<le> fst c)"

lemma tot_simps [simp]: "tot [] = 0" "tot (c # cs) = fst c + tot cs" "tot (xs @ ys) = tot xs + tot ys"
  by (simp_all add: tot_def)

lemma big_simps [simp]: "big []" "big (c # cs) \<longleftrightarrow> 4 \<le> fst c \<and> big cs" "big (xs @ ys) \<longleftrightarrow> big xs \<and> big ys"
  by (auto simp: big_def)

lemma lastfree_simps [simp]: "lastfree pf [] = pf" "lastfree pf (c # cs) = lastfree (snd c) cs"
  by (auto simp: lastfree_def)

lemma lastp_simps [simp]: "lastp q [] = q" "lastp q (u # us) = lastp (A u) us" "lastp q (us @ [u]) = A u"
  by (auto simp: lastp_def)

lemma lay_append: "lay c i pf (xs @ ys) \<longleftrightarrow> lay c i pf xs \<and> lay c (i + tot xs) (lastfree pf xs) ys"
  by (induction xs arbitrary: i pf) (auto simp: add.assoc)

lemma fs_append: "fs i (xs @ ys) = fs i xs @ fs (i + tot xs) ys"
  by (induction xs arbitrary: i) (auto simp: add.assoc)

lemma fp_append: "fp i (xs @ ys) = fp i xs \<union> fp (i + tot xs) ys"
  by (induction xs arbitrary: i) (auto simp: add.assoc)

lemma seg_append: "seg c q p (us @ vs) e \<longleftrightarrow> (\<exists>r. seg c q p us r \<and> seg c (lastp q us) r vs e)"
  by (induction us arbitrary: q p) auto

lemma lay_big: "lay c i pf cs \<Longrightarrow> big cs"
  by (induction c i pf cs rule: lay.induct) simp_all

lemma lay_cong: "(\<And>j. j \<in> fp i cs \<Longrightarrow> c' j = c j) \<Longrightarrow> lay c' i pf cs = lay c i pf cs"
  by (induction cs arbitrary: i pf) (auto simp: hdr_ok_def)

lemma seg_cong:
  "(\<And>s. s \<in> set fl \<Longrightarrow> c' (Suc s) = c (Suc s) \<and> c' (Suc (Suc s)) = c (Suc (Suc s))) \<Longrightarrow>
   seg c' q p fl e = seg c q p fl e"
  by (induction fl arbitrary: q p) auto

lemma fp_bounds: "big cs \<Longrightarrow> j \<in> fp i cs \<Longrightarrow> i \<le> j \<and> j < i + tot cs"
  by (induction cs arbitrary: i) (fastforce split: if_splits)+

lemma fs_bounds: "big cs \<Longrightarrow> t \<in> set (fs i cs) \<Longrightarrow> i \<le> t \<and> t + 4 \<le> i + tot cs"
  by (induction cs arbitrary: i) (fastforce split: if_splits)+

lemma fs_distinct: "big cs \<Longrightarrow> distinct (fs i cs)"
  by (induction cs arbitrary: i) (use fs_bounds in \<open>force split: if_splits\<close>)+

lemma fs_decomp: "t \<in> set (fs i cs) \<Longrightarrow> \<exists>xs n ys. cs = xs @ (n, True) # ys \<and> t = i + tot xs"
proof (induction cs arbitrary: i)
  case (Cons c cs)
  obtain n fr where c: "c = (n, fr)" by force
  show ?case
  proof (cases "fr \<and> t = i")
    case True
    then show ?thesis using c by (intro exI[of _ "[]"]) auto
  next
    case False
    then have "t \<in> set (fs (i + n) cs)" using Cons.prems c by (auto split: if_splits)
    then obtain xs k ys where "cs = xs @ (k, True) # ys \<and> t = i + n + tot xs" using Cons.IH by blast
    then show ?thesis using c by (intro exI[of _ "c # xs"] exI[of _ k] exI[of _ ys]) simp
  qed
qed simp

lemma fs_sep: "big cs \<Longrightarrow> t \<in> set (fs i cs) \<Longrightarrow> u \<in> set (fs i cs) \<Longrightarrow> t \<noteq> u \<Longrightarrow> t + 4 \<le> u \<or> u + 4 \<le> t"
proof (induction cs arbitrary: i)
  case (Cons c cs)
  then show ?case
    using fs_bounds[of cs t "i + fst c"] fs_bounds[of cs u "i + fst c"]
    by (cases c) (force split: if_splits)
qed simp

lemma links_fp: "big cs \<Longrightarrow> t \<in> set (fs i cs) \<Longrightarrow> Suc t \<notin> fp i cs \<and> Suc (Suc t) \<notin> fp i cs"
proof (induction cs arbitrary: i)
  case (Cons c cs)
  then show ?case
    using fs_bounds[of cs t "i + fst c"] fp_bounds[of cs "Suc t" "i + fst c"]
      fp_bounds[of cs "Suc (Suc t)" "i + fst c"]
    by (cases c) (auto split: if_splits)
qed simp


definition outside_eq :: "mem \<Rightarrow> mem \<Rightarrow> bool" where
  "outside_eq m m' \<longleftrightarrow> (\<forall>a. \<not> is_in_heap_bounds a \<longrightarrow> m' a = m a)"

lemma outside_eq_refl [simp]: "outside_eq m m"
  by (simp add: outside_eq_def)

lemma outside_eq_trans: "outside_eq m m' \<Longrightarrow> outside_eq m' m'' \<Longrightarrow> outside_eq m m''"
  by (simp add: outside_eq_def)

lemma outside_st64: "i < NCELLS \<Longrightarrow> outside_eq m (st64 m (A i) v)"
  unfolding outside_eq_def
proof (intro allI impI)
  fix a assume i: "i < NCELLS" and a: "\<not> is_in_heap_bounds a"
  have "8 \<le> unat (a - A i)"
    using a i unat_less64[of a]
    by (auto simp: is_in_heap_bounds_def HEAP_END_def HEAP_SIZE_def HEAP_START_def NCELLS_def
        word_le_nat_alt word_less_nat_alt unat_sub_if' unat_A)
  then show "st64 m (A i) v a = m a" by (simp add: st64_def st_other)
qed

lemma outside_st64_step: "outside_eq m m' \<Longrightarrow> i < NCELLS \<Longrightarrow> outside_eq m (st64 m' (A i) v)"
  using outside_st64 outside_eq_trans by blast

lemma outside_ops [simp]:
  "outside_eq m m' \<Longrightarrow> i < NCELLS \<Longrightarrow> outside_eq m (set_sz m' (A i) s)"
  "outside_eq m m' \<Longrightarrow> i < NCELLS \<Longrightarrow> outside_eq m (set_flag m' (A i) f)"
  "outside_eq m m' \<Longrightarrow> i < NCELLS \<Longrightarrow> outside_eq m (unset_flag m' (A i) f)"
  "outside_eq m m' \<Longrightarrow> i + 2 < NCELLS \<Longrightarrow> outside_eq m (set_node_prev m' (A i) v)"
  "outside_eq m m' \<Longrightarrow> i + 2 < NCELLS \<Longrightarrow> outside_eq m (set_node_next m' (A i) v)"
  by (auto simp: set_sz_def set_flag_def unset_flag_def set_node_prev_def set_node_next_def Let_def
      A_fields intro!: outside_st64_step)

definition sep4 :: "nat list \<Rightarrow> bool" where
  "sep4 fl \<longleftrightarrow> distinct fl \<and> (\<forall>t\<in>set fl. t + 4 \<le> NCELLS) \<and>
     (\<forall>t\<in>set fl. \<forall>u\<in>set fl. t \<noteq> u \<longrightarrow> t + 4 \<le> u \<or> u + 4 \<le> t)"

lemma sep4D: "sep4 fl \<Longrightarrow> t \<in> set fl \<Longrightarrow> u \<in> set fl \<Longrightarrow> t \<noteq> u \<Longrightarrow> t + 4 \<le> u \<or> u + 4 \<le> t"
  "sep4 fl \<Longrightarrow> t \<in> set fl \<Longrightarrow> t + 4 \<le> NCELLS"
  by (simp_all add: sep4_def)

lemma sep4_distinct: "sep4 fl \<Longrightarrow> distinct fl"
  by (simp add: sep4_def)

definition links :: "nat list \<Rightarrow> nat set" where
  "links fl = (\<Union>t\<in>set fl. {Suc t, Suc (Suc t)})"

lemma freelist_add_node_seg:
  assumes seg: "seg (cells (kmem h)) 0 (freelist_head h) fl 0" and sep: "sep4 (s # fl)"
  defines "h' \<equiv> freelist_add_node h (A s)"
  shows "seg (cells (kmem h')) 0 (freelist_head h') (s # fl) 0"
    and "j \<notin> links (s # fl) \<Longrightarrow> cells (kmem h') j = cells (kmem h) j"
    and "outside_eq (kmem h) (kmem h')"
proof -
  have s: "s + 2 < NCELLS" "s + 4 \<le> NCELLS" using sep by (auto simp: sep4_def)
  have "seg (cells (kmem h')) 0 (freelist_head h') (s # fl) 0 \<and>
    (j \<notin> links (s # fl) \<longrightarrow> cells (kmem h') j = cells (kmem h) j) \<and> outside_eq (kmem h) (kmem h')"
  proof (cases fl)
    case Nil
    then have "freelist_head h = 0" using seg by simp
    moreover have "outside_eq (kmem h) (set_node_next (set_node_prev (kmem h) (A s) 0) (A s) 0)"
      using s by simp
    ultimately show ?thesis using s Nil
      by (auto simp: h'_def freelist_add_node_def cells_node links_def)
  next
    case (Cons v vs)
    then have v: "freelist_head h = A v" "v + 2 < NCELLS" "v + 4 \<le> NCELLS" "v \<noteq> s" "s + 4 \<le> v \<or> v + 4 \<le> s"
      and vs: "\<And>t. t \<in> set vs \<Longrightarrow> t \<noteq> s \<and> t \<noteq> v \<and> (s + 4 \<le> t \<or> t + 4 \<le> s) \<and> (v + 4 \<le> t \<or> t + 4 \<le> v)"
      using seg sep by (auto simp: sep4_def)
    have c': "cells (kmem h') = (cells (kmem h))(Suc s := 0, Suc (Suc s) := A v, Suc v := A s)"
      and hd: "freelist_head h' = A s"
      using v s by (simp_all add: h'_def freelist_add_node_def Let_def cells_node)
    have "seg (cells (kmem h')) (A v) (cells (kmem h) (Suc (Suc v))) vs 0 = seg (cells (kmem h)) (A v) (cells (kmem h) (Suc (Suc v))) vs 0"
      by (rule seg_cong) (use vs in \<open>fastforce simp: c'\<close>)
    moreover have "outside_eq (kmem h) (kmem h')"
      using v s by (auto simp: h'_def freelist_add_node_def Let_def)
    ultimately show ?thesis using seg v Cons hd by (auto simp: c' links_def)
  qed
  then show "seg (cells (kmem h')) 0 (freelist_head h') (s # fl) 0"
    and "j \<notin> links (s # fl) \<Longrightarrow> cells (kmem h') j = cells (kmem h) j"
    and "outside_eq (kmem h) (kmem h')" by auto
qed


lemma seg_retarget:
  "seg c q p (us @ [u]) e \<Longrightarrow> (\<And>t. t \<in> set us \<Longrightarrow> c' (Suc t) = c (Suc t) \<and> c' (Suc (Suc t)) = c (Suc (Suc t))) \<Longrightarrow>
   c' (Suc u) = c (Suc u) \<Longrightarrow> seg c' q p (us @ [u]) (c' (Suc (Suc u)))"
  using seg_cong [of us c' c q p] by (auto simp: seg_append)

definition unlinked :: "(nat \<Rightarrow> u64) \<Rightarrow> nat list \<Rightarrow> nat \<Rightarrow> nat list \<Rightarrow> nat \<Rightarrow> u64" where
  "unlinked c us s vs =
     (let c1 = (if us = [] then c else c(Suc (Suc (last us)) := c (Suc (Suc s))))
      in if vs = [] then c1 else c1(Suc (hd vs) := c (Suc s)))"

lemma unlinked_keeps:
  assumes "sep4 (us @ s # vs)" "t \<in> set us \<union> set vs"
  shows "vs = [] \<or> t \<noteq> hd vs \<Longrightarrow> unlinked c us s vs (Suc t) = c (Suc t)"
    and "us = [] \<or> t \<noteq> last us \<Longrightarrow> unlinked c us s vs (Suc (Suc t)) = c (Suc (Suc t))"
proof -
  have "us = [] \<or> t \<noteq> Suc (last us)"
    using sep4D(1) [OF assms(1), of t "last us"] assms(2) by fastforce
  moreover have "vs = [] \<or> Suc t \<noteq> hd vs"
    using sep4D(1) [OF assms(1), of t "hd vs"] assms(2) by fastforce
  ultimately show "vs = [] \<or> t \<noteq> hd vs \<Longrightarrow> unlinked c us s vs (Suc t) = c (Suc t)"
    and "us = [] \<or> t \<noteq> last us \<Longrightarrow> unlinked c us s vs (Suc (Suc t)) = c (Suc (Suc t))"
    by (cases "us = []"; cases "vs = []"; simp add: unlinked_def)+
qed

lemma seg_unlinked:
  assumes seg: "seg c 0 p (us @ s # vs) 0" and sep: "sep4 (us @ s # vs)"
  shows "seg (unlinked c us s vs) 0 (if us = [] then c (Suc (Suc s)) else p) (us @ vs) 0"
proof -
  let ?c' = "unlinked c us s vs"
  have dis: "distinct us" "distinct vs" "set us \<inter> set vs = {}"
    using sep4_distinct [OF sep] by auto
  have us: "seg c 0 p us (A s)" and vs: "seg c (A s) (c (Suc (Suc s))) vs 0" and prv: "c (Suc s) = lastp 0 us"
    using seg by (auto simp: seg_append)
  have "seg ?c' 0 (if us = [] then c (Suc (Suc s)) else p) us (c (Suc (Suc s)))"
  proof (cases us rule: rev_cases)
    case (snoc us' u)
    have nh: "vs = [] \<or> t \<noteq> hd vs" if "t \<in> set us" for t using dis that by (cases vs) auto
    have nl: "us = [] \<or> t \<noteq> last us" if "t \<in> set us'" for t using dis that snoc by auto
    have "seg ?c' 0 p (us' @ [u]) (?c' (Suc (Suc u)))"
    proof (rule seg_retarget)
      show "seg c 0 p (us' @ [u]) (A s)" using us snoc by simp
      show "?c' (Suc t) = c (Suc t) \<and> ?c' (Suc (Suc t)) = c (Suc (Suc t))" if "t \<in> set us'" for t
        using nl [OF that] nh [of t] that snoc by (intro conjI unlinked_keeps [OF sep]) auto
      show "?c' (Suc u) = c (Suc u)" using nh [of u] snoc by (intro unlinked_keeps [OF sep]) auto
    qed
    moreover have "u + 4 \<le> hd vs \<or> hd vs + 4 \<le> u" if "vs \<noteq> []"
      using nh [of u] that snoc by (intro sep4D(1) [OF sep]) auto
    then have "?c' (Suc (Suc u)) = c (Suc (Suc s))" using snoc by (auto simp: unlinked_def Let_def)
    ultimately show ?thesis using snoc by simp
  qed simp
  moreover have "seg ?c' (lastp 0 us) (c (Suc (Suc s))) vs 0"
  proof (cases vs)
    case (Cons v vs')
    have nl: "us = [] \<or> t \<noteq> last us" if "t \<in> set vs" for t
      using dis that last_in_set [of us] by (cases us) auto
    have "seg ?c' q p vs' 0 = seg c q p vs' 0" for q p
    proof (rule seg_cong)
      show "?c' (Suc t) = c (Suc t) \<and> ?c' (Suc (Suc t)) = c (Suc (Suc t))" if "t \<in> set vs'" for t
        using that dis nl Cons unlinked_keeps [OF sep, of t] by auto
    qed
    moreover have "?c' (Suc v) = c (Suc s)" "?c' (Suc (Suc v)) = c (Suc (Suc v))"
      using Cons nl [of v] unlinked_keeps(2) [OF sep, of v] by (auto simp: unlinked_def Let_def)
    ultimately show ?thesis using vs prv Cons by auto
  qed (use vs in simp)
  ultimately show ?thesis by (auto simp: seg_append)
qed

lemma freelist_remove_node_seg:
  assumes seg: "seg (cells (kmem h)) 0 (freelist_head h) (us @ s # vs) 0" and sep: "sep4 (us @ s # vs)"
  obtains h' where "freelist_remove_node h (A s) = Inr h'"
    and "seg (cells (kmem h')) 0 (freelist_head h') (us @ vs) 0"
    and "\<And>j. j \<notin> links (us @ vs) \<Longrightarrow> cells (kmem h') j = cells (kmem h) j"
    and "outside_eq (kmem h) (kmem h')"
proof -
  let ?c = "cells (kmem h)"
  define prv nxt where "prv = ?c (Suc s)" and "nxt = ?c (Suc (Suc s))"
  have s: "s + 2 < NCELLS" using sep by (auto simp: sep4_def)
  have prv: "prv = lastp 0 us" and us: "seg ?c 0 (freelist_head h) us (A s)"
    and vs: "seg ?c (A s) nxt vs 0"
    using seg by (auto simp: seg_append prv_def nxt_def)
  define m1 where "m1 = (if prv \<noteq> 0 then set_node_next (kmem h) prv nxt else kmem h)"
  define m2 where "m2 = (if nxt \<noteq> 0 then set_node_prev m1 nxt prv else m1)"
  have c1: "cells m1 = (if us = [] then ?c else ?c(Suc (Suc (last us)) := nxt))"
    and o1: "outside_eq (kmem h) m1"
  proof -
    have "us \<noteq> [] \<Longrightarrow> last us + 4 \<le> NCELLS" by (rule sep4D(2) [OF sep]) simp
    then show "cells m1 = (if us = [] then ?c else ?c(Suc (Suc (last us)) := nxt))" "outside_eq (kmem h) m1"
      by (auto simp: m1_def prv lastp_def cells_node)
  qed
  have n1: "cells m1 (Suc s) = prv" "cells m1 (Suc (Suc s)) = nxt"
  proof -
    have "last us + 4 \<le> s \<or> s + 4 \<le> last us" if "us \<noteq> []"
      using sep4_distinct [OF sep] that last_in_set [OF that]
      by (intro sep4D(1) [OF sep]) auto
    then show "cells m1 (Suc s) = prv" "cells m1 (Suc (Suc s)) = nxt"
      by (auto simp: c1 prv_def nxt_def)
  qed
  have nx: "nxt = (if vs = [] then 0 else A (hd vs))" using vs by (cases vs) auto
  have c2: "cells m2 = (if vs = [] then cells m1 else (cells m1)(Suc (hd vs) := prv))"
    and o2: "outside_eq m1 m2"
    using sep4D(2) [OF sep, of "hd vs"] by (auto simp: m2_def nx cells_node)
  define h' where "h' = h\<lparr>kmem := m2, freelist_head := (if us = [] then nxt else freelist_head h)\<rparr>"
  have hd: "A s = freelist_head h \<longleftrightarrow> us = []"
    using us sep by (cases us) (auto simp: sep4_def A_inj)
  have n2: "cells m2 (Suc (Suc s)) = nxt"
    using n1 sep4D(1) [OF sep, of s "hd vs"] sep4_distinct [OF sep] by (cases vs) (auto simp: c2)
  have np: "node_prev (kmem h) (A s) = prv" "node_next (kmem h) (A s) = nxt"
      "node_prev m1 (A s) = prv" "node_next m1 (A s) = nxt" "node_next m2 (A s) = nxt"
    using s n1 n2 by (simp_all add: node_A prv_def nxt_def)
  have "freelist_remove_node h (A s) = Inr (h\<lparr>kmem := m2,
      freelist_head := (if A s = freelist_head h then node_next m2 (freelist_head h) else freelist_head h)\<rparr>)"
    using s A_neq0[of s]
    by (simp only: freelist_remove_node_def kassert_def Let_def np m1_def [symmetric] m2_def [symmetric]) simp
  then have r: "freelist_remove_node h (A s) = Inr h'"
    using hd np(5) by (cases "us = []") (simp_all add: h'_def)
  have fr: "cells m2 j = ?c j" if "j \<notin> links (us @ vs)" for j
  proof -
    have "us = [] \<or> j \<noteq> Suc (Suc (last us))" using that last_in_set[of us] by (auto simp: links_def)
    then show ?thesis using that by (cases vs) (auto simp: c2 c1 links_def)
  qed
  have "cells m2 = unlinked ?c us s vs"
    by (simp add: unlinked_def c1 c2 prv_def nxt_def)
  then have sg: "seg (cells m2) 0 (if us = [] then nxt else freelist_head h) (us @ vs) 0"
    using seg_unlinked [OF seg sep] by (simp only: nxt_def)
  show thesis
    by (rule that [OF r]) (use sg fr o1 o2 outside_eq_trans in \<open>auto simp: h'_def\<close>)
qed

end
