(* ===== verification/Kmalloc_Alloc.thy ===== *)
theory Kmalloc_Alloc
  imports Kmalloc_Layout
begin

text \<open>
  The representation invariant of the heap, the first-fit specification of an allocation on
  chunk lists, and the proof that \<open>kmalloc\<close> implements it.
\<close>

definition no_adj :: "chunks \<Rightarrow> bool" where
  "no_adj cs \<longleftrightarrow> successively (\<lambda>a b. \<not> (snd a \<and> snd b)) cs"

definition heap_rep :: "kheap \<Rightarrow> chunks \<Rightarrow> nat list \<Rightarrow> bool" where
  "heap_rep h cs fl \<longleftrightarrow>
     lay (cells (kmem h)) 0 False cs \<and> tot cs = NCELLS \<and> no_adj cs \<and>
     distinct fl \<and> set fl = set (fs 0 cs) \<and> seg (cells (kmem h)) 0 (freelist_head h) fl 0"

fun size_at :: "nat \<Rightarrow> chunks \<Rightarrow> nat \<Rightarrow> nat" where
  "size_at i [] s = 0"
| "size_at i ((n, fr) # cs) s = (if s = i then n else size_at (i + n) cs s)"

fun owned :: "nat \<Rightarrow> chunks \<Rightarrow> nat set" where
  "owned i [] = {}"
| "owned i ((n, fr) # cs) = (if fr then {} else {i + 1..<i + n}) \<union> owned (i + n) cs"

definition fits :: "nat \<Rightarrow> nat \<Rightarrow> bool" where
  "fits k n \<longleftrightarrow> n = k \<or> k + 4 \<le> n"

fun carve :: "nat \<Rightarrow> nat \<Rightarrow> nat \<Rightarrow> chunks \<Rightarrow> chunks" where
  "carve k s i [] = []"
| "carve k s i ((n, fr) # cs) =
     (if i = s then (if n = k then (n, False) # cs else (k, False) # (n - k, True) # cs)
      else (n, fr) # carve k s (i + n) cs)"

definition spec_kmalloc :: "nat \<Rightarrow> chunks \<Rightarrow> nat list \<Rightarrow> (nat \<times> chunks \<times> nat list) option" where
  "spec_kmalloc k cs fl =
     (case find (\<lambda>s. fits k (size_at 0 cs s)) fl of
        None \<Rightarrow> None
      | Some s \<Rightarrow> Some (s, carve k s 0 cs,
          if size_at 0 cs s = k then remove1 s fl else (s + k) # remove1 s fl))"

definition units :: "u64 \<Rightarrow> nat" where
  "units sz = max 4 ((unat sz + 15) div 8)"

lemma FREE_CHUNK_MIN_SZ_val: "FREE_CHUNK_MIN_SZ = 32"
  by (simp add: FREE_CHUNK_MIN_SZ_def align_sz_def ALIGN_UP_def HEAP_ALIGNMENT_def
      sizeof_free_node_t_def sizeof_free_footer_t_def)

lemma alloc_size_units:
  assumes "unat sz \<le> 2 ^ 64 - 64"
  shows "alloc_size sz = 8 * of_nat (units sz)" and "units sz + 4 < 2 ^ 61"
proof -
  let ?a = "align_sz (sz + sizeof_alloc_hdr_t)"
  have "unat (sz + 8) = unat sz + 8" using assms unat_plus_of_nat [of sz 8] by simp
  then have a: "unat ?a = (unat sz + 15) div 8 * 8"
    using unat_ALIGN_UP [of "sz + 8" 3] assms
    by (simp add: align_sz_def HEAP_ALIGNMENT_def sizeof_alloc_hdr_t_def)
  show u: "units sz + 4 < 2 ^ 61" using assms by (simp add: units_def max_def) linarith
  have "unat (8 * of_nat (units sz) :: u64) = 8 * units sz"
    using unat_of_nat64 [of "8 * units sz"] u by simp
  moreover have "unat (alloc_size sz) = 8 * units sz"
    by (auto simp: alloc_size_def Let_def a FREE_CHUNK_MIN_SZ_val word_less_nat_alt units_def max_def)
  ultimately show "alloc_size sz = 8 * of_nat (units sz)"
    by (metis unsigned_word_eqI)
qed

lemma unat_8of_nat: "n < 2 ^ 61 \<Longrightarrow> unat (8 * of_nat n :: u64) = 8 * n"
  using unat_of_nat64 [of "8 * n"] by simp

lemma size_eq_iff: "n < 2 ^ 61 \<Longrightarrow> k < 2 ^ 61 \<Longrightarrow> (8 * of_nat n :: u64) = 8 * of_nat k \<longleftrightarrow> n = k"
  by (metis unat_8of_nat mult_cancel1 zero_neq_numeral)

lemma size_ge_iff: "n < 2 ^ 61 \<Longrightarrow> k + 4 < 2 ^ 61 \<Longrightarrow> (8 * of_nat n :: u64) \<ge> 8 * of_nat k + 32 \<longleftrightarrow> k + 4 \<le> n"
proof -
  assume "n < 2 ^ 61" "k + 4 < 2 ^ 61"
  moreover have "(8 * of_nat k + 32 :: u64) = 8 * of_nat (k + 4)" by simp
  ultimately show ?thesis by (simp only: word_le_nat_alt unat_8of_nat mult_le_cancel1) simp
qed

lemma find_free_seg:
  assumes "seg (cells m) q p fl 0" "k + 4 < 2 ^ 61"
    "\<And>s. s \<in> set fl \<Longrightarrow> s + 4 \<le> NCELLS \<and> msz (cells m s) = 8 * of_nat (sz s) \<and> sz s \<le> NCELLS"
  shows "find_free m (8 * of_nat k) p =
    (case find (\<lambda>s. fits k (sz s)) fl of None \<Rightarrow> Some (0, 0) | Some s \<Rightarrow> Some (A s, 8 * of_nat (sz s)))"
  using assms
proof (induction fl arbitrary: q p)
  case Nil
  then show ?case by (simp add: find_free.simps)
next
  case (Cons s fl)
  have s: "p = A s" "s + 4 \<le> NCELLS" "msz (cells m s) = 8 * of_nat (sz s)" "sz s < 2 ^ 61"
    using Cons.prems(1) Cons.prems(3)[of s] by (auto simp: NCELLS_def)
  have g: "get_sz m (A s) = 8 * of_nat (sz s)" "node_next m (A s) = cells m (Suc (Suc s))" "A s \<noteq> 0"
    using s by (simp_all add: get_sz_A node_A)
  have "find_free m (8 * of_nat k) (cells m (Suc (Suc s))) =
    (case find (\<lambda>s. fits k (sz s)) fl of None \<Rightarrow> Some (0, 0) | Some s \<Rightarrow> Some (A s, 8 * of_nat (sz s)))"
    using Cons.prems by (intro Cons.IH) auto
  moreover have "k < 2 ^ 61" using Cons.prems(2) by simp
  ultimately show ?case
    unfolding s(1) find_free.simps [of m _ "A s"] Let_def g FREE_CHUNK_MIN_SZ_val
      size_eq_iff [OF s(4) \<open>k < 2 ^ 61\<close>] size_ge_iff [OF s(4) Cons.prems(2)]
    using g(3) by (simp add: fits_def)
qed


lemma lay_head:
  assumes "lay c i pf ys" "msz (c' i) = msz (c i)" "bit (c' i) 0 = bit (c i) 0" "ys \<noteq> [] \<Longrightarrow> bit (c' i) 1 = pf'"
    "\<And>j. j \<in> fp i ys \<Longrightarrow> j \<noteq> i \<Longrightarrow> c' j = c j"
  shows "lay c' i pf' ys"
proof (cases ys)
  case (Cons y ys')
  obtain n fr where y: "y = (n, fr)" by force
  have b: "4 \<le> n" "big ys'" using assms(1) Cons y by (auto dest: lay_big)
  have "lay c' (i + n) fr ys' = lay c (i + n) fr ys'"
  proof (rule lay_cong)
    fix j assume j: "j \<in> fp (i + n) ys'"
    then show "c' j = c j" using fp_bounds [OF b(2) j] b(1) Cons y by (intro assms(5)) auto
  qed
  moreover have "fr \<Longrightarrow> c' (i + n - 1) = c (i + n - 1)" using b(1) Cons y by (intro assms(5)) auto
  ultimately show ?thesis using assms(1-4) Cons y by (auto simp: hdr_ok_def)
qed simp

lemma heap_rep_sep4: "heap_rep h cs fl \<Longrightarrow> sep4 fl"
  using lay_big [of "cells (kmem h)" 0 False cs] fs_bounds [of cs _ 0] fs_sep [of cs _ 0]
  by (auto simp: heap_rep_def sep4_def)

lemma heap_rep_big: "heap_rep h cs fl \<Longrightarrow> big cs"
  by (auto simp: heap_rep_def dest: lay_big)

lemma links_subset: "set fl \<subseteq> set gl \<Longrightarrow> links fl \<subseteq> links gl"
  by (auto simp: links_def)

lemma links_fp_disjoint: "big cs \<Longrightarrow> set fl \<subseteq> set (fs i cs) \<Longrightarrow> j \<in> fp i cs \<Longrightarrow> j \<notin> links fl"
  using links_fp [of cs _ i] by (fastforce simp: links_def)

lemma owned_bounds: "j \<in> owned i cs \<Longrightarrow> i < j \<and> j < i + tot cs"
  by (induction cs arbitrary: i) (fastforce split: if_splits)+

lemma owned_append: "owned i (xs @ ys) = owned i xs \<union> owned (i + tot xs) ys"
  by (induction xs arbitrary: i) (auto simp: add.assoc)

lemma owned_fp: "big cs \<Longrightarrow> j \<in> owned i cs \<Longrightarrow> j \<notin> fp i cs"
proof (induction cs arbitrary: i)
  case (Cons c cs)
  then show ?case
    using owned_bounds [of j "i + fst c" cs] fp_bounds [of cs j "i + fst c"]
    by (cases c) (auto split: if_splits)
qed simp

lemma owned_links: "big cs \<Longrightarrow> j \<in> owned i cs \<Longrightarrow> t \<in> set (fs i cs) \<Longrightarrow> j < t \<or> t + 4 \<le> j"
proof (induction cs arbitrary: i)
  case (Cons c cs)
  then show ?case
    using owned_bounds [of j "i + fst c" cs] fs_bounds [of cs t "i + fst c"]
    by (cases c) (force split: if_splits)
qed simp

lemma kmalloc_take_exact:
  assumes rep: "lay (cells (kmem h)) 0 False (xs @ (n, True) # ys)" and N: "tot (xs @ (n, True) # ys) = NCELLS"
  defines "s \<equiv> tot xs"
  defines "h' \<equiv> kmalloc_take h (A s) (8 * of_nat n) (8 * of_nat n)"
  shows "lay (cells (kmem h')) 0 False (xs @ (n, False) # ys)"
    and "freelist_head h' = freelist_head h" and "outside_eq (kmem h) (kmem h')"
    and "j \<noteq> s \<Longrightarrow> j \<noteq> s + n \<Longrightarrow> cells (kmem h') j = cells (kmem h) j"
proof -
  let ?c = "cells (kmem h)"
  have big: "big xs" "4 \<le> n" "big ys" using lay_big [OF rep] by auto
  have s: "s < NCELLS" "s + n \<le> NCELLS" using N big by (auto simp: s_def)
  have na: "A s + 8 * of_nat n = A (s + n)" by (rule A_add)
  define c1 where "c1 = (if s + n < NCELLS then ?c(s + n := ?c (s + n) AND NOT 2) else ?c)"
  have c': "cells (kmem h') = c1(s := wsz (c1 s) (8 * of_nat n) AND NOT 1)"
    using s by (simp add: h'_def kmalloc_take_def Let_def na A_bounds cells_unset_flag cells_set_sz
        flag_simps c1_def)
  show "freelist_head h' = freelist_head h" "outside_eq (kmem h) (kmem h')"
    using s by (simp_all add: h'_def kmalloc_take_def Let_def na A_bounds)
  show "j \<noteq> s \<Longrightarrow> j \<noteq> s + n \<Longrightarrow> cells (kmem h') j = ?c j" by (simp add: c' c1_def)
  have rep': "lay ?c 0 False xs" "hdr_ok ?c s n True (lastfree False xs)" "lay ?c (s + n) True ys"
    using rep by (simp_all add: lay_append s_def)
  have "lay (cells (kmem h')) 0 False xs = lay ?c 0 False xs"
    by (rule lay_cong) (use fp_bounds [OF big(1)] big(2) in \<open>force simp: c' c1_def s_def\<close>)
  moreover have "hdr_ok (cells (kmem h')) s n False (lastfree False xs)"
    using rep'(2) big(2) by (simp add: hdr_ok_def c' msz_flags msz_wsz bits_flags c1_def)
  moreover have "lay (cells (kmem h')) (s + n) False ys"
  proof (rule lay_head [OF rep'(3)])
    show "ys \<noteq> [] \<Longrightarrow> bit (cells (kmem h') (s + n)) 1 = False"
      using N big by (cases ys) (auto simp: c' c1_def s_def bits_flags)
    show "cells (kmem h') j = ?c j" if "j \<in> fp (s + n) ys" "j \<noteq> s + n" for j
      using fp_bounds [OF big(3) that(1)] that(2) big(2) by (simp add: c' c1_def)
  qed (use big(2) in \<open>simp_all add: c' c1_def msz_flags bits_flags\<close>)
  ultimately show "lay (cells (kmem h')) 0 False (xs @ (n, False) # ys)"
    using rep'(1) big(2) by (simp add: lay_append s_def [symmetric])
qed


lemma sep4_split:
  assumes big: "big xs" "4 \<le> n" "big ys" and N: "tot (xs @ (n, True) # ys) = NCELLS" and k: "k + 4 \<le> n"
    and gl: "sep4 gl" "set gl \<subseteq> set (fs 0 xs) \<union> set (fs (tot xs + n) ys)"
  shows "sep4 ((tot xs + k) # gl)"
proof -
  have "t + 4 \<le> tot xs \<or> tot xs + n \<le> t" if "t \<in> set gl" for t
    using gl(2) that fs_bounds [OF big(1), of t 0] fs_bounds [OF big(3), of t "tot xs + n"] by auto
  then show ?thesis using gl(1) N k unfolding sep4_def by fastforce
qed

lemma lay_split:
  assumes rep: "lay c 0 False (xs @ (n, True) # ys)" and k: "4 \<le> k" "k + 4 \<le> n"
    and "hdr_ok c' (tot xs) k False (lastfree False xs)" "hdr_ok c' (tot xs + k) (n - k) True False"
    "c' (tot xs + n - 1) = 8 * of_nat (n - k)"
    and eq: "\<And>j. j \<in> fp 0 xs \<union> fp (tot xs + n) ys \<Longrightarrow> c' j = c j"
  shows "lay c' 0 False (xs @ (k, False) # (n - k, True) # ys)"
proof -
  have "lay c' 0 False xs = lay c 0 False xs" "lay c' (tot xs + n) True ys = lay c (tot xs + n) True ys"
    by (rule lay_cong, use eq in simp)+
  then show ?thesis using assms by (simp add: lay_append del: of_nat_diff)
qed

lemma kmalloc_take_split:
  assumes rep: "lay (cells (kmem h)) 0 False (xs @ (n, True) # ys)" and N: "tot (xs @ (n, True) # ys) = NCELLS"
    and k: "4 \<le> k" "k + 4 \<le> n"
    and gl: "sep4 gl" "set gl \<subseteq> set (fs 0 xs) \<union> set (fs (tot xs + n) ys)"
      "seg (cells (kmem h)) 0 (freelist_head h) gl 0"
  defines "s \<equiv> tot xs"
  defines "h' \<equiv> kmalloc_take h (A s) (8 * of_nat n) (8 * of_nat k)"
  shows "lay (cells (kmem h')) 0 False (xs @ (k, False) # (n - k, True) # ys)"
    and "seg (cells (kmem h')) 0 (freelist_head h') ((s + k) # gl) 0" and "outside_eq (kmem h) (kmem h')"
    and "j \<notin> links ((s + k) # gl) \<union> {s, s + k, s + n - 1} \<Longrightarrow> cells (kmem h') j = cells (kmem h) j"
proof -
  let ?c = "cells (kmem h)" and ?r = "s + k" and ?cs' = "xs @ (k, False) # (n - k, True) # ys"
  have big: "big xs" "4 \<le> n" "big ys" using lay_big [OF rep] by auto
  have s: "s < NCELLS" "s + n \<le> NCELLS" "?r < NCELLS" using N big k by (auto simp: s_def)
  have sep: "sep4 (?r # gl)" using sep4_split [OF big N k(2) gl(1,2)] by (simp add: s_def)
  have n61: "n < 2 ^ 61" "k < 2 ^ 61" using s k by (simp_all add: NCELLS_def)
  have far: "t + 4 \<le> s \<or> s + n \<le> t" if "t \<in> set gl" for t
    using gl(2) that fs_bounds [OF big(1), of t 0] fs_bounds [OF big(3), of t "s + n"] by (auto simp: s_def)
  have notlink: "s \<notin> links (?r # gl)" "?r \<notin> links (?r # gl)" "s + n - 1 \<notin> links (?r # gl)"
    using far k by (fastforce simp: links_def)+
  define m3 where "m3 = unset_flag (set_flag (set_sz (kmem h) (A ?r) (8 * of_nat (n - k))) (A ?r)
      (ucast FLAG_IS_FREE)) (A ?r) (ucast FLAG_IS_PREV_FREE)"
  have c3: "cells m3 = ?c(?r := (wsz (?c ?r) (8 * of_nat (n - k)) OR 1) AND NOT 2)"
    using s by (simp add: m3_def cells_unset_flag cells_set_flag cells_set_sz flag_simps)
  define h3 where "h3 = freelist_add_node (h\<lparr>kmem := m3\<rparr>) (A ?r)"
  have "seg (cells m3) 0 (freelist_head h) gl 0 = seg ?c 0 (freelist_head h) gl 0"
    by (rule seg_cong) (use notlink(2) in \<open>auto simp: c3 links_def\<close>)
  then have "seg (cells (kmem (h\<lparr>kmem := m3\<rparr>))) 0 (freelist_head (h\<lparr>kmem := m3\<rparr>)) gl 0"
    using gl(3) by simp
  note add = freelist_add_node_seg [OF this sep, folded h3_def, simplified]
  have c3': "cells (kmem h3) j = cells m3 j" if "j \<notin> links (?r # gl)" for j using add(2) that by simp
  have gs: "get_sz (kmem h3) (A ?r) = 8 * of_nat (n - k)"
    using s notlink(2) by (simp add: get_sz_A c3' c3)
  have fa: "A ?r + 8 * of_nat (n - k) - sizeof_free_footer_t = A (s + n - 1)"
    using k A_sub [of 1 "s + n"] A_add [of ?r "n - k"]
    by (simp add: sizeof_free_footer_t_def del: of_nat_diff)
  have ne: "(8 * of_nat n :: u64) \<noteq> 8 * of_nat k" using size_eq_iff [OF n61] k by simp
  have df: "(8 * of_nat n :: u64) - 8 * of_nat k = 8 * of_nat (n - k)"
    using k by (simp add: right_diff_distrib)
  have h': "h' = h3\<lparr>kmem := unset_flag (set_sz (st64 (kmem h3) (A (s + n - 1)) (8 * of_nat (n - k))) (A s)
      (8 * of_nat k)) (A s) (ucast FLAG_IS_FREE)\<rparr>"
    using ne by (simp add: h'_def kmalloc_take_def Let_def A_add [of s k] df m3_def [symmetric] h3_def [symmetric] gs fa
        del: of_nat_diff)
  have "s \<noteq> s + n - 1" using k by linarith
  have c': "cells (kmem h') = (cells (kmem h3))(s + n - 1 := 8 * of_nat (n - k), s := wsz (?c s) (8 * of_nat k) AND NOT 1)"
    using s k notlink(1) \<open>s \<noteq> s + n - 1\<close> by (simp add: h' cells_st64 cells_set_sz cells_unset_flag flag_simps c3' c3)
  show fr: "cells (kmem h') j = ?c j" if "j \<notin> links (?r # gl) \<union> {s, ?r, s + n - 1}" for j
    using that by (simp add: c' c3' c3)
  show "outside_eq (kmem h) (kmem h')"
  proof -
    have "outside_eq (kmem h) m3" using s by (simp add: m3_def)
    then have "outside_eq (kmem h) (kmem h3)" using add(3) outside_eq_trans by blast
    then show ?thesis using s k by (simp add: h' outside_st64_step)
  qed
  have "seg (cells (kmem h')) 0 (freelist_head h') (?r # gl) 0 = seg (cells (kmem h3)) 0 (freelist_head h') (?r # gl) 0"
    by (rule seg_cong) (use notlink in \<open>auto simp: c' links_def\<close>)
  then show "seg (cells (kmem h')) 0 (freelist_head h') (?r # gl) 0" using add(1) by (simp add: h')
  show "lay (cells (kmem h')) 0 False ?cs'"
  proof (rule lay_split [OF rep k, folded s_def])
    have "?r \<noteq> s + n - 1" "?r \<noteq> s" using k by auto
    then show "hdr_ok (cells (kmem h')) ?r (n - k) True False"
      using notlink(2) by (simp add: hdr_ok_def c' c3' c3 del: of_nat_diff)
    show "hdr_ok (cells (kmem h')) s k False (lastfree False xs)"
      using rep by (simp add: hdr_ok_def c' lay_append s_def)
    show "cells (kmem h') (s + n - 1) = 8 * of_nat (n - k)" using \<open>s \<noteq> s + n - 1\<close> by (simp add: c' del: of_nat_diff)
    show "cells (kmem h') j = ?c j" if "j \<in> fp 0 xs \<union> fp (s + n) ys" for j
    proof (rule fr)
      have "j < s \<or> s + n \<le> j" using that fp_bounds [OF big(1), of j 0] fp_bounds [OF big(3), of j "s + n"] by (auto simp: s_def)
      moreover have "j \<notin> links gl"
        using that links_fp_disjoint [OF lay_big [OF rep], of gl 0 j] gl(2)
        by (auto simp: fs_append fp_append s_def)
      ultimately show "j \<notin> links (?r # gl) \<union> {s, ?r, s + n - 1}" using k by (auto simp: links_def)
    qed
  qed
qed


lemma size_at_decomp: "big xs \<Longrightarrow> size_at i (xs @ (n, fr) # ys) (i + tot xs) = n"
proof (induction xs arbitrary: i)
  case (Cons x xs)
  then show ?case using Cons.IH [of "i + fst x"] by (cases x) (auto simp: add.assoc)
qed simp

lemma carve_decomp:
  "big xs \<Longrightarrow> carve k (i + tot xs) i (xs @ (n, fr) # ys) =
     (if n = k then xs @ (n, False) # ys else xs @ (k, False) # (n - k, True) # ys)"
proof (induction xs arbitrary: i)
  case (Cons x xs)
  then show ?case using Cons.IH [of "i + fst x"] by (cases x) (auto simp: add.assoc)
qed simp

lemma msz_size_at:
  assumes "lay c i pf cs" "t \<in> set (fs i cs)"
  shows "msz (c t) = 8 * of_nat (size_at i cs t)" and "size_at i cs t \<le> tot cs" and "4 \<le> size_at i cs t"
proof -
  obtain xs n ys where cs: "cs = xs @ (n, True) # ys" and t: "t = i + tot xs"
    using fs_decomp [OF assms(2)] by blast
  have "big xs" "4 \<le> n" using lay_big [OF assms(1)] cs by simp_all
  then have "size_at i cs t = n" by (simp add: cs t size_at_decomp)
  then show "msz (c t) = 8 * of_nat (size_at i cs t)" "size_at i cs t \<le> tot cs" "4 \<le> size_at i cs t"
    using assms(1) \<open>4 \<le> n\<close> by (simp_all add: cs t lay_append hdr_ok_def)
qed

lemma no_adj_decomp:
  "no_adj (xs @ (n, fr) # ys) \<longleftrightarrow> no_adj xs \<and> no_adj ys \<and> \<not> (fr \<and> lastfree False xs) \<and>
     \<not> (fr \<and> ys \<noteq> [] \<and> snd (hd ys))"
  by (auto simp: no_adj_def successively_append_iff successively_Cons lastfree_def)


lemma sep4_mono: "sep4 fl \<Longrightarrow> set gl \<subseteq> set fl \<Longrightarrow> distinct gl \<Longrightarrow> sep4 gl"
  by (auto simp: sep4_def subset_iff)

lemma heap_rep_remove:
  assumes rep: "heap_rep h cs fl" and fl: "fl = us @ s # vs" and cs: "cs = xs @ (n, True) # ys" "s = tot xs"
  obtains h1 where "freelist_remove_node h (A s) = Inr h1"
    and "lay (cells (kmem h1)) 0 False cs" "seg (cells (kmem h1)) 0 (freelist_head h1) (us @ vs) 0"
    and "sep4 (us @ vs)" "set (us @ vs) = set (fs 0 xs) \<union> set (fs (s + n) ys)"
    and "\<And>j. j \<notin> links (us @ vs) \<Longrightarrow> cells (kmem h1) j = cells (kmem h) j"
    and "outside_eq (kmem h) (kmem h1)"
proof -
  note rp = rep [unfolded heap_rep_def]
  have sep: "sep4 (us @ s # vs)" using heap_rep_sep4 [OF rep] fl by simp
  obtain h1 where h1: "freelist_remove_node h (A s) = Inr h1"
      "seg (cells (kmem h1)) 0 (freelist_head h1) (us @ vs) 0"
      "\<And>j. j \<notin> links (us @ vs) \<Longrightarrow> cells (kmem h1) j = cells (kmem h) j" "outside_eq (kmem h) (kmem h1)"
    using freelist_remove_node_seg [of h us s vs] sep rp fl by auto
  have "distinct (us @ s # vs)" "distinct (fs 0 cs)"
    using rp fl fs_distinct [OF heap_rep_big [OF rep]] by auto
  moreover have "set (us @ s # vs) = set (fs 0 xs @ s # fs (s + n) ys)"
    using rp fl cs by (simp add: fs_append)
  ultimately have st: "set (us @ vs) = set (fs 0 xs) \<union> set (fs (s + n) ys)"
    using cs insert_ident [of s "set (us @ vs)" "set (fs 0 xs) \<union> set (fs (s + n) ys)"]
    by (simp add: fs_append)
  have "lay (cells (kmem h1)) 0 False cs = lay (cells (kmem h)) 0 False cs"
  proof (rule lay_cong)
    show "cells (kmem h1) j = cells (kmem h) j" if "j \<in> fp 0 cs" for j
      using that rp fl by (intro h1(3) links_fp_disjoint [OF heap_rep_big [OF rep]]) auto
  qed
  moreover have "sep4 (us @ vs)" using sep by (rule sep4_mono) (use sep4_distinct [OF sep] in auto)
  ultimately show thesis using that h1 st rp by blast
qed

lemma alloc_exact_rep:
  assumes "lay (cells (kmem h)) 0 False (xs @ (n, True) # ys)" "tot (xs @ (n, True) # ys) = NCELLS"
    "no_adj (xs @ (n, True) # ys)" "seg (cells (kmem h)) 0 (freelist_head h) gl 0"
    "sep4 gl" "set gl = set (fs 0 xs) \<union> set (fs (tot xs + n) ys)"
  shows "heap_rep (kmalloc_take h (A (tot xs)) (8 * of_nat n) (8 * of_nat n)) (xs @ (n, False) # ys) gl"
proof -
  let ?s = "tot xs" and ?h' = "kmalloc_take h (A (tot xs)) (8 * of_nat n) (8 * of_nat n)"
  note take = kmalloc_take_exact [OF assms(1,2)]
  have big: "big xs" "big ys" using lay_big [OF assms(1)] by simp_all
  have "seg (cells (kmem ?h')) 0 (freelist_head ?h') gl 0 = seg (cells (kmem h)) 0 (freelist_head ?h') gl 0"
  proof (rule seg_cong)
    fix t assume "t \<in> set gl"
    then have "t + 4 \<le> ?s \<or> ?s + n \<le> t"
      using assms(6) fs_bounds [OF big(1), of t 0] fs_bounds [OF big(2), of t "?s + n"] by auto
    moreover have "4 \<le> n" using lay_big [OF assms(1)] by simp
    ultimately show "cells (kmem ?h') (Suc t) = cells (kmem h) (Suc t) \<and>
        cells (kmem ?h') (Suc (Suc t)) = cells (kmem h) (Suc (Suc t))"
      by (intro conjI take(4)) auto
  qed
  then show ?thesis
    using take(1,2) assms sep4_distinct [OF assms(5)]
    by (simp add: heap_rep_def no_adj_decomp fs_append)
qed

lemma alloc_split_rep:
  assumes "lay (cells (kmem h)) 0 False (xs @ (n, True) # ys)" "tot (xs @ (n, True) # ys) = NCELLS"
    "no_adj (xs @ (n, True) # ys)" "seg (cells (kmem h)) 0 (freelist_head h) gl 0"
    "sep4 gl" "set gl = set (fs 0 xs) \<union> set (fs (tot xs + n) ys)" "4 \<le> k" "k + 4 \<le> n"
  shows "heap_rep (kmalloc_take h (A (tot xs)) (8 * of_nat n) (8 * of_nat k))
    (xs @ (k, False) # (n - k, True) # ys) ((tot xs + k) # gl)"
proof -
  have gl: "set gl \<subseteq> set (fs 0 xs) \<union> set (fs (tot xs + n) ys)" using assms(6) by simp
  note take = kmalloc_take_split [OF assms(1,2,7,8,5) gl assms(4)]
  have "4 \<le> n" "big xs" "big ys" using lay_big [OF assms(1)] by simp_all
  then have "sep4 ((tot xs + k) # gl)" using sep4_split assms(2,5,8) gl by blast
  moreover have "no_adj (xs @ (k, False) # (n - k, True) # ys)"
    using assms(3) no_adj_decomp [of "[]" "n - k" True ys]
    by (simp add: no_adj_decomp) (simp add: no_adj_def)
  ultimately show ?thesis
    using take(1,2) assms sep4_distinct by (force simp: heap_rep_def fs_append)
qed

lemma find_free_rep:
  assumes rep: "heap_rep h cs fl" and sz: "unat sz \<le> 2 ^ 64 - 64"
  shows "find_free (kmem h) (alloc_size sz) (freelist_head h) =
    (case find (\<lambda>s. fits (units sz) (size_at 0 cs s)) fl of
       None \<Rightarrow> Some (0, 0) | Some s \<Rightarrow> Some (A s, 8 * of_nat (size_at 0 cs s)))"
  unfolding alloc_size_units(1) [OF sz]
  using rep [unfolded heap_rep_def] msz_size_at [of "cells (kmem h)" 0 False cs]
    sep4D(2) [OF heap_rep_sep4 [OF rep]] alloc_size_units(2) [OF sz]
  by (intro find_free_seg) auto

lemma take_frame:
  assumes "lay (cells (kmem h)) 0 False (xs @ (n, True) # ys)" "tot (xs @ (n, True) # ys) = NCELLS"
    "seg (cells (kmem h)) 0 (freelist_head h) gl 0"
    "sep4 gl" "set gl = set (fs 0 xs) \<union> set (fs (tot xs + n) ys)" "4 \<le> k" "fits k n"
  defines "h' \<equiv> kmalloc_take h (A (tot xs)) (8 * of_nat n) (8 * of_nat k)"
  shows "outside_eq (kmem h) (kmem h')"
    and "j \<in> owned 0 (xs @ (n, True) # ys) \<Longrightarrow> cells (kmem h') j = cells (kmem h) j"
proof -
  have gl: "set gl \<subseteq> set (fs 0 xs) \<union> set (fs (tot xs + n) ys)" using assms(5) by simp
  note exact = kmalloc_take_exact(3,4) [OF assms(1,2)]
    and split = kmalloc_take_split(3,4) [OF assms(1,2,6) _ assms(4) gl assms(3)]
  show "outside_eq (kmem h) (kmem h')"
    using exact(1) split(1) assms(7) by (auto simp: h'_def fits_def)
  assume j: "j \<in> owned 0 (xs @ (n, True) # ys)"
  then have "j < tot xs \<or> tot xs + n < j"
    using owned_bounds [of j 0 xs] owned_bounds [of j "tot xs + n" ys] by (auto simp: owned_append)
  moreover have "j \<notin> links gl"
    using owned_links [OF lay_big [OF assms(1)] j] assms(5) by (fastforce simp: links_def fs_append)
  ultimately show "cells (kmem h') j = cells (kmem h) j"
    using exact(2) [of j] split(2) [of j] assms(7) by (force simp: h'_def fits_def links_def)
qed

lemma kmalloc_refines_alloc:
  assumes rep: "heap_rep h cs fl" and sz: "unat sz \<le> 2 ^ 64 - 64"
    and sp: "spec_kmalloc (units sz) cs fl = Some (s, cs', fl')"
  shows "\<exists>h'. kmalloc h sz = Some (Inr (A s + 8, h')) \<and> heap_rep h' cs' fl' \<and>
     outside_eq (kmem h) (kmem h') \<and> (\<forall>j\<in>owned 0 cs. cells (kmem h') j = cells (kmem h) j)"
proof -
  let ?k = "units sz"
  note rp = rep [unfolded heap_rep_def]
  have fit: "find (\<lambda>s. fits ?k (size_at 0 cs s)) fl = Some s"
    using sp by (auto simp: spec_kmalloc_def split: option.splits)
  then obtain us vs where fl: "fl = us @ s # vs" and fits: "fits ?k (size_at 0 cs s)"
    by (metis find_Some_iff in_set_conv_decomp nth_mem)
  have "s \<in> set (fs 0 cs)" using fl rp by auto
  then obtain xs n ys where cs: "cs = xs @ (n, True) # ys" and s: "s = tot xs"
    using fs_decomp [of s 0 cs] by auto
  have bx: "big xs" using heap_rep_big [OF rep] cs by simp
  have n: "size_at 0 cs s = n" using size_at_decomp [OF bx, of 0] by (simp add: cs s)
  have k: "4 \<le> ?k" by (simp add: units_def)
  have sep: "sep4 (us @ s # vs)" using heap_rep_sep4 [OF rep] fl by simp
  obtain h1 where h1: "freelist_remove_node h (A s) = Inr h1"
      "lay (cells (kmem h1)) 0 False cs" "seg (cells (kmem h1)) 0 (freelist_head h1) (us @ vs) 0"
      "sep4 (us @ vs)" "set (us @ vs) = set (fs 0 xs) \<union> set (fs (s + n) ys)"
      "\<And>j. j \<notin> links (us @ vs) \<Longrightarrow> cells (kmem h1) j = cells (kmem h) j" "outside_eq (kmem h) (kmem h1)"
    by (rule heap_rep_remove [OF rep fl cs s]) (rule that)
  let ?h' = "kmalloc_take h1 (A s) (8 * of_nat n) (8 * of_nat ?k)"
  have km: "kmalloc h sz = Some (Inr (A s + 8, ?h'))"
    using find_free_rep [OF rep sz] fit n h1(1) sep4D(2) [OF sep, of s]
    by (simp add: kmalloc_def Let_def alloc_size_units(1) [OF sz] sizeof_alloc_hdr_t_def)
  have "s \<notin> set us" using sep4_distinct [OF sep] by simp
  then have "cs' = (if n = ?k then xs @ (n, False) # ys else xs @ (?k, False) # (n - ?k, True) # ys)"
    and "fl' = (if n = ?k then us @ vs else (s + ?k) # us @ vs)"
    using sp fit n carve_decomp [OF bx, of ?k 0 n True ys] by (auto simp: spec_kmalloc_def cs s fl remove1_append)
  then have rep': "heap_rep ?h' cs' fl'"
    using alloc_exact_rep [of h1 xs n ys "us @ vs"] alloc_split_rep [of h1 xs n ys "us @ vs" ?k] h1 rp cs s k fits n
    by (auto simp: fits_def)
  note frame = take_frame [of h1 xs n ys "us @ vs" ?k, folded cs s, OF h1(2) _ h1(3,4) _ k]
  have "cells (kmem ?h') j = cells (kmem h) j" if j: "j \<in> owned 0 cs" for j
  proof -
    have "j \<notin> links (us @ vs)"
      using owned_links [OF heap_rep_big [OF rep] j] rp fl by (fastforce simp: links_def)
    then show ?thesis using frame(2) [of j] j rp h1 fits n by simp
  qed
  moreover have "outside_eq (kmem h) (kmem ?h')"
    using outside_eq_trans [OF h1(7) frame(1)] h1(5) rp fits n by simp
  ultimately show ?thesis using km rep' by blast
qed

lemma kmalloc_refines_oom:
  assumes rep: "heap_rep h cs fl" and sz: "unat sz \<le> 2 ^ 64 - 64"
    and sp: "spec_kmalloc (units sz) cs fl = None"
  shows "kmalloc h sz = Some (Inl (KPanic ''Kheap out of memory''))"
proof -
  have "find (\<lambda>s. fits (units sz) (size_at 0 cs s)) fl = None"
    using sp by (auto simp: spec_kmalloc_def split: option.splits)
  then show ?thesis using find_free_rep [OF rep sz] by (simp add: kmalloc_def Let_def)
qed

end
