(* ===== verification/Kmalloc_Free.thy ===== *)
theory Kmalloc_Free
  imports Kmalloc_Alloc
begin

text \<open>
  The coalescing specification of a free on chunk lists and the proof that \<open>kfree\<close> implements
  it in each of its four cases.
\<close>

fun split_chunk :: "nat \<Rightarrow> nat \<Rightarrow> chunks \<Rightarrow> (chunks \<times> nat \<times> bool \<times> chunks) option" where
  "split_chunk s i [] = None"
| "split_chunk s i ((n, fr) # cs) =
     (if s = i then Some ([], n, fr, cs)
      else map_option (\<lambda>(xs, r). ((n, fr) # xs, r)) (split_chunk s (i + n) cs))"

definition spec_kfree :: "nat \<Rightarrow> chunks \<Rightarrow> nat list \<Rightarrow> (chunks \<times> nat list) option" where
  "spec_kfree s cs fl =
     (case split_chunk s 0 cs of
        None \<Rightarrow> None
      | Some (xs, n, fr, ys) \<Rightarrow>
          if fr then None
          else let pfree = lastfree False xs; nfree = (ys \<noteq> [] \<and> snd (hd ys)) in
            Some (if \<not> pfree \<and> \<not> nfree then (xs @ (n, True) # ys, s # fl)
                  else if pfree \<and> \<not> nfree then (butlast xs @ (fst (last xs) + n, True) # ys, fl)
                  else if \<not> pfree \<and> nfree then
                    (xs @ (n + fst (hd ys), True) # tl ys, s # remove1 (s + n) fl)
                  else (butlast xs @ (fst (last xs) + n + fst (hd ys), True) # tl ys, remove1 (s + n) fl)))"

lemma split_chunk_Some:
  "split_chunk s i cs = Some (xs, n, fr, ys) \<Longrightarrow> cs = xs @ (n, fr) # ys \<and> s = i + tot xs"
proof (induction cs arbitrary: i xs)
  case (Cons c cs)
  obtain k b where c: "c = (k, b)" by force
  show ?case
  proof (cases "s = i")
    case False
    with Cons.prems c obtain zs where "split_chunk s (i + k) cs = Some (zs, n, fr, ys)" "xs = (k, b) # zs"
      by auto
    then show ?thesis using Cons.IH [of "i + k" zs] c by simp
  qed (use Cons.prems c in auto)
qed simp

lemma split_chunk_decomp: "big xs \<Longrightarrow> split_chunk (i + tot xs) i (xs @ (n, fr) # ys) = Some (xs, n, fr, ys)"
proof (induction xs arbitrary: i)
  case (Cons x xs)
  then show ?case using Cons.IH [of "i + fst x"] by (cases x) (auto simp: add.assoc)
qed simp

lemma sep4_fs: "big cs \<Longrightarrow> tot cs = NCELLS \<Longrightarrow> distinct fl \<Longrightarrow> set fl \<subseteq> set (fs 0 cs) \<Longrightarrow> sep4 fl"
  using fs_bounds [of cs _ 0] fs_sep [of cs _ 0] by (auto simp: sep4_def subset_iff)

lemma owned_not_link:
  assumes "big (xs @ (n, True) # ys)" "set fl \<subseteq> set (fs 0 (xs @ (n, True) # ys))"
    "j \<in> owned 0 (xs @ (n, True) # ys)"
  shows "j \<notin> links fl" "j < tot xs \<or> tot xs + n < j"
proof -
  show "j \<notin> links fl" using owned_links [OF assms(1,3)] assms(2) by (fastforce simp: links_def)
  show "j < tot xs \<or> tot xs + n < j"
    using assms(3) owned_bounds [of j 0 xs] owned_bounds [of j "tot xs + n" ys] by (auto simp: owned_append)
qed

lemma fp_head: "ys \<noteq> [] \<Longrightarrow> i \<in> fp i ys"
  by (cases ys) auto

lemma finish_free:
  fixes h' :: kheap
  defines "c' \<equiv> cells (kmem h')"
  assumes xs: "lay c 0 False xs" and ys: "lay c (tot xs + n) pf ys"
    and cs': "tot (xs @ (n, True) # ys) = NCELLS" "no_adj (xs @ (n, True) # ys)"
      "distinct fl'" "set fl' = set (fs 0 (xs @ (n, True) # ys))"
    and seg: "seg c' 0 (freelist_head h') fl' 0"
    and hd: "4 \<le> n" "hdr_ok c' (tot xs) n True (lastfree False xs)" "c' (tot xs + n - 1) = 8 * of_nat n"
    and nx: "ys \<noteq> [] \<Longrightarrow> msz (c' (tot xs + n)) = msz (c (tot xs + n)) \<and>
      bit (c' (tot xs + n)) 0 = bit (c (tot xs + n)) 0 \<and> bit (c' (tot xs + n)) 1"
    and fr: "\<And>j. j \<notin> links fl' \<Longrightarrow> j < tot xs \<or> tot xs + n < j \<Longrightarrow> c' j = c j"
  shows "heap_rep h' (xs @ (n, True) # ys) fl'"
    and "\<forall>j\<in>owned 0 (xs @ (n, True) # ys). c' j = c j"
proof -
  have big: "big (xs @ (n, True) # ys)" "big xs" "big ys" using lay_big [OF xs] lay_big [OF ys] hd by simp_all
  have nl: "j \<notin> links fl'" if "j \<in> fp 0 (xs @ (n, True) # ys)" for j
    using links_fp_disjoint [OF big(1) _ that] cs'(4) by simp
  have "lay c' 0 False xs = lay c 0 False xs"
  proof (rule lay_cong, rule fr)
    show "j \<notin> links fl'" "j < tot xs \<or> tot xs + n < j" if "j \<in> fp 0 xs" for j
      using that nl [of j] fp_bounds [OF big(2) that] by (auto simp: fp_append)
  qed
  moreover have "lay c' (tot xs + n) True ys"
  proof (cases "ys = []")
    case False
    show ?thesis
    proof (rule lay_head [OF ys])
      show "c' j = c j" if "j \<in> fp (tot xs + n) ys" "j \<noteq> tot xs + n" for j
        using that nl [of j] fp_bounds [OF big(3) that(1)] by (intro fr) (auto simp: fp_append)
    qed (use nx False in auto)
  qed simp
  ultimately show "heap_rep h' (xs @ (n, True) # ys) fl'"
    using assms by (simp add: heap_rep_def lay_append)
  show "\<forall>j\<in>owned 0 (xs @ (n, True) # ys). c' j = c j"
    using owned_not_link [OF big(1), of fl'] cs'(4) by (intro ballI fr) auto
qed

lemma links_Cons: "links (s # fl) = {Suc s, Suc (Suc s)} \<union> links fl"
  by (auto simp: links_def)

lemma seg_upd: "j \<notin> links fl \<Longrightarrow> seg (c(j := v)) q p fl e = seg c q p fl e"
  by (rule seg_cong) (auto simp: links_def)

lemma finish_merge:
  fixes h' :: kheap
  defines "c' \<equiv> cells (kmem h')"
  assumes xs: "lay c 0 False xs" and ys: "lay c (tot xs + n) True ys"
    and cs': "tot (xs @ (n, True) # ys) = NCELLS" "no_adj (xs @ (n, True) # ys)"
      "distinct fl'" "set fl' = set (fs 0 (xs @ (n, True) # ys))"
    and seg: "seg c' 0 (freelist_head h') fl' 0" and n: "4 \<le> n"
    and w: "msz w = 8 * of_nat n" "bit w 0" "bit w 1 = lastfree False xs"
    and c': "\<And>j. j \<notin> links fl' \<Longrightarrow> c' j = (c(tot xs := w, tot xs + n - 1 := 8 * of_nat n)) j"
  shows "heap_rep h' (xs @ (n, True) # ys) fl'" and "\<forall>j\<in>owned 0 (xs @ (n, True) # ys). c' j = c j"
proof -
  let ?s = "tot xs" and ?cs' = "xs @ (n, True) # ys"
  have big: "big ?cs'" using lay_big [OF xs] lay_big [OF ys] n by simp
  have nl: "j \<notin> links fl'" if "j \<in> fp 0 ?cs'" for j
    using links_fp_disjoint [OF big _ that] cs'(4) by simp
  have "?s \<in> fp 0 ?cs'" "?s + n - 1 \<in> fp 0 ?cs'" "ys \<noteq> [] \<Longrightarrow> ?s + n \<in> fp 0 ?cs'"
    by (auto simp: fp_append neq_Nil_conv)
  note nl3 = this [THEN nl]
  have ne: "?s \<noteq> ?s + n - Suc 0" "?s + n \<noteq> ?s + n - Suc 0" "?s + n \<noteq> ?s" using n by linarith+
  have hd: "hdr_ok c' ?s n True (lastfree False xs)"
    using w c' [OF nl3(1)] ne by (simp add: hdr_ok_def)
  have ft: "c' (?s + n - 1) = 8 * of_nat n" using c' [OF nl3(2)] by simp
  have nx: "msz (c' (?s + n)) = msz (c (?s + n)) \<and> bit (c' (?s + n)) 0 = bit (c (?s + n)) 0 \<and> bit (c' (?s + n)) 1"
    if "ys \<noteq> []"
    using ys that c' [OF nl3(3) [OF that]] ne by (cases ys) (auto simp: hdr_ok_def)
  have fr: "c' j = c j" if "j \<notin> links fl'" "j < ?s \<or> ?s + n < j" for j
  proof -
    have "j \<noteq> ?s" "j \<noteq> ?s + n - Suc 0" using that(2) n by linarith+
    then show ?thesis using c' [OF that(1)] by simp
  qed
  note fin = finish_free [of c xs n True ys fl' h', folded c'_def, OF xs ys cs' seg n hd ft nx fr]
  show "heap_rep h' ?cs' fl'" "\<forall>j\<in>owned 0 ?cs'. c' j = c j" by (rule fin; assumption)+
qed

lemma alloc_chunk_flags:
  assumes rep: "heap_rep h (xs @ (n, False) # ys) fl"
  defines "s \<equiv> tot xs" and "m \<equiv> kmem h"
  shows "s + n \<le> NCELLS" "4 \<le> n" "s + n < NCELLS \<longleftrightarrow> ys \<noteq> []"
    "get_sz m (A s) = 8 * of_nat n" "\<not> get_flag m (A s) (ucast FLAG_IS_FREE)"
    "get_flag m (A s) (ucast FLAG_IS_PREV_FREE) = lastfree False xs"
    "is_in_heap_bounds (A (s + n)) \<and> get_flag m (A (s + n)) (ucast FLAG_IS_FREE) \<longleftrightarrow> ys \<noteq> [] \<and> snd (hd ys)"
    "is_in_heap_bounds (A s + 8)" "A s + 8 - sizeof_alloc_hdr_t = A s" "A s + 8 * of_nat n = A (s + n)"
    "s < NCELLS"
proof -
  note rp = rep [unfolded heap_rep_def]
  have big: "big xs" "4 \<le> n" "big ys" using heap_rep_big [OF rep] by simp_all
  show N: "s + n \<le> NCELLS" "4 \<le> n" "s + n < NCELLS \<longleftrightarrow> ys \<noteq> []" "s < NCELLS"
    using rp big by (auto simp: s_def, cases ys) auto
  have "hdr_ok (cells m) s n False (lastfree False xs)" "lay (cells m) (s + n) False ys"
    using rp by (simp_all add: lay_append s_def m_def)
  then show "get_sz m (A s) = 8 * of_nat n" "\<not> get_flag m (A s) (ucast FLAG_IS_FREE)"
      "get_flag m (A s) (ucast FLAG_IS_PREV_FREE) = lastfree False xs"
      "is_in_heap_bounds (A (s + n)) \<and> get_flag m (A (s + n)) (ucast FLAG_IS_FREE) \<longleftrightarrow> ys \<noteq> [] \<and> snd (hd ys)"
    using N by (auto simp: get_sz_A get_flag_A hdr_ok_def A_bounds neq_Nil_conv)
  show "is_in_heap_bounds (A s + 8)" using N by (simp add: A_fields A_bounds)
  show "A s + 8 - sizeof_alloc_hdr_t = A s" by (simp add: sizeof_alloc_hdr_t_def)
  show "A s + 8 * of_nat n = A (s + n)" by (rule A_add)
qed


lemma place_footer_A:
  "4 \<le> n \<Longrightarrow> place_footer m (A s) (8 * of_nat n) = st64 m (A (s + n - 1)) (8 * of_nat n)"
  using A_sub [of 1 "s + n"] by (simp add: place_footer_def A_add sizeof_free_footer_t_def)

lemma cells_mark_next: "i \<le> NCELLS \<Longrightarrow>
    cells (mark_next_prev_free m (A i)) = (if i < NCELLS then (cells m)(i := cells m i OR 2) else cells m)"
  by (simp add: mark_next_prev_free_def A_bounds cells_set_flag flag_simps)

lemma outside_mark_next [simp]: "i \<le> NCELLS \<Longrightarrow> outside_eq m m' \<Longrightarrow> outside_eq m (mark_next_prev_free m' (A i))"
  by (simp add: mark_next_prev_free_def A_bounds)

lemma kfree_eqs:
  assumes rep: "heap_rep h (xs @ (n, False) # ys) fl"
  defines "s \<equiv> tot xs" and "m \<equiv> kmem h" and "pf \<equiv> lastfree False xs" and "nf \<equiv> ys \<noteq> [] \<and> snd (hd ys)"
  defines "prev \<equiv> A s - ld64 m (A s - sizeof_free_footer_t)"
  defines "psz \<equiv> get_sz m prev" and "nsz \<equiv> get_sz m (A (s + n))"
  shows "\<not> pf \<Longrightarrow> \<not> nf \<Longrightarrow> kfree h (A s + 8) =
      Inr (let h2 = freelist_add_node (h\<lparr>kmem := set_flag (place_footer m (A s) (8 * of_nat n)) (A s)
              (ucast FLAG_IS_FREE)\<rparr>) (A s)
           in h2\<lparr>kmem := mark_next_prev_free (kmem h2) (A (s + n))\<rparr>)"
    and "pf \<Longrightarrow> \<not> nf \<Longrightarrow> kfree h (A s + 8) =
      Inr (h\<lparr>kmem := mark_next_prev_free (place_footer (set_sz m prev (psz + 8 * of_nat n)) prev
              (psz + 8 * of_nat n)) (A (s + n))\<rparr>)"
    and "\<not> pf \<Longrightarrow> nf \<Longrightarrow> kfree h (A s + 8) =
      kbind (freelist_remove_node (h\<lparr>kmem := place_footer (set_sz m (A s) (8 * of_nat n + nsz)) (A s)
              (8 * of_nat n + nsz)\<rparr>) (A (s + n)))
        (\<lambda>h3. Inr (freelist_add_node (h3\<lparr>kmem := set_flag (kmem h3) (A s) (ucast FLAG_IS_FREE)\<rparr>) (A s)))"
    and "pf \<Longrightarrow> nf \<Longrightarrow> kfree h (A s + 8) =
      freelist_remove_node (h\<lparr>kmem := place_footer (set_sz m prev (psz + 8 * of_nat n + nsz)) prev
              (psz + 8 * of_nat n + nsz)\<rparr>) (A (s + n))"
  using alloc_chunk_flags [OF rep, folded s_def m_def pf_def nf_def]
  by (simp_all only: kfree_def kassert_def Let_def kbind.simps not_True_eq_False not_False_eq_True if_True if_False
      simp_thms prev_def psz_def nsz_def m_def [symmetric])

lemma kfree_plain:
  assumes rep: "heap_rep h (xs @ (n, False) # ys) fl" and pf: "\<not> lastfree False xs" and nf: "\<not> (ys \<noteq> [] \<and> snd (hd ys))"
  defines "s \<equiv> tot xs"
  shows "\<exists>h'. kfree h (A s + 8) = Inr h' \<and> heap_rep h' (xs @ (n, True) # ys) (s # fl) \<and>
    outside_eq (kmem h) (kmem h') \<and> 
    (\<forall>j\<in>owned 0 (xs @ (n, True) # ys). cells (kmem h') j = cells (kmem h) j)"
proof -
  let ?c = "cells (kmem h)" and ?cs' = "xs @ (n, True) # ys"
  note rp = rep [unfolded heap_rep_def] and fl = alloc_chunk_flags [OF rep, folded s_def]
  have big: "big xs" "big ys" "big ?cs'" using heap_rep_big [OF rep] by simp_all
  have st: "set (s # fl) = set (fs 0 ?cs')" and di: "distinct (s # fl)"
    using rp fs_distinct [OF big(3), of 0] by (auto simp: fs_append s_def)
  have N': "tot ?cs' = NCELLS" using rp by simp
  have sep: "sep4 (s # fl)" by (rule sep4_fs [OF big(3) N' di equalityD1 [OF st]])
  define m2 where "m2 = set_flag (st64 (kmem h) (A (s + n - 1)) (8 * of_nat n)) (A s) (ucast FLAG_IS_FREE)"
  define h2 where "h2 = freelist_add_node (h\<lparr>kmem := m2\<rparr>) (A s)"
  define h' where "h' = h2\<lparr>kmem := mark_next_prev_free (kmem h2) (A (s + n))\<rparr>"
  have kf: "kfree h (A s + 8) = Inr h'"
    using kfree_eqs(1) [OF rep pf nf] fl(2) by (simp add: place_footer_A m2_def h2_def h'_def s_def Let_def)
  have ne: "s \<noteq> s + n - Suc 0" "s + n \<noteq> s + n - Suc 0" using fl(2) by linarith+
  then have c2: "cells m2 = ?c(s + n - 1 := 8 * of_nat n, s := ?c s OR 1)"
    using fl(1,2,11) by (simp add: m2_def cells_st64 cells_set_flag flag_simps)
  have nl: "j \<notin> links (s # fl)" if "j \<in> fp 0 ?cs'" for j
    using links_fp_disjoint [OF big(3) _ that] st by simp
  have "s \<in> fp 0 ?cs'" "s + n - 1 \<in> fp 0 ?cs'" "s + n < NCELLS \<Longrightarrow> s + n \<in> fp 0 ?cs'"
    using fl(3) by (auto simp: fp_append s_def neq_Nil_conv)
  note nl3 = this [THEN nl]
  have "seg (cells m2) 0 (freelist_head h) fl 0 = seg ?c 0 (freelist_head h) fl 0"
    using nl3 by (simp add: c2 seg_upd links_Cons)
  then have "seg (cells (kmem (h\<lparr>kmem := m2\<rparr>))) 0 (freelist_head (h\<lparr>kmem := m2\<rparr>)) fl 0" using rp by simp
  note add = freelist_add_node_seg [OF this sep, folded h2_def, simplified]
  have c': "cells (kmem h') = (if s + n < NCELLS then (cells (kmem h2))(s + n := ?c (s + n) OR 2) else cells (kmem h2))"
    using fl(1,2) add(2) nl3 ne by (simp add: h'_def cells_mark_next c2)
  have c'': "cells (kmem h') s = ?c s OR 1" "cells (kmem h') (s + n - 1) = 8 * of_nat n"
    using add(2) nl3 fl(2) ne by (simp_all add: c' c2)
  have "seg (cells (kmem h')) 0 (freelist_head h') (s # fl) 0 = seg (cells (kmem h2)) 0 (freelist_head h') (s # fl) 0"
    using nl3(3) by (cases "s + n < NCELLS") (simp_all add: c' seg_upd del: seg.simps)
  then have sg: "seg (cells (kmem h')) 0 (freelist_head h') (s # fl) 0" using add(1) by (simp add: h'_def)
  have ly: "lay ?c 0 False xs" "lay ?c (s + n) False ys" "hdr_ok ?c s n False False"
    using rp pf by (simp_all add: lay_append s_def)
  have hd: "hdr_ok (cells (kmem h')) s n True (lastfree False xs)"
    using ly(3) pf by (simp add: hdr_ok_def c'')
  have nx: "msz (cells (kmem h') (s + n)) = msz (?c (s + n)) \<and>
      bit (cells (kmem h') (s + n)) 0 = bit (?c (s + n)) 0 \<and> bit (cells (kmem h') (s + n)) 1" if "ys \<noteq> []"
    using fl(3) that by (simp add: c')
  have fr: "cells (kmem h') j = ?c j" if "j \<notin> links (s # fl)" "j < s \<or> s + n < j" for j
  proof -
    have "j \<noteq> s" "j \<noteq> s + n" "j \<noteq> s + n - Suc 0" using that(2) fl(2) by linarith+
    then show ?thesis using add(2) [OF that(1)] by (simp add: c' c2)
  qed
  have na: "no_adj ?cs'" using rp pf nf by (simp add: no_adj_decomp)
  note fin = finish_free [of ?c xs n False ys "s # fl" h', folded s_def, OF ly(1,2) N' na di st sg fl(2) hd c''(2) nx fr]
  have "outside_eq (kmem h) m2" using fl(1,2,11) by (simp add: m2_def outside_st64_step)
  then have "outside_eq (kmem h) (kmem h')"
    using add(3) outside_eq_trans fl(1) by (auto simp: h'_def)
  then show ?thesis using kf fin by blast
qed

lemma no_adj_simps [simp]: "no_adj []" "no_adj ((n, False) # ys) = no_adj ys"
  by (auto simp: no_adj_def successively_Cons)

lemma kfree_prev:
  assumes rep: "heap_rep h (xs @ (p, True) # (n, False) # ys) fl" and nf: "\<not> (ys \<noteq> [] \<and> snd (hd ys))"
  defines "s \<equiv> tot xs" and "cs' \<equiv> xs @ (p + n, True) # ys"
  shows "\<exists>h'. kfree h (A (s + p) + 8) = Inr h' \<and> heap_rep h' cs' fl \<and>
    outside_eq (kmem h) (kmem h') \<and> (\<forall>j\<in>owned 0 cs'. cells (kmem h') j = cells (kmem h) j)"
proof -
  let ?c = "cells (kmem h)" and ?n = "p + n"
  note rp = rep [unfolded heap_rep_def]
  have rep2: "heap_rep h ((xs @ [(p, True)]) @ (n, False) # ys) fl" using rep by simp
  note fl = alloc_chunk_flags [OF rep2, simplified, folded s_def]
  have big: "4 \<le> p" "big cs'" using heap_rep_big [OF rep] fl(2) by (simp_all add: cs'_def)
  have ly: "lay ?c 0 False xs" "lay ?c (s + ?n) False ys" "hdr_ok ?c s p True (lastfree False xs)"
      "?c (s + p - 1) = 8 * of_nat p" and na: "no_adj cs'" and N': "tot cs' = NCELLS"
    using rp fl(2) nf by (auto simp: lay_append s_def cs'_def no_adj_decomp lastfree_def add.assoc)
  have st: "set fl = set (fs 0 cs')" using rp by (simp add: fs_append cs'_def add.assoc)
  have pr: "A (s + p) - ld64 (kmem h) (A (s + p) - sizeof_free_footer_t) = A s"
    using A_sub [of 1 "s + p"] A_sub [of p "s + p"] big(1) ly(4) fl(1,2) ld64_A [of "s + p - 1" "kmem h"]
    by (simp add: sizeof_free_footer_t_def)
  have ps: "get_sz (kmem h) (A s) = 8 * of_nat p" using ly(3) fl(1,2) by (simp add: get_sz_A hdr_ok_def)
  define m1 where "m1 = st64 (set_sz (kmem h) (A s) (8 * of_nat ?n)) (A (s + ?n - 1)) (8 * of_nat ?n)"
  define h' where "h' = h\<lparr>kmem := mark_next_prev_free m1 (A (s + ?n))\<rparr>"
  have kf: "kfree h (A (s + p) + 8) = Inr h'"
    using kfree_eqs(2) [OF rep2 _ nf] place_footer_A [of ?n _ s] fl(2) pr ps
    by (simp add: m1_def h'_def s_def Let_def lastfree_def distrib_left add.assoc)
  have ne: "s \<noteq> s + ?n - Suc 0" "s + ?n \<noteq> s + ?n - Suc 0" "s \<noteq> s + ?n" using fl(2) by linarith+
  have c1: "cells m1 = ?c(s := wsz (?c s) (8 * of_nat ?n), s + ?n - 1 := 8 * of_nat ?n)"
    using fl(1,2) by (simp add: m1_def cells_st64 cells_set_sz del: of_nat_add)
  have c': "cells (kmem h') = (if s + ?n < NCELLS then (cells m1)(s + ?n := ?c (s + ?n) OR 2) else cells m1)"
    using fl(1,2) ne by (simp add: h'_def cells_mark_next c1 add.assoc del: of_nat_add)
  have c'': "cells (kmem h') s = wsz (?c s) (8 * of_nat ?n)" "cells (kmem h') (s + ?n - 1) = 8 * of_nat ?n"
    using ne fl(2) by (simp_all add: c' c1 del: of_nat_add)
  have nl: "j \<notin> links fl" if "j \<in> fp 0 cs'" for j
    using links_fp_disjoint [OF big(2) _ that] st by simp
  have nl3: "s \<in> fp 0 cs'" "s + ?n - 1 \<in> fp 0 cs'" "s + ?n < NCELLS \<Longrightarrow> s + ?n \<in> fp 0 cs'"
    using fl(3) by (auto simp: fp_append s_def cs'_def neq_Nil_conv add.assoc)
  have sg: "seg (cells (kmem h')) 0 (freelist_head h') fl 0"
  proof -
    have "seg (cells (kmem h')) 0 (freelist_head h) fl 0"
      using rp nl3 [THEN nl] by (cases "s + ?n < NCELLS") (simp_all add: c' c1 seg_upd del: of_nat_add)
    then show ?thesis by (simp add: h'_def)
  qed
  have hd: "hdr_ok (cells (kmem h')) s ?n True (lastfree False xs)"
    using ly(3) by (simp add: hdr_ok_def c'' msz_wsz del: of_nat_add)
  have nx: "msz (cells (kmem h') (s + ?n)) = msz (?c (s + ?n)) \<and>
      bit (cells (kmem h') (s + ?n)) 0 = bit (?c (s + ?n)) 0 \<and> bit (cells (kmem h') (s + ?n)) 1" if "ys \<noteq> []"
    using fl(3) that by (simp add: c' add.assoc)
  have fr: "cells (kmem h') j = ?c j" if "j \<notin> links fl" "j < s \<or> s + ?n < j" for j
  proof -
    have "j \<noteq> s" "j \<noteq> s + ?n" "j \<noteq> s + ?n - Suc 0" using that(2) fl(2) by linarith+
    then show ?thesis by (simp add: c' c1)
  qed
  have di: "distinct fl" and n4: "4 \<le> ?n" using rp fl(2) by simp_all
  note fin = finish_free [of ?c xs ?n False ys fl h', folded s_def cs'_def, OF ly(1,2) N' na di st sg n4 hd c''(2) nx fr]
  have "outside_eq (kmem h) (kmem h')"
    using fl(1,2) by (simp add: h'_def m1_def outside_st64_step add.assoc del: of_nat_add)
  then show ?thesis using kf fin by blast
qed

lemma free_mem_decomp:
  assumes rep: "heap_rep h (xs @ (n, True) # ys) fl"
  obtains us vs where "fl = us @ tot xs # vs" "set (us @ vs) = set (fs 0 xs) \<union> set (fs (tot xs + n) ys)"
    "remove1 (tot xs) fl = us @ vs" "distinct (us @ vs)"
proof -
  have "tot xs \<in> set fl" using rep by (simp add: heap_rep_def fs_append)
  then obtain us vs where fl: "fl = us @ tot xs # vs" by (meson split_list)
  have "distinct (us @ tot xs # vs)" "distinct (fs 0 (xs @ (n, True) # ys))"
    and eq: "set (us @ tot xs # vs) = set (fs 0 xs @ tot xs # fs (tot xs + n) ys)"
    using rep fl fs_distinct [OF heap_rep_big [OF rep], of 0] by (simp_all add: heap_rep_def fs_append)
  then have "set (us @ vs) = set (fs 0 xs) \<union> set (fs (tot xs + n) ys)" "remove1 (tot xs) fl = us @ vs"
    "distinct (us @ vs)"
    using insert_ident [of "tot xs" "set (us @ vs)" "set (fs 0 xs) \<union> set (fs (tot xs + n) ys)"]
    by (simp_all add: fs_append fl remove1_append)
  then show thesis using that fl by blast
qed

lemma merge_next_remove:
  assumes rep: "heap_rep h (ws @ (q, True) # ys) fl" and N: "s + 4 \<le> tot ws" "s \<in> fp 0 ws"
  defines "e \<equiv> tot ws + q" and "m1 \<equiv> place_footer (set_sz (kmem h) (A s) (8 * of_nat (tot ws + q - s))) (A s) (8 * of_nat (tot ws + q - s))"
  obtains h3 where "freelist_remove_node (h\<lparr>kmem := m1\<rparr>) (A (tot ws)) = Inr h3"
    "seg (cells (kmem h3)) 0 (freelist_head h3) (remove1 (tot ws) fl) 0"
    "\<And>j. j \<notin> links (remove1 (tot ws) fl) \<Longrightarrow> cells (kmem h3) j =
       ((cells (kmem h))(s := wsz (cells (kmem h) s) (8 * of_nat (e - s)), e - 1 := 8 * of_nat (e - s))) j"
    "outside_eq (kmem h) (kmem h3)" "set (remove1 (tot ws) fl) = set (fs 0 ws) \<union> set (fs e ys)"
    "distinct (remove1 (tot ws) fl)"
proof -
  note rp = rep [unfolded heap_rep_def]
  obtain us vs where fl: "fl = us @ tot ws # vs" and st: "set (us @ vs) = set (fs 0 ws) \<union> set (fs e ys)"
      and rm: "remove1 (tot ws) fl = us @ vs" "distinct (us @ vs)"
    by (rule free_mem_decomp [OF rep]) (rule that, simp_all add: e_def)
  have b: "4 \<le> q" "e \<le> NCELLS" "s < NCELLS" "4 \<le> e - s" "s + (e - s) = e"
    using heap_rep_big [OF rep] rp N by (simp_all add: e_def)
  have m1: "m1 = st64 (set_sz (kmem h) (A s) (8 * of_nat (e - s))) (A (e - 1)) (8 * of_nat (e - s))"
    using place_footer_A [OF b(4), of _ s] b(5) by (simp add: m1_def e_def del: of_nat_diff)
  have c1: "cells m1 = (cells (kmem h))(s := wsz (cells (kmem h) s) (8 * of_nat (e - s)), e - 1 := 8 * of_nat (e - s))"
    using b by (simp add: m1 cells_st64 cells_set_sz del: of_nat_diff)
  have "s \<in> fp 0 (ws @ (q, True) # ys)" "e - 1 \<in> fp 0 (ws @ (q, True) # ys)"
    using N by (simp_all add: fp_append e_def)
  then have nl: "s \<notin> links fl" "e - 1 \<notin> links fl"
    using links_fp_disjoint [OF heap_rep_big [OF rep], of fl 0] rp by auto
  have "seg (cells (kmem (h\<lparr>kmem := m1\<rparr>))) 0 (freelist_head (h\<lparr>kmem := m1\<rparr>)) (us @ tot ws # vs) 0"
    using rp nl by (simp add: c1 seg_upd fl del: of_nat_diff)
  moreover have "sep4 (us @ tot ws # vs)" using heap_rep_sep4 [OF rep] fl by simp
  ultimately obtain h3 where h3: "freelist_remove_node (h\<lparr>kmem := m1\<rparr>) (A (tot ws)) = Inr h3"
    "seg (cells (kmem h3)) 0 (freelist_head h3) (us @ vs) 0"
    "\<And>j. j \<notin> links (us @ vs) \<Longrightarrow> cells (kmem h3) j = cells m1 j" "outside_eq m1 (kmem h3)"
    using freelist_remove_node_seg [of "h\<lparr>kmem := m1\<rparr>" us "tot ws" vs] by auto
  have "outside_eq (kmem h) m1" using b by (simp add: m1 outside_st64_step)
  then show thesis
    using that h3 st rm outside_eq_trans by (simp add: c1 rm del: of_nat_diff)
qed

lemma kfree_next:
  assumes rep: "heap_rep h (xs @ (n, False) # (q, True) # ys) fl" and pf: "\<not> lastfree False xs"
  defines "s \<equiv> tot xs" and "cs' \<equiv> xs @ (n + q, True) # ys" and "fl' \<equiv> tot xs # remove1 (tot xs + n) fl"
  shows "\<exists>h'. kfree h (A s + 8) = Inr h' \<and> heap_rep h' cs' fl' \<and>
    outside_eq (kmem h) (kmem h') \<and> (\<forall>j\<in>owned 0 cs'. cells (kmem h') j = cells (kmem h) j)"
proof -
  let ?c = "cells (kmem h)" and ?n = "n + q" and ?ws = "xs @ [(n, False)]"
  note rp = rep [unfolded heap_rep_def] and fl = alloc_chunk_flags [OF rep, folded s_def]
  have rep2: "heap_rep h (?ws @ (q, True) # ys) fl" using rep by simp
  have big: "4 \<le> q" "big cs'" using heap_rep_big [OF rep] by (simp_all add: cs'_def)
  have ly: "lay ?c 0 False xs" "lay ?c (s + ?n) True ys" "hdr_ok ?c s n False (lastfree False xs)"
      "hdr_ok ?c (s + n) q True False" and na: "no_adj cs'" and N': "tot cs' = NCELLS" and n4: "4 \<le> ?n"
    using rp fl(2) pf no_adj_decomp [of "[]" q True ys]
    by (simp_all add: lay_append s_def cs'_def no_adj_decomp add.assoc)
  have ns: "get_sz (kmem h) (A (s + n)) = 8 * of_nat q"
    using ly(4) N' big(1) by (simp add: get_sz_A hdr_ok_def cs'_def s_def)
  let ?c1 = "?c(s := wsz (?c s) (8 * of_nat ?n), s + ?n - 1 := 8 * of_nat ?n)"
  have "s + 4 \<le> tot ?ws" "s \<in> fp 0 ?ws" using fl(2) by (auto simp: s_def fp_append)
  then obtain h3 where h3: "freelist_remove_node (h\<lparr>kmem := place_footer (set_sz (kmem h) (A s) (8 * of_nat ?n))
        (A s) (8 * of_nat ?n)\<rparr>) (A (s + n)) = Inr h3"
      "seg (cells (kmem h3)) 0 (freelist_head h3) (remove1 (s + n) fl) 0"
      "\<And>j. j \<notin> links (remove1 (s + n) fl) \<Longrightarrow> cells (kmem h3) j = ?c1 j"
      "outside_eq (kmem h) (kmem h3)" "set (remove1 (s + n) fl) = set (fs 0 xs) \<union> set (fs (s + ?n) ys)"
      "distinct (remove1 (s + n) fl)"
    using merge_next_remove [OF rep2, of s]
    by (auto simp: s_def [symmetric] fs_append add.assoc simp del: of_nat_add)
  define m4 where "m4 = set_flag (kmem h3) (A s) (ucast FLAG_IS_FREE)"
  define h' where "h' = freelist_add_node (h3\<lparr>kmem := m4\<rparr>) (A s)"
  have kf: "kfree h (A s + 8) = Inr h'"
    using kfree_eqs(3) [OF rep pf] h3(1) ns
    by (simp add: s_def [symmetric] h'_def m4_def distrib_left)
  have st: "set fl' = set (fs 0 cs')" and di: "distinct fl'"
    using h3(5,6) fs_distinct [OF big(2), of 0] by (auto simp: fl'_def cs'_def s_def fs_append)
  have sep: "sep4 fl'" by (rule sep4_fs [OF big(2) N' di equalityD1 [OF st]])
  have nl: "j \<notin> links fl'" if "j \<in> fp 0 cs'" for j
    using links_fp_disjoint [OF big(2) _ that] st by simp
  have fl': "fl' = s # remove1 (s + n) fl" by (simp add: fl'_def s_def)
  have sub: "j \<notin> links (remove1 (s + n) fl)" if "j \<notin> links fl'" for j using that by (simp add: fl' links_Cons)
  have "s \<in> fp 0 cs'" by (simp add: fp_append s_def cs'_def)
  note nl3 = this [THEN nl]
  have c4: "cells m4 = (cells (kmem h3))(s := cells (kmem h3) s OR 1)"
    using fl(11) by (simp add: m4_def cells_set_flag flag_simps)
  have "seg (cells (kmem (h3\<lparr>kmem := m4\<rparr>))) 0 (freelist_head (h3\<lparr>kmem := m4\<rparr>)) (remove1 (s + n) fl) 0"
    using h3(2) sub [OF nl3] by (simp add: c4 seg_upd)
  note add = freelist_add_node_seg [OF this sep [unfolded fl'], folded h'_def fl', simplified]
  have "s \<noteq> s + ?n - Suc 0" using fl(2) by linarith
  then have c': "cells (kmem h') j = (?c(s := wsz (?c s) (8 * of_nat ?n) OR 1, s + ?n - 1 := 8 * of_nat ?n)) j"
    if "j \<notin> links fl'" for j
    using add(2) [OF that] h3(3) [OF sub [OF that]] by (cases "j = s") (simp_all add: c4 del: of_nat_add)
  note fin = finish_merge [of ?c xs ?n ys fl' h', folded s_def cs'_def, OF ly(1,2) N' na di st add(1) n4 _ _ _ c']
  have "heap_rep h' cs' fl'" "\<forall>j\<in>owned 0 cs'. cells (kmem h') j = ?c j"
    using ly(3) by (intro fin; simp add: hdr_ok_def msz_wsz bits_flags msz_flags del: of_nat_add)+
  moreover have "outside_eq (kmem h) m4" using h3(4) fl(11) by (simp add: m4_def)
  with add(3) have "outside_eq (kmem h) (kmem h')" by (rule outside_eq_trans [rotated])
  ultimately show ?thesis using kf by blast
qed

lemma kfree_both:
  assumes rep: "heap_rep h (xs @ (p, True) # (n, False) # (q, True) # ys) fl"
  defines "s \<equiv> tot xs" and "cs' \<equiv> xs @ (p + n + q, True) # ys" and "fl' \<equiv> remove1 (tot xs + p + n) fl"
  shows "\<exists>h'. kfree h (A (s + p) + 8) = Inr h' \<and> heap_rep h' cs' fl' \<and>
    outside_eq (kmem h) (kmem h') \<and> (\<forall>j\<in>owned 0 cs'. cells (kmem h') j = cells (kmem h) j)"
proof -
  let ?c = "cells (kmem h)" and ?n = "p + n + q" and ?ws = "xs @ [(p, True), (n, False)]"
  note rp = rep [unfolded heap_rep_def]
  have rep2: "heap_rep h ((xs @ [(p, True)]) @ (n, False) # (q, True) # ys) fl"
    and rep3: "heap_rep h (?ws @ (q, True) # ys) fl" using rep by simp_all
  note fl = alloc_chunk_flags [OF rep2, simplified, folded s_def]
  have big: "4 \<le> p" "4 \<le> q" "big cs'" using heap_rep_big [OF rep] fl(2) by (simp_all add: cs'_def)
  have ly: "lay ?c 0 False xs" "lay ?c (s + ?n) True ys" "hdr_ok ?c s p True (lastfree False xs)"
      "?c (s + p - 1) = 8 * of_nat p" "hdr_ok ?c (s + p + n) q True False"
    using rp by (simp_all add: lay_append s_def add.assoc)
  have na: "no_adj cs'" and N': "tot cs' = NCELLS" and n4: "4 \<le> ?n"
    using rp fl(2) no_adj_decomp [of "[]" q True ys] by (simp_all add: cs'_def no_adj_decomp)
  have pr: "A (s + p) - ld64 (kmem h) (A (s + p) - sizeof_free_footer_t) = A s"
    using A_sub [of 1 "s + p"] A_sub [of p "s + p"] big(1) ly(4) fl(1,2) ld64_A [of "s + p - 1" "kmem h"]
    by (simp add: sizeof_free_footer_t_def)
  have ps: "get_sz (kmem h) (A s) = 8 * of_nat p" "get_sz (kmem h) (A (s + p + n)) = 8 * of_nat q"
    using ly(3,5) fl(1,2) N' big(2) by (simp_all add: get_sz_A hdr_ok_def cs'_def s_def)
  have "s + 4 \<le> tot ?ws" "s \<in> fp 0 ?ws" using fl(2) by (auto simp: s_def fp_append)
  then obtain h' where h': "freelist_remove_node (h\<lparr>kmem := place_footer (set_sz (kmem h) (A s) (8 * of_nat ?n))
        (A s) (8 * of_nat ?n)\<rparr>) (A (s + p + n)) = Inr h'"
      "seg (cells (kmem h')) 0 (freelist_head h') fl' 0"
      "\<And>j. j \<notin> links fl' \<Longrightarrow> cells (kmem h') j = (?c(s := wsz (?c s) (8 * of_nat ?n), s + ?n - 1 := 8 * of_nat ?n)) j"
      "outside_eq (kmem h) (kmem h')" "set fl' = set (fs 0 cs')" "distinct fl'"
    using merge_next_remove [OF rep3, of s]
    by (auto simp: s_def [symmetric] fl'_def cs'_def fs_append add.assoc simp del: of_nat_add)
  have kf: "kfree h (A (s + p) + 8) = Inr h'"
    using kfree_eqs(4) [OF rep2] h'(1) pr ps
    by (simp add: s_def [symmetric] distrib_left lastfree_def)
  note fin = finish_merge [of ?c xs ?n ys fl' h', folded s_def cs'_def, OF ly(1,2) N' na h'(6,5,2) n4 _ _ _ h'(3)]
  have "heap_rep h' cs' fl'" "\<forall>j\<in>owned 0 cs'. cells (kmem h') j = ?c j"
    using ly(3) by (intro fin; simp add: hdr_ok_def msz_wsz del: of_nat_add)+
  then show ?thesis using kf h'(4) by blast
qed

lemma kfree_refines:
  assumes rep: "heap_rep h cs fl" and sp: "spec_kfree s cs fl = Some (cs', fl')"
  shows "\<exists>h'. kfree h (A s + 8) = Inr h' \<and> heap_rep h' cs' fl' \<and>
    outside_eq (kmem h) (kmem h') \<and> (\<forall>j\<in>owned 0 cs'. cells (kmem h') j = cells (kmem h) j)"
proof -
  obtain xs n ys where sc: "split_chunk s 0 cs = Some (xs, n, False, ys)"
    using sp by (auto simp: spec_kfree_def split: option.splits if_splits)
  then have cs: "cs = xs @ (n, False) # ys" and s: "s = tot xs" using split_chunk_Some [OF sc] by auto
  define pf nf where "pf = lastfree False xs" and "nf \<longleftrightarrow> ys \<noteq> [] \<and> snd (hd ys)"
  have res: "(cs', fl') = (if \<not> pf \<and> \<not> nf then (xs @ (n, True) # ys, s # fl)
      else if pf \<and> \<not> nf then (butlast xs @ (fst (last xs) + n, True) # ys, fl)
      else if \<not> pf \<and> nf then (xs @ (n + fst (hd ys), True) # tl ys, s # remove1 (s + n) fl)
      else (butlast xs @ (fst (last xs) + n + fst (hd ys), True) # tl ys, remove1 (s + n) fl))"
    using sp unfolding spec_kfree_def sc by (simp only: Let_def pf_def nf_def option.case prod.case if_False option.inject)
  have xs: "xs = butlast xs @ [(fst (last xs), True)]" if pf
    using that by (cases xs rule: rev_cases) (auto simp: pf_def lastfree_def)
  have ys: "ys = (fst (hd ys), True) # tl ys" if nf
    using that by (cases ys) (auto simp: nf_def)
  consider "\<not> pf" "\<not> nf" | "pf" "\<not> nf" | "\<not> pf" nf | pf nf by blast
  then show ?thesis
  proof cases
    case 1
    then show ?thesis using kfree_plain [of h xs n ys fl] rep res cs s by (simp add: pf_def nf_def)
  next
    case 2
    then obtain xs' p where x: "xs = xs' @ [(p, True)]" using xs by blast
    show ?thesis using kfree_prev [of h xs' p n ys fl] rep res cs s 2 by (simp add: x nf_def)
  next
    case 3
    then obtain ys' q where y: "ys = (q, True) # ys'" using ys by blast
    show ?thesis using kfree_next [of h xs n q ys' fl] rep res cs s 3 by (simp add: y pf_def)
  next
    case 4
    then obtain xs' p ys' q where xy: "xs = xs' @ [(p, True)]" "ys = (q, True) # ys'" using xs ys by blast
    show ?thesis using kfree_both [of h xs' p n q ys' fl] rep res cs s 4 by (simp add: xy)
  qed
qed

lemma kfree_out_of_bounds:
  "\<not> is_in_heap_bounds ptr \<Longrightarrow> kfree h ptr = Inl (KAssert ''kmalloc: free address out of heap bounds'')"
  by (simp add: kfree_def kassert_def)

lemma kfree_double_free:
  assumes "heap_rep h cs fl" "s \<in> set fl"
  shows "kfree h (A s + 8) = Inl (KAssert ''kmalloc: double free'')"
proof -
  have "s \<in> set (fs 0 cs)" using assms by (simp add: heap_rep_def)
  then obtain xs n ys where cs: "cs = xs @ (n, True) # ys" and s: "s = tot xs" using fs_decomp [of s 0 cs] by auto
  have "bit (cells (kmem h) s) 0" using assms(1) by (simp add: heap_rep_def cs s lay_append hdr_ok_def)
  moreover have "s + 4 \<le> NCELLS" by (rule sep4D(2) [OF heap_rep_sep4 [OF assms(1)] assms(2)])
  moreover from this have "is_in_heap_bounds (A s + 8)" by (simp add: A_fields A_bounds)
  ultimately show ?thesis
    by (simp add: kfree_def kassert_def Let_def sizeof_alloc_hdr_t_def get_flag_A flag_simps)
qed

end
