(* ===== verification/Allocator.thy ===== *)
theory Allocator
  imports Common
begin

text \<open>
  The interface between the kernel heap and its clients: what \<open>kmalloc\<close> and \<open>kfree\<close> promise about the
  blocks they hand out, and the consequences a client needs to keep structures of 64-bit fields in
  such blocks.
\<close>

definition in_blk :: "u64 \<Rightarrow> nat \<Rightarrow> u64 \<Rightarrow> bool" where
  "in_blk p n a \<longleftrightarrow> unat (a - p) < n"

definition wfld :: "mem \<Rightarrow> u64 \<Rightarrow> nat \<Rightarrow> u64" where
  "wfld m p i = ld64 m (p + 8 * of_nat i)"

definition set_wfld :: "mem \<Rightarrow> u64 \<Rightarrow> nat \<Rightarrow> u64 \<Rightarrow> mem" where
  "set_wfld m p i v = st64 m (p + 8 * of_nat i) v"

definition oom :: halt where "oom = KPanic ''Kheap out of memory''"

locale allocator =
  fixes alloc :: "'h \<Rightarrow> u64 \<Rightarrow> (halt + u64 \<times> 'h) option"
    and free :: "'h \<Rightarrow> u64 \<Rightarrow> halt + 'h"
    and bytes :: "'h \<Rightarrow> mem" and upd :: "mem \<Rightarrow> 'h \<Rightarrow> 'h"
    and ok :: "'h \<Rightarrow> bool" and live :: "'h \<Rightarrow> (u64 \<times> nat) set" and max_request :: nat
  assumes alloc_law: "ok h \<Longrightarrow> unat sz \<le> max_request \<Longrightarrow>
      alloc h sz = Some (Inl oom) \<or>
      (\<exists>p n h'. alloc h sz = Some (Inr (p, h')) \<and> ok h' \<and> unat sz \<le> n \<and> live h' = insert (p, n) (live h) \<and>
         (\<forall>k. (p, k) \<notin> live h) \<and> (\<forall>(q, k)\<in>live h. \<forall>a. in_blk q k a \<longrightarrow> bytes h' a = bytes h a))"
    and free_law: "ok h \<Longrightarrow> (p, n) \<in> live h \<Longrightarrow>
      \<exists>h'. free h p = Inr h' \<and> ok h' \<and> live h' = live h - {(p, n)} \<and>
        (\<forall>(q, k)\<in>live h'. \<forall>a. in_blk q k a \<longrightarrow> bytes h' a = bytes h a)"
    and write_law: "ok h \<Longrightarrow> (p, n) \<in> live h \<Longrightarrow> (\<And>a. \<not> in_blk p n a \<Longrightarrow> m a = bytes h a) \<Longrightarrow>
      ok (upd m h) \<and> live (upd m h) = live h"
    and disjoint_law: "ok h \<Longrightarrow> (p, n) \<in> live h \<Longrightarrow> (q, k) \<in> live h \<Longrightarrow> in_blk p n a \<Longrightarrow> in_blk q k a \<Longrightarrow>
      (p, n) = (q, k)"
    and place_law: "ok h \<Longrightarrow> (p, n) \<in> live h \<Longrightarrow> p \<noteq> 0 \<and> al8 p \<and> 0 < n \<and> unat p + n < 2 ^ 64"
    and bytes_upd: "bytes (upd m h) = m"
begin

lemma wfld_addr:
  assumes "ok h" "(p, n) \<in> live h" "8 * i + 8 \<le> n"
  shows "unat (p + 8 * of_nat i) = unat p + 8 * i" "al8 (p + 8 * of_nat i)"
    and "k < 8 \<Longrightarrow> in_blk p n (p + 8 * of_nat i + of_nat k)"
proof -
  have p: "al8 p" "unat p + n < 2 ^ 64" using place_law [OF assms(1,2)] by auto
  show u: "unat (p + 8 * of_nat i) = unat p + 8 * i"
    using unat_plus_of_nat [of p "8 * i"] p(2) assms(3) by simp
  show "al8 (p + 8 * of_nat i)" using p(1) by (simp add: al8_def u)
  assume "k < 8"
  moreover from this have "unat (8 * of_nat i + of_nat k :: u64) = 8 * i + k"
    using unat_of_nat64 [of "8 * i + k"] p(2) assms(3) by simp
  ultimately show "in_blk p n (p + 8 * of_nat i + of_nat k)" using assms(3) by (simp add: in_blk_def add.assoc)
qed

lemma block_unique: "ok h \<Longrightarrow> (p, n) \<in> live h \<Longrightarrow> (p, k) \<in> live h \<Longrightarrow> n = k"
  using disjoint_law [of h p n p k p] place_law by (auto simp: in_blk_def)

lemma wfld_same:
  assumes "ok h" "(q, k) \<in> live h" "8 * j + 8 \<le> k" "\<And>a. in_blk q k a \<Longrightarrow> m a = bytes h a"
  shows "wfld m q j = wfld (bytes h) q j"
  unfolding wfld_def ld64_def
  by (rule ld_cong) (rule assms(4), rule wfld_addr(3) [OF assms(1-3)])

lemma set_wfld_ok:
  assumes "ok h" "(p, n) \<in> live h" "8 * i + 8 \<le> n"
  shows "ok (upd (set_wfld (bytes h) p i v) h)" "live (upd (set_wfld (bytes h) p i v) h) = live h"
proof -
  have "set_wfld (bytes h) p i v a = bytes h a" if "\<not> in_blk p n a" for a
  proof -
    have "8 \<le> unat (a - (p + 8 * of_nat i))"
    proof (rule ccontr)
      assume "\<not> 8 \<le> unat (a - (p + 8 * of_nat i))"
      then show False using wfld_addr(3) [OF assms, of "unat (a - (p + 8 * of_nat i))"] that by simp
    qed
    then show ?thesis by (simp add: set_wfld_def st64_def st_other)
  qed
  then show "ok (upd (set_wfld (bytes h) p i v) h)" "live (upd (set_wfld (bytes h) p i v) h) = live h"
    using write_law [OF assms(1,2)] by blast+
qed

lemma wfld_set_wfld:
  assumes "ok h" "(p, n) \<in> live h" "8 * i + 8 \<le> n" "(q, k) \<in> live h" "8 * j + 8 \<le> k"
  shows "wfld (set_wfld m p i v) q j = (if p = q \<and> i = j then v else wfld m q j)"
proof -
  have "p + 8 * of_nat i = q + 8 * of_nat j \<longleftrightarrow> p = q \<and> i = j"
  proof
    assume eq: "p + 8 * of_nat i = q + 8 * of_nat j"
    have "in_blk p n (p + 8 * of_nat i)" "in_blk q k (q + 8 * of_nat j)"
      using wfld_addr(3) [OF assms(1-3), of 0] wfld_addr(3) [OF assms(1,4,5), of 0] by simp_all
    then have "(p, n) = (q, k)" using disjoint_law [OF assms(1,2,4)] eq by metis
    moreover have "unat p + 8 * i = unat q + 8 * j"
      unfolding wfld_addr(1) [OF assms(1-3), symmetric] wfld_addr(1) [OF assms(1,4,5), symmetric] eq by (rule refl)
    ultimately show "p = q \<and> i = j" by simp
  qed simp
  then show ?thesis
    using wfld_addr(2) [OF assms(1-3)] wfld_addr(2) [OF assms(1,4,5)]
    by (simp add: wfld_def set_wfld_def ld64_st64_al8)
qed

lemma alloc_cases:
  assumes "ok h" "unat sz \<le> max_request"
  obtains "alloc h sz = Some (Inl oom)"
    | p n h' where "alloc h sz = Some (Inr (p, h'))" "ok h'" "unat sz \<le> n" "live h' = insert (p, n) (live h)"
        "p \<noteq> 0" "\<And>k. (p, k) \<notin> live h" "\<And>q k j. (q, k) \<in> live h \<Longrightarrow> 8 * j + 8 \<le> k \<Longrightarrow> wfld (bytes h') q j = wfld (bytes h) q j"
  using alloc_law [OF assms]
proof (elim disjE exE conjE)
  fix p n h'
  assume a: "alloc h sz = Some (Inr (p, h'))" "ok h'" "unat sz \<le> n" "live h' = insert (p, n) (live h)" "\<forall>k. (p, k) \<notin> live h"
    "\<forall>(q, k)\<in>live h. \<forall>a. in_blk q k a \<longrightarrow> bytes h' a = bytes h a"
  have "p \<noteq> 0" using place_law [OF a(2)] a(4) by auto
  moreover have "wfld (bytes h') q j = wfld (bytes h) q j" if "(q, k) \<in> live h" "8 * j + 8 \<le> k" for q k j
    using wfld_same [OF assms(1) that] a(6) that(1) by blast
  ultimately show thesis using that(2) a by blast
qed (rule that(1))

lemma free_block:
  assumes "ok h" "(p, n) \<in> live h"
  obtains h' where "free h p = Inr h'" "ok h'" "live h' = live h - {(p, n)}"
    "\<And>q k j. (q, k) \<in> live h' \<Longrightarrow> 8 * j + 8 \<le> k \<Longrightarrow> wfld (bytes h') q j = wfld (bytes h) q j"
proof -
  obtain h' where h': "free h p = Inr h'" "ok h'" "live h' = live h - {(p, n)}"
      "\<forall>(q, k)\<in>live h'. \<forall>a. in_blk q k a \<longrightarrow> bytes h' a = bytes h a"
    using free_law [OF assms] by blast
  have "wfld (bytes h') q j = wfld (bytes h) q j" if "(q, k) \<in> live h'" "8 * j + 8 \<le> k" for q k j
  proof (rule wfld_same [OF assms(1) _ that(2)])
    show "(q, k) \<in> live h" using that(1) h'(3) by simp
    show "bytes h' a = bytes h a" if "in_blk q k a" for a using h'(4) that \<open>(q, k) \<in> live h'\<close> by blast
  qed
  then show thesis using that h' by blast
qed

end

end
