(* ===== verification/Kmalloc_Heap.thy ===== *)
theory Kmalloc_Heap
  imports Kmalloc_Free Allocator
begin

text \<open>
  The allocator as its clients see it: live blocks, their separation, and the interpretation
  of the allocator interface on \<open>kmalloc\<close> and \<open>kfree\<close>; the state after \<open>kmalloc_init\<close>; the
  properties of every history of calls.
\<close>

definition boot_heap :: "mem \<Rightarrow> kheap" where
  "boot_heap m = kmalloc_init_heap \<lparr>kmem = m, freelist_head = 0\<rparr>"

lemma boot_heap_rep: "heap_rep (boot_heap m) [(NCELLS, True)] [0]"
proof -
  have h: "HEAP_START = A 0" "align_sz HEAP_SIZE = 8 * of_nat NCELLS"
    by (simp_all add: A_def align_sz_def ALIGN_UP_def HEAP_ALIGNMENT_def HEAP_SIZE_def NCELLS_def)
  define m3 where "m3 = unset_flag (set_flag (set_sz m (A 0) (8 * of_nat NCELLS)) (A 0) (ucast FLAG_IS_FREE)) (A 0)
      (ucast FLAG_IS_PREV_FREE)"
  have N: "0 < NCELLS" "4 \<le> NCELLS" by (simp_all add: NCELLS_def)
  have c3: "cells m3 = (cells m)(0 := (wsz (cells m 0) (8 * of_nat NCELLS) OR 1) AND NOT 2)"
    using N by (simp add: m3_def cells_unset_flag cells_set_flag cells_set_sz flag_simps)
  have b: "boot_heap m = freelist_add_node \<lparr>kmem = m3, freelist_head = 0\<rparr> (A 0)"
    by (simp add: boot_heap_def kmalloc_init_heap_def Let_def h m3_def)
  have "sep4 [0]" using N by (simp add: sep4_def)
  note add = freelist_add_node_seg [of "\<lparr>kmem = m3, freelist_head = 0\<rparr>" "[]" 0, OF _ this, folded b, simplified]
  have "cells (kmem (boot_heap m)) 0 = cells m3 0" by (rule add(2)) (simp add: links_def)
  then show ?thesis
    using add(1) N by (simp add: heap_rep_def hdr_ok_def no_adj_def c3 msz_flags msz_wsz bits_flags)
qed

lemma lay_unique:
  "lay c i pf cs \<Longrightarrow> lay c i pf' cs' \<Longrightarrow> i + tot cs = N \<Longrightarrow> i + tot cs' = N \<Longrightarrow> N \<le> NCELLS \<Longrightarrow> cs = cs'"
proof (induction cs arbitrary: i pf pf' cs')
  case Nil
  then show ?case using lay_big by (cases cs') auto
next
  case (Cons a cs)
  obtain n fr where a: "a = (n, fr)" by force
  from Cons.prems obtain k gr ds where c': "cs' = (k, gr) # ds"
    by (cases cs') (auto dest: lay_big simp: a)
  have "n < 2 ^ 61" "k < 2 ^ 61" using Cons.prems by (auto simp: a c' NCELLS_def)
  moreover have "(8 * of_nat n :: u64) = 8 * of_nat k" "fr = gr"
    using Cons.prems by (auto simp: a c' hdr_ok_def)
  ultimately have "n = k" "fr = gr" using size_eq_iff by blast+
  moreover have "cs = ds" 
    using Cons.prems \<open>n = k\<close> by (intro Cons.IH [of "i + n" fr gr]) (auto simp: a c')
  ultimately show ?case by (simp add: a c')
qed

lemma seg_unique: "seg c q p fl 0 \<Longrightarrow> seg c q p gl 0 \<Longrightarrow> sep4 fl \<Longrightarrow> sep4 gl \<Longrightarrow> fl = gl"
proof (induction fl arbitrary: q p gl)
  case Nil
  then show ?case by (cases gl) (auto simp: sep4_def)
next
  case (Cons s fl)
  then obtain t gs where gl: "gl = t # gs" by (cases gl) (auto simp: sep4_def)
  then have "A s = A t" "s \<le> NCELLS" "t \<le> NCELLS" using Cons.prems by (auto simp: sep4_def)
  then have "s = t" by (simp add: A_inj)
  moreover have "fl = gs"
    using Cons.prems gl \<open>s = t\<close> by (intro Cons.IH [of "A s" "c (Suc (Suc s))"]) (auto simp: sep4_def)
  ultimately show ?case by (simp add: gl)
qed

lemma heap_rep_unique: "heap_rep h cs fl \<Longrightarrow> heap_rep h cs' fl' \<Longrightarrow> cs' = cs \<and> fl' = fl"
  using lay_unique [of "cells (kmem h)" 0 False cs' False cs NCELLS]
    seg_unique [of "cells (kmem h)" 0 "freelist_head h" fl' fl] heap_rep_sep4 
  by (auto simp: heap_rep_def)

fun blocks :: "nat \<Rightarrow> chunks \<Rightarrow> (nat \<times> nat) set" where
  "blocks i [] = {}"
| "blocks i ((n, fr) # cs) = (if fr then {} else {(i, n)}) \<union> blocks (i + n) cs"

definition heap_ok :: "kheap \<Rightarrow> bool" where
  "heap_ok h \<longleftrightarrow> (\<exists>cs fl. heap_rep h cs fl)"

definition live :: "kheap \<Rightarrow> (u64 \<times> nat) set" where
  "live h = {(A s + 8, 8 * n - 8) | s n. \<exists>cs fl. heap_rep h cs fl \<and> (s, n) \<in> blocks 0 cs}"

text \<open>
  The histories a client can drive the heap through: \<open>kmalloc\<close>, \<open>kfree\<close> of a block it was given
  and still owns, and a byte store into such a block.
\<close>

inductive heap_run :: "mem \<Rightarrow> kheap \<Rightarrow> bool" for m0 where
  boot: "heap_run m0 (boot_heap m0)"
| alloc: "heap_run m0 h \<Longrightarrow> unat sz \<le> 2 ^ 64 - 64 \<Longrightarrow> kmalloc h sz = Some (Inr (p, h')) \<Longrightarrow> heap_run m0 h'"
| free: "heap_run m0 h \<Longrightarrow> (p, n) \<in> live h \<Longrightarrow> kfree h p = Inr h' \<Longrightarrow> heap_run m0 h'"
| store: "heap_run m0 h \<Longrightarrow> (p, n) \<in> live h \<Longrightarrow> in_blk p n a \<Longrightarrow> heap_run m0 (h\<lparr>kmem := (kmem h)(a := v)\<rparr>)"

lemma live_rep: "heap_rep h cs fl \<Longrightarrow> live h = (\<lambda>(s, n). (A s + 8, 8 * n - 8)) ` blocks 0 cs"
proof -
  assume rep: "heap_rep h cs fl"
  then have "heap_rep h cs' fl' \<longleftrightarrow> cs' = cs \<and> fl' = fl" for cs' fl' using heap_rep_unique by blast
  then show ?thesis by (force simp: live_def)
qed

lemma blocks_append: "blocks i (xs @ ys) = blocks i xs \<union> blocks (i + tot xs) ys"
  by (induction xs arbitrary: i) (auto simp: add.assoc)

lemma blocks_bounds: "big cs \<Longrightarrow> (s, n) \<in> blocks i cs \<Longrightarrow> i \<le> s \<and> s + n \<le> i + tot cs \<and> 4 \<le> n"
  by (induction cs arbitrary: i) (fastforce split: if_splits)+

lemma blocks_decomp: "(s, n) \<in> blocks i cs \<Longrightarrow> \<exists>xs ys. cs = xs @ (n, False) # ys \<and> s = i + tot xs"
proof (induction cs arbitrary: i)
  case (Cons c cs)
  obtain k fr where c: "c = (k, fr)" by force
  show ?case
  proof (cases "\<not> fr \<and> (s, n) = (i, k)")
    case True
    then show ?thesis using c by (intro exI [of _ "[]"] exI [of _ cs]) auto
  next
    case False
    then have "(s, n) \<in> blocks (i + k) cs" using Cons.prems c by (auto split: if_splits)
    then obtain xs ys where "cs = xs @ (n, False) # ys" "s = i + k + tot xs" using Cons.IH by blast
    then show ?thesis using c by (intro exI [of _ "c # xs"] exI [of _ ys]) simp
  qed
qed simp

lemma blocks_sep: "big cs \<Longrightarrow> (s, n) \<in> blocks i cs \<Longrightarrow> (t, k) \<in> blocks i cs \<Longrightarrow>
    (s, n) = (t, k) \<or> s + n \<le> t \<or> t + k \<le> s"
proof (induction cs arbitrary: i)
  case (Cons c cs)
  then show ?case
    using blocks_bounds [of cs s n "i + fst c"] blocks_bounds [of cs t k "i + fst c"]
    by (cases c) (fastforce split: if_splits)
qed simp

lemma blocks_owned: "(s, n) \<in> blocks i cs \<Longrightarrow> {s + 1..<s + n} \<subseteq> owned i cs"
  by (induction cs arbitrary: i) (fastforce split: if_splits)+

lemma spec_kmalloc_blocks:
  assumes big: "big cs" "set fl \<subseteq> set (fs 0 cs)" and sp: "spec_kmalloc k cs fl = Some (s, cs', fl')"
  shows "blocks 0 cs' = insert (s, k) (blocks 0 cs)" and "(s, n) \<notin> blocks 0 cs" and "s \<in> set fl"
proof -
  have fit: "find (\<lambda>s. fits k (size_at 0 cs s)) fl = Some s" and cs': "cs' = carve k s 0 cs"
    using sp by (auto simp: spec_kmalloc_def split: option.splits)
  then show sl: "s \<in> set fl" by (metis find_Some_iff nth_mem)
  then obtain xs l ys where cs: "cs = xs @ (l, True) # ys" and s: "s = tot xs"
    using fs_decomp [of s 0 cs] big(2) by auto
  have b: "big xs" "4 \<le> l" "big ys" using big(1) cs by simp_all
  have "fits k l" using fit size_at_decomp [OF b(1), of 0 l True ys]
    by (auto simp: find_Some_iff cs s)
  then show "blocks 0 cs' = insert (s, k) (blocks 0 cs)"
    using carve_decomp [OF b(1), of k 0 l True ys] by (auto simp: cs' cs s blocks_append fits_def)
  show "(s, n) \<notin> blocks 0 cs"
    using blocks_bounds [OF b(1), of s n 0] blocks_bounds [OF b(3), of s n "s + l"] b(2)
    by (auto simp: cs s blocks_append)
qed

lemma spec_kfree_blocks:
  assumes big: "big cs" and bl: "(s, n) \<in> blocks 0 cs"
  shows "\<exists>cs' fl'. spec_kfree s cs fl = Some (cs', fl') \<and> blocks 0 cs' = blocks 0 cs - {(s, n)}"
proof -
  obtain xs ys where cs: "cs = xs @ (n, False) # ys" and s: "s = tot xs"
    using blocks_decomp [OF bl] by auto
  have b: "big xs" "4 \<le> n" "big ys" using big cs by simp_all
  have sc: "split_chunk s 0 cs = Some (xs, n, False, ys)"
    using split_chunk_decomp [OF b(1), of 0] by (simp add: cs s)
  have "blocks 0 cs - {(s, n)} = blocks 0 xs \<union> blocks (s + n) ys"
    using blocks_bounds [OF b(1), of s n 0] blocks_bounds [OF b(3), of s n "s + n"] b(2)
    by (auto simp: cs s blocks_append)
  moreover have "blocks 0 (butlast xs) = blocks 0 xs \<and> tot (butlast xs) + fst (last xs) = s" if "lastfree False xs"
    using that by (cases xs rule: rev_cases) (auto simp: lastfree_def blocks_append s)
  moreover have "blocks (s + (n + fst (hd ys))) (tl ys) = blocks (s + n) ys" if "ys \<noteq> [] \<and> snd (hd ys)"
    using that by (cases ys) (auto simp: add.assoc)
  ultimately show ?thesis
    unfolding spec_kfree_def sc
    by (cases "lastfree False xs"; cases "ys \<noteq> [] \<and> snd (hd ys)")
      (simp_all add: Let_def blocks_append s [symmetric] flip: add.assoc)
qed

lemma in_blk_cell:
  assumes "in_blk (A s + 8) (8 * n - 8) a" "s + n \<le> NCELLS"
  obtains j i where "j \<in> {s + 1..<s + n}" "i < 8" "a = A j + of_nat i"
proof -
  define d where "d = unat (a - (A s + 8))"
  have d: "d < 8 * n - 8" "d < 2 ^ 64" using assms by (simp_all add: in_blk_def d_def NCELLS_def)
  have "a = A s + 8 + of_nat d" by (simp add: d_def)
  also have "d = 8 * (d div 8) + d mod 8" by simp
  also have "A s + 8 + of_nat (8 * (d div 8) + d mod 8) = A (s + 1 + d div 8) + of_nat (d mod 8)"
    using A_add [of "s + 1" "d div 8"] by (simp only: of_nat_add of_nat_mult) (simp add: A_fields)
  finally have "a = A (s + 1 + d div 8) + of_nat (d mod 8)" .
  moreover have "s + 1 + d div 8 \<in> {s + 1..<s + n}" using d by auto
  ultimately show thesis using that [of "s + 1 + d div 8" "d mod 8"] by simp
qed

lemma cell_in_blk:
  assumes "j < s + n" "s < j" "i < 8" "s + n \<le> NCELLS"
  shows "in_blk (A s + 8) (8 * n - 8) (A j + of_nat i)"
proof -
  have "A j + of_nat i - (A s + 8) = of_nat (8 * (j - s - 1) + i)"
    using assms(2) by (simp add: A_def right_diff_distrib)
  moreover have "unat (of_nat (8 * (j - s - 1) + i) :: u64) = 8 * (j - s - 1) + i"
    using assms by (intro unat_of_nat64) (simp add: NCELLS_def)
  ultimately show ?thesis using assms by (simp add: in_blk_def del: of_nat_add of_nat_mult)
qed

lemma live_keeps:
  assumes rep: "heap_rep h cs fl" and eq: "\<forall>j\<in>owned 0 cs. cells m j = cells (kmem h) j"
    and lv: "(p, n) \<in> live h" "in_blk p n a"
  shows "m a = kmem h a"
proof -
  obtain s k where sk: "(s, k) \<in> blocks 0 cs" "p = A s + 8" "n = 8 * k - 8"
    using lv(1) live_rep [OF rep] by auto
  have b: "s + k \<le> NCELLS" using blocks_bounds [OF heap_rep_big [OF rep] sk(1)] rep by (simp add: heap_rep_def)
  obtain j i where ji: "j \<in> {s + 1..<s + k}" "i < 8" "a = A j + of_nat i"
    by (rule in_blk_cell [OF lv(2) [unfolded sk(2,3)] b]) (rule that)
  have "cells m j = cells (kmem h) j" using blocks_owned [OF sk(1)] ji(1) eq by blast
  then have "ld64 m (A j) = ld64 (kmem h) (A j)" using ji(1) b by (simp add: ld64_A)
  then show ?thesis using ld64_eq_bytes ji(2,3) by blast
qed

lemma kmalloc_live:
  assumes ok: "heap_ok h" and sz: "unat sz \<le> 2 ^ 64 - 64"
  shows "kmalloc h sz = Some (Inl (KPanic ''Kheap out of memory'')) \<or>
    (\<exists>p h'. kmalloc h sz = Some (Inr (p, h')) \<and> heap_ok h' \<and>
       live h' = insert (p, 8 * units sz - 8) (live h) \<and> (\<forall>n. (p, n) \<notin> live h) \<and> outside_eq (kmem h) (kmem h') \<and>
       (\<forall>(q, n)\<in>live h. \<forall>a. in_blk q n a \<longrightarrow> kmem h' a = kmem h a))"
proof -
  obtain cs fl where rep: "heap_rep h cs fl" using ok by (auto simp: heap_ok_def)
  show ?thesis
  proof (cases "spec_kmalloc (units sz) cs fl")
    case None
    then show ?thesis using kmalloc_refines_oom [OF rep sz] by simp
  next
    case (Some r)
    obtain s cs' fl' where sp: "spec_kmalloc (units sz) cs fl = Some (s, cs', fl')" using Some by (cases r) auto
    obtain h' where h': "kmalloc h sz = Some (Inr (A s + 8, h'))" "heap_rep h' cs' fl'" "outside_eq (kmem h) (kmem h')"
        "\<forall>j\<in>owned 0 cs. cells (kmem h') j = cells (kmem h) j"
      using kmalloc_refines_alloc [OF rep sz sp] by blast
    have bl: "blocks 0 cs' = insert (s, units sz) (blocks 0 cs)" "\<And>n. (s, n) \<notin> blocks 0 cs" "s \<in> set fl"
      using spec_kmalloc_blocks [OF heap_rep_big [OF rep] _ sp] rep by (auto simp: heap_rep_def)
    have "(A s + 8, n) \<notin> live h" for n
    proof
      assume "(A s + 8, n) \<in> live h"
      then obtain t k where t: "(t, k) \<in> blocks 0 cs" "A t = A s" using live_rep [OF rep] by auto
      have "t \<le> NCELLS" using blocks_bounds [OF heap_rep_big [OF rep] t(1)] rep by (simp add: heap_rep_def)
      then have "t = s" using t(2) sep4D(2) [OF heap_rep_sep4 [OF rep] bl(3)] by (simp add: A_inj)
      then show False using t(1) bl(2) by simp
    qed
    moreover have "live h' = insert (A s + 8, 8 * units sz - 8) (live h)"
      using live_rep [OF rep] live_rep [OF h'(2)] bl(1) by simp
    ultimately show ?thesis
      using h' live_keeps [OF rep h'(4)] by (auto simp: heap_ok_def)
  qed
qed

lemma kfree_live:
  assumes ok: "heap_ok h" and lv: "(p, n) \<in> live h"
  shows "\<exists>h'. kfree h p = Inr h' \<and> heap_ok h' \<and> live h' = live h - {(p, n)} \<and> outside_eq (kmem h) (kmem h') \<and>
       (\<forall>(q, k)\<in>live h'. \<forall>a. in_blk q k a \<longrightarrow> kmem h' a = kmem h a)"
proof -
  obtain cs fl where rep: "heap_rep h cs fl" using ok by (auto simp: heap_ok_def)
  obtain s k where sk: "(s, k) \<in> blocks 0 cs" "p = A s + 8" "n = 8 * k - 8"
    using lv(1) live_rep [OF rep] by auto
  obtain cs' fl' where sp: "spec_kfree s cs fl = Some (cs', fl')" and bl: "blocks 0 cs' = blocks 0 cs - {(s, k)}"
    using spec_kfree_blocks [OF heap_rep_big [OF rep] sk(1)] by blast
  obtain h' where h': "kfree h p = Inr h'" "heap_rep h' cs' fl'" "outside_eq (kmem h) (kmem h')"
      "\<forall>j\<in>owned 0 cs'. cells (kmem h) j = cells (kmem h') j"
    using kfree_refines [OF rep sp] sk(2) by metis
  have "inj_on (\<lambda>(s, n). (A s + 8, 8 * n - 8)) (blocks 0 cs)"
  proof (rule inj_onI)
    fix x y assume xy: "x \<in> blocks 0 cs" "y \<in> blocks 0 cs"
      and eq: "(case x of (s, n) \<Rightarrow> (A s + 8, 8 * n - 8)) = (case y of (s, n) \<Rightarrow> (A s + 8, 8 * n - 8))"
    obtain s n t k where p: "x = (s, n)" "y = (t, k)" by (cases x, cases y)
    then show "x = y"
      using blocks_bounds [OF heap_rep_big [OF rep], of s n 0] blocks_bounds [OF heap_rep_big [OF rep], of t k 0]
        xy eq rep by (auto simp: heap_rep_def A_inj)
  qed
  then have "live h' = live h - {(p, n)}"
    unfolding live_rep [OF rep] live_rep [OF h'(2)] bl sk(2,3)
    by (subst inj_on_image_set_diff) (use sk(1) in auto)
  moreover have "kmem h' a = kmem h a" if "(q, k) \<in> live h'" "in_blk q k a" for q k a
    using live_keeps [OF h'(2,4) that] by simp
  ultimately show ?thesis using h' by (auto simp: heap_ok_def)
qed

lemma write_live:
  assumes ok: "heap_ok h" and lv: "(p, n) \<in> live h" and eq: "\<And>a. \<not> in_blk p n a \<Longrightarrow> m a = kmem h a"
  shows "heap_ok (h\<lparr>kmem := m\<rparr>) \<and> live (h\<lparr>kmem := m\<rparr>) = live h"
proof -
  obtain cs fl where rep: "heap_rep h cs fl" using ok by (auto simp: heap_ok_def)
  note rp = rep [unfolded heap_rep_def] and big = heap_rep_big [OF rep]
  obtain s k where sk: "(s, k) \<in> blocks 0 cs" "p = A s + 8" "n = 8 * k - 8"
    using lv(1) live_rep [OF rep] by auto
  have b: "s + k \<le> NCELLS" "4 \<le> k" using blocks_bounds [OF big sk(1)] rp by simp_all
  have c: "cells m j = cells (kmem h) j" if j: "j \<notin> owned 0 cs" for j
  proof (cases "j < NCELLS")
    case True
    have nb: "\<not> in_blk p n (A j + of_nat i)" if i: "i < 8" for i
    proof
      assume "in_blk p n (A j + of_nat i)"
      then obtain j' i' where j': "j' \<in> {s + 1..<s + k}" "i' < 8" "A j + of_nat i = A j' + of_nat i'"
        using in_blk_cell b(1) sk(2,3) by metis
      have "unat (A j + of_nat i) = unat (A j) + i" "unat (A j' + of_nat i') = unat (A j') + i'"
        using True i j'(1,2) b(1) by (intro unat_plus_of_nat; simp add: unat_A NCELLS_def)+
      then have "8 * j + i = 8 * j' + i'" using j'(3) True j'(1) b(1) by (simp add: unat_A)
      then have "j = j'" using i j'(2) by linarith
      then show False using j blocks_owned [OF sk(1)] j'(1) by blast
    qed
    have "ld64 m (A j) = ld64 (kmem h) (A j)"
      unfolding ld64_def by (rule ld_cong) (rule eq, rule nb)
    then show ?thesis using True by (simp add: ld64_A)
  qed (simp add: cells_def)
  have "lay (cells m) 0 False cs = lay (cells (kmem h)) 0 False cs"
    using owned_fp [OF big] by (intro lay_cong c) blast
  moreover have "seg (cells m) 0 (freelist_head h) fl 0 = seg (cells (kmem h)) 0 (freelist_head h) fl 0"
  proof (rule seg_cong)
    fix t assume "t \<in> set fl"
    then have "Suc t \<notin> owned 0 cs" "Suc (Suc t) \<notin> owned 0 cs"
      using owned_links [OF big, of _ 0 t] rp by fastforce+
    then show "cells m (Suc t) = cells (kmem h) (Suc t) \<and> cells m (Suc (Suc t)) = cells (kmem h) (Suc (Suc t))"
      using c by simp
  qed
  ultimately have "heap_rep (h\<lparr>kmem := m\<rparr>) cs fl" using rp by (simp add: heap_rep_def)
  then show ?thesis using live_rep [OF rep] live_rep by (auto simp: heap_ok_def)
qed

lemma live_disjoint:
  assumes ok: "heap_ok h" and "(p, n) \<in> live h" "(q, k) \<in> live h" "in_blk p n a" "in_blk q k a"
  shows "(p, n) = (q, k)"
proof -
  obtain cs fl where rep: "heap_rep h cs fl" using ok by (auto simp: heap_ok_def)
  obtain s x t y where b: "(s, x) \<in> blocks 0 cs" "p = A s + 8" "n = 8 * x - 8" "(t, y) \<in> blocks 0 cs" "q = A t + 8" "k = 8 * y - 8"
    using assms(2,3) live_rep [OF rep] by auto
  note bd = blocks_bounds [OF heap_rep_big [OF rep] b(1)] blocks_bounds [OF heap_rep_big [OF rep] b(4)]
  have N: "s + x \<le> NCELLS" "t + y \<le> NCELLS" using bd rep by (simp_all add: heap_rep_def)
  obtain j i where j: "j \<in> {s + 1..<s + x}" "i < 8" "a = A j + of_nat i"
    by (rule in_blk_cell [OF assms(4) [unfolded b(2,3)] N(1)]) (rule that)
  obtain j' i' where j': "j' \<in> {t + 1..<t + y}" "i' < 8" "a = A j' + of_nat i'"
    by (rule in_blk_cell [OF assms(5) [unfolded b(5,6)] N(2)]) (rule that)
  have "unat (A j + of_nat i) = unat (A j) + i" "unat (A j' + of_nat i') = unat (A j') + i'"
    using j j' N by (intro unat_plus_of_nat; simp add: unat_A NCELLS_def)+
  then have "8 * j + i = 8 * j' + i'" using j j' N by (simp add: unat_A)
  then have "j = j'" using j(2) j'(2) by linarith
  then show ?thesis using blocks_sep [OF heap_rep_big [OF rep] b(1,4)] j(1) j'(1) b by auto
qed

lemma live_in_heap: "heap_ok h \<Longrightarrow> (p, n) \<in> live h \<Longrightarrow> p \<noteq> 0 \<and> al8 p \<and> 24 \<le> n \<and> unat p + n < 2 ^ 64"
proof -
  assume ok: "heap_ok h" and lv: "(p, n) \<in> live h"
  obtain cs fl where rep: "heap_rep h cs fl" using ok by (auto simp: heap_ok_def)
  obtain s k where sk: "(s, k) \<in> blocks 0 cs" "p = A (Suc s)" "n = 8 * k - 8"
    using lv(1) live_rep [OF rep] by (auto simp: A_fields)
  have b: "s + k \<le> NCELLS" "4 \<le> k"
    using blocks_bounds [OF heap_rep_big [OF rep] sk(1)] rep by (simp_all add: heap_rep_def)
  then show ?thesis using sk(3) by (auto simp: sk(2) al8_A unat_A NCELLS_def)
qed

interpretation kh: allocator kmalloc kfree kmem "\<lambda>m h. h\<lparr>kmem := m\<rparr>" heap_ok live "2 ^ 64 - 64"
proof unfold_locales
  fix h :: kheap and sz :: u64
  assume a: "heap_ok h" "unat sz \<le> 2 ^ 64 - 64"
  have "unat sz \<le> 8 * units sz - 8" unfolding units_def max_def by (simp split: if_split, linarith)
  then show "kmalloc h sz = Some (Inl oom) \<or>
      (\<exists>p n h'. kmalloc h sz = Some (Inr (p, h')) \<and> heap_ok h' \<and> unat sz \<le> n \<and> live h' = insert (p, n) (live h) \<and>
         (\<forall>k. (p, k) \<notin> live h) \<and> (\<forall>(q, k)\<in>live h. \<forall>a. in_blk q k a \<longrightarrow> kmem h' a = kmem h a))"
    using kmalloc_live [OF a] unfolding oom_def by blast
next
  fix h p n assume "heap_ok h" "(p, n) \<in> live h"
  then show "\<exists>h'. kfree h p = Inr h' \<and> heap_ok h' \<and> live h' = live h - {(p, n)} \<and>
      (\<forall>(q, k)\<in>live h'. \<forall>a. in_blk q k a \<longrightarrow> kmem h' a = kmem h a)"
    and "p \<noteq> 0 \<and> al8 p \<and> 0 < n \<and> unat p + n < 2 ^ 64"
    using kfree_live [of h p n] live_in_heap [of h p n] by (blast, auto)
next
  fix h p n q k a assume "heap_ok h" "(p, n) \<in> live h" "(q, k) \<in> live h" "in_blk p n a" "in_blk q k a"
  then show "(p, n) = (q, k)" by (rule live_disjoint)
qed (rule write_live, assumption+, simp_all)

section \<open>Properties\<close>

lemma spec_kmalloc_boot: "spec_kmalloc 4 [(NCELLS, True)] [0] = Some (0, [(4, False), (NCELLS - 4, True)], [4])"
  by (simp add: spec_kmalloc_def fits_def NCELLS_def)

lemma boot_alloc: "unat sz \<le> 24 \<Longrightarrow>
    \<exists>h'. kmalloc (boot_heap m) sz = Some (Inr (A 0 + 8, h')) \<and> heap_rep h' [(4, False), (NCELLS - 4, True)] [4]"
proof -
  assume sz: "unat sz \<le> 24"
  then have "units sz = 4" unfolding units_def max_def by (simp, linarith)
  then show ?thesis using kmalloc_refines_alloc [OF boot_heap_rep, of sz] sz by (simp add: spec_kmalloc_boot) blast
qed



lemma kmalloc_wraps: "alloc_size (- 1) = alloc_size 0"
  by (simp add: alloc_size_def align_sz_def ALIGN_UP_def HEAP_ALIGNMENT_def sizeof_alloc_hdr_t_def FREE_CHUNK_MIN_SZ_val)

lemma kmalloc_size: "alloc_size a = alloc_size b \<Longrightarrow> kmalloc h a = kmalloc h b"
  by (simp add: kmalloc_def)

text \<open>The size computation wraps: a request for all but one byte of the address space is
  answered with a block of 24 bytes.\<close>

lemma kmalloc_request_wraps: "\<exists>p h'. kmalloc (boot_heap m) (2 ^ 64 - 1) = Some (Inr (p, h')) \<and> live h' = {(p, 24)}"
proof -
  have "kmalloc (boot_heap m) (- 1) = kmalloc (boot_heap m) 0" by (rule kmalloc_size [OF kmalloc_wraps])
  moreover obtain h' where h': "kmalloc (boot_heap m) 0 = Some (Inr (A 0 + 8, h'))"
      "heap_rep h' [(4, False), (NCELLS - 4, True)] [4]"
    using boot_alloc [of 0 m] by auto
  moreover have "live h' = {(A 0 + 8, 24)}" using live_rep [OF h'(2)] by simp
  moreover have "(2 ^ 64 - 1 :: u64) = - 1" by simp
  ultimately show ?thesis by (simp only:) blast
qed

lemma blocks_empty: "no_adj cs \<Longrightarrow> blocks i cs = {} \<Longrightarrow> cs = [] \<or> (\<exists>n. cs = [(n, True)])"
proof (induction cs arbitrary: i)
  case (Cons c cs)
  obtain n fr where c: "c = (n, fr)" by force
  then have fr: fr and e: "blocks (i + n) cs = {}" using Cons.prems(2) by (auto split: if_splits)
  have na: "no_adj cs" using Cons.prems(1) by (cases cs) (auto simp: no_adj_def)
  show ?case using Cons.IH [OF na e] Cons.prems(1) c fr by (auto simp: no_adj_def)
qed simp


lemma heap_run_ok: "heap_run m0 h \<Longrightarrow> heap_ok h"
proof (induction rule: heap_run.induct)
  case boot
  then show ?case using boot_heap_rep by (auto simp: heap_ok_def)
next
  case (alloc h sz p h')
  then show ?case using kmalloc_live [of h sz] by auto
next
  case (free h p n h')
  then show ?case using kfree_live [of h p n] by auto
next
  case (store h p n a v)
  then have "heap_ok (h\<lparr>kmem := (kmem h)(a := v)\<rparr>) \<and> live (h\<lparr>kmem := (kmem h)(a := v)\<rparr>) = live h"
    by (intro write_live) auto
  then show ?case by simp
qed




text \<open>C3. \<open>kfree\<close> refines the coalescing specification: freeing the chunk that starts at unit
  \<open>s\<close> merges it with its free neighbours, keeps the heap well-formed, the contents of the
  remaining blocks and the bytes outside the heap, and freeing a chunk that is already free is
  caught as a double free.\<close>

theorem kfree_refines_spec:
  assumes "heap_rep h cs fl" "split_chunk s 0 cs = Some (xs, n, fr, ys)"
  shows "case spec_kfree s cs fl of
      None \<Rightarrow> fr \<and> kfree h (A s + 8) = Inl (KAssert ''kmalloc: double free'')
    | Some (cs', fl') \<Rightarrow> \<not> fr \<and> (\<exists>h'. kfree h (A s + 8) = Inr h' \<and> heap_rep h' cs' fl' \<and>
        outside_eq (kmem h) (kmem h') \<and> (\<forall>j\<in>owned 0 cs'. cells (kmem h') j = cells (kmem h) j))"
proof (cases "spec_kfree s cs fl")
  case None
  then have fr: fr using assms(2) by (auto simp: spec_kfree_def Let_def split: if_splits)
  then have "s \<in> set fl"
    using split_chunk_Some [OF assms(2)] assms(1) by (auto simp: heap_rep_def fs_append)
  then show ?thesis using None fr kfree_double_free [OF assms(1)] by simp
next
  case (Some r)
  obtain cs' fl' where r: "r = (cs', fl')" by force
  have "\<not> fr" using Some assms(2) by (auto simp: spec_kfree_def split: if_splits)
  then show ?thesis using kfree_refines [OF assms(1), of s cs' fl'] Some r by simp
qed

theorem kfree_refines_spec_witness:
  "kfree (boot_heap (\<lambda>_. 0)) (A 0 + 8) = Inl (KAssert ''kmalloc: double free'')"
  using kfree_refines_spec [OF boot_heap_rep, of 0 "[]" NCELLS True "[]" "\<lambda>_. 0"] by (simp add: spec_kfree_def)

end
