(* ===== verification/Vmm.thy ===== *)
theory Vmm
  imports Paging Kmalloc_Heap
begin

text \<open>
  \<open>kernel/memory/vmm.c\<close> and the page-mapping half of \<open>kmalloc_init\<close> (\<open>kernel/memory/kmalloc.c\<close>): the
  construction of the kernel's address space. The page loops of both are run by \<open>page_loop\<close>, which
  may fail to end when the address wraps; \<open>loop_ok\<close> is the condition under which it ends. The
  abstract view of a sequence of mappings is \<open>kmap_lookup\<close>.
\<close>

section \<open>Operations\<close>

record KernelAddress =
  ka_virt :: u64
  ka_phys :: u64

text \<open>The section boundaries come from the linker script.\<close>

record kernel_layout =
  TEXT_START :: u64
  TEXT_END :: u64
  RODATA_START :: u64
  RODATA_END :: u64
  DATA_START :: u64
  DATA_END :: u64
  LIMINE_REQ_START :: u64
  LIMINE_REQ_END :: u64

definition align_up :: "u64 \<Rightarrow> u64 \<Rightarrow> u64" where
  "align_up addr align = (addr + align - 1) AND NOT (align - 1)"

definition align_down :: "u64 \<Rightarrow> u64 \<Rightarrow> u64" where
  "align_down addr align = addr AND NOT (align - 1)"

definition vmm_get_kernel_pml4 :: "vmm \<Rightarrow> u64" where
  "vmm_get_kernel_pml4 s = kernel_pml4 s"

definition vmm_load_pml4 :: "u64 \<Rightarrow> vmm \<Rightarrow> vmm" where
  "vmm_load_pml4 pml4 s = paging_load_pml4 pml4 s"

definition vmm_map :: "u64 \<Rightarrow> u64 \<Rightarrow> u64 \<Rightarrow> u64 \<Rightarrow> vmm \<Rightarrow> vmm" where
  "vmm_map pml4 virt phys flags s = paging_map_page pml4 virt phys (ucast flags) s"

definition vmm_unmap :: "u64 \<Rightarrow> u64 \<Rightarrow> vmm \<Rightarrow> vmm" where
  "vmm_unmap pml4 virt s = paging_unmap_page pml4 virt s"

definition vmm_kmap :: "u64 \<Rightarrow> u64 \<Rightarrow> u64 \<Rightarrow> vmm \<Rightarrow> vmm" where
  "vmm_kmap virt phys flags s = paging_map_page (kernel_pml4 s) virt phys (ucast flags) s"

definition vmm_kunmap :: "u64 \<Rightarrow> vmm \<Rightarrow> vmm" where
  "vmm_kunmap virt s = paging_unmap_page (kernel_pml4 s) virt s"

text \<open>A loop \<open>for (addr = start; addr < end; addr += PAGE_SIZE)\<close> with the given body.\<close>

partial_function (option) page_loop :: "(u64 \<Rightarrow> vmm \<Rightarrow> vmm) \<Rightarrow> u64 \<Rightarrow> u64 \<Rightarrow> vmm \<Rightarrow> vmm option" where
  "page_loop body addr end_addr s =
     (if addr < end_addr then page_loop body (addr + PAGE_SIZE) end_addr (body addr s) else Some s)"

fun map_regions :: "PhysMemoryRegion list \<Rightarrow> vmm \<Rightarrow> vmm option" where
  "map_regions [] s = Some s"
| "map_regions (entry # entries) s =
     (let start = align_down (rg_base entry) PAGE_SIZE;
          end_addr = align_up (rg_base entry + rg_length entry) PAGE_SIZE
      in case page_loop (\<lambda>phys s. vmm_kmap (phys + vmm_hhdm_offset s) phys (VM_FLAG_WRITE OR VM_FLAG_NX) s) start end_addr s of
           None \<Rightarrow> None
         | Some s' \<Rightarrow> map_regions entries s')"

definition vmm_init :: "kernel_layout \<Rightarrow> u64 \<Rightarrow> PhysMemoryRegion list \<Rightarrow> KernelAddress \<Rightarrow> vmm \<Rightarrow> vmm option" where
  "vmm_init L offset memmap kernel_address s =
     (let s0 = paging_set_hhdm_offset offset (s\<lparr>vmm_hhdm_offset := offset\<rparr>);
          (pml4, pm1) = pmm_alloc (pm s0);
          s1 = s0\<lparr>pm := pm1, kernel_pml4 := pml4\<rparr>;
          virt_base = ka_virt kernel_address;
          phys_base = ka_phys kernel_address;
          kernel_virt_to_phys_offset = virt_base - phys_base;
          kmap = (\<lambda>flags virt s. vmm_kmap virt (virt - kernel_virt_to_phys_offset) flags s)
      in case page_loop (kmap VM_FLAG_DEFAULT) (TEXT_START L) (TEXT_END L) s1 of None \<Rightarrow> None | Some s2 \<Rightarrow>
         case page_loop (kmap VM_FLAG_NX) (RODATA_START L) (RODATA_END L) s2 of None \<Rightarrow> None | Some s3 \<Rightarrow>
         case page_loop (kmap (VM_FLAG_WRITE OR VM_FLAG_NX)) (DATA_START L) (DATA_END L) s3 of None \<Rightarrow> None | Some s4 \<Rightarrow>
         case page_loop (kmap VM_FLAG_NX) (LIMINE_REQ_START L) (LIMINE_REQ_END L) s4 of None \<Rightarrow> None | Some s5 \<Rightarrow>
         case map_regions memmap s5 of None \<Rightarrow> None | Some s6 \<Rightarrow>
           Some (vmm_load_pml4 (kernel_pml4 s6) s6))"

definition kmalloc_init :: "vmm \<Rightarrow> kheap \<Rightarrow> (vmm \<times> kheap) option" where
  "kmalloc_init s h =
     (case page_loop
        (\<lambda>virt s. let (phys, pm1) = pmm_alloc (pm s)
                  in vmm_kmap virt phys (VM_FLAG_WRITE OR VM_FLAG_NX) (s\<lparr>pm := pm1\<rparr>)) HEAP_START HEAP_END s of
        None \<Rightarrow> None
      | Some s' \<Rightarrow> Some (s', kmalloc_init_heap h))"

section \<open>Page loops\<close>

definition page_count :: "u64 \<Rightarrow> u64 \<Rightarrow> nat" where
  "page_count start end_addr = (unat end_addr - unat start + 4095) div 4096"

definition loop_ok :: "u64 \<Rightarrow> u64 \<Rightarrow> bool" where
  "loop_ok start end_addr \<longleftrightarrow> unat start + 4096 * page_count start end_addr < 2 ^ 64"

lemma page_loop_fold:
  assumes "unat start + 4096 * n < 2 ^ 64" "n = page_count start end_addr"
  shows "page_loop body start end_addr s = Some (fold body (region_pages start n) s)"
  using assms
proof (induction n arbitrary: start s)
  case 0
  then have "\<not> start < end_addr" by (simp add: page_count_def word_less_nat_alt)
  then show ?case by (simp add: page_loop.simps region_pages_def)
next
  case (Suc n)
  have lt: "start < end_addr" using Suc.prems(2) by (cases "start < end_addr") (auto simp: page_count_def word_less_nat_alt)
  have u: "unat (start + 4096) = unat start + 4096" using Suc.prems(1) by (simp add: unat_word_ariths)
  have "n = page_count (start + 4096) end_addr"
    using Suc.prems(2) lt u by (auto simp: page_count_def word_less_nat_alt)
  then show ?case using Suc.IH [of "start + 4096" "body start s"] Suc.prems(1) lt u
    by (simp add: page_loop.simps [of _ start] PAGE_SIZE_def region_pages_Suc)
qed

lemma same_tables:
  assumes "pm s = pm s'" "paging_hhdm_offset s = paging_hhdm_offset s'"
  shows "pt_inv s root ps = pt_inv s' root ps" "translate s root = translate s' root"
proof -
  have te: "tent s = tent s'" using assms by (simp add: tent_def fun_eq_iff)
  have tb: "tab s u q = tab s' u q" for u q by (induction q arbitrary: u) (simp_all add: tnext_def te)
  show "pt_inv s root ps = pt_inv s' root ps" using assms by (simp add: pt_inv_def tb)
  show "translate s root = translate s' root" by (rule ext) (simp only: translate_def te tb)
qed

section \<open>Sequences of mappings\<close>

definition kmap_all :: "(u64 \<times> u64 \<times> u64) list \<Rightarrow> vmm \<Rightarrow> vmm" where
  "kmap_all rs = fold (\<lambda>(virt, phys, flags). vmm_kmap virt phys flags) rs"

definition kmap_lookup :: "(u64 \<times> u64 \<times> u64) list \<Rightarrow> (u64 \<Rightarrow> u64 option) \<Rightarrow> u64 \<Rightarrow> u64 option" where
  "kmap_lookup rs = fold (\<lambda>(virt, phys, flags) t v. if vpage v = vpage virt then Some (phys OR VM_FLAG_PRESENT OR take_bit 16 flags) else t v) rs"

lemma ucast_u16_u64: "ucast (ucast w :: u16) = (take_bit 16 w :: u64)" for w :: u64
  by (intro bit_eqI) (auto simp: bit_simps)

lemma get_next_pml_hhdm: "vmm_hhdm_offset (snd (get_next_pml pml i s)) = vmm_hhdm_offset s"
  by (simp add: get_next_pml_def Let_def case_prod_beta)

lemma vmm_hhdm_kept: "vmm_hhdm_offset (vmm_kmap v p f s) = vmm_hhdm_offset s"
  by (simp add: vmm_kmap_def paging_map_page_def get_pml1_entry_def invlpg_if_needed_def write_entry_def
      Let_def case_prod_beta get_next_pml_hhdm)

lemma vmm_kmap_spec:
  assumes inv: "pt_inv s (kernel_pml4 s) ps" and ps: "3 \<le> length ps"
  obtains k where "k \<le> 3" "pt_inv (vmm_kmap virt phys flags s) (kernel_pml4 s) (drop k ps)"
    "kernel_pml4 (vmm_kmap virt phys flags s) = kernel_pml4 s"
    "translate (vmm_kmap virt phys flags s) (kernel_pml4 s) = kmap_lookup [(virt, phys, flags)] (translate s (kernel_pml4 s))"
    "paging_hhdm_offset (vmm_kmap virt phys flags s) = paging_hhdm_offset s"
proof -
  let ?e = "phys OR VM_FLAG_PRESENT OR take_bit 16 flags"
  have b: "bit ?e 0" by (simp add: VM_FLAG_PRESENT_def bit_simps)
  obtain ps' where m: "pt_inv (vmm_kmap virt phys flags s) (kernel_pml4 s) ps'" "\<exists>k\<le>3. ps' = drop k ps"
    "\<And>v. translate (vmm_kmap virt phys flags s) (kernel_pml4 s) v =
       (if vpage v = vpage virt then if bit ?e 0 then Some ?e else None else translate s (kernel_pml4 s) v)"
    "kernel_pml4 (vmm_kmap virt phys flags s) = kernel_pml4 s"
    "paging_hhdm_offset (vmm_kmap virt phys flags s) = paging_hhdm_offset s"
    by (rule map_page_spec [OF inv ps, of "vmm_kmap virt phys flags s" virt ?e])
      (simp_all add: vmm_kmap_def paging_map_page_def ucast_u16_u64)
  obtain k where "k \<le> 3" "ps' = drop k ps" using m(2) by blast
  then show thesis using that m b by (auto simp: kmap_lookup_def fun_eq_iff)
qed

lemma kmap_all_spec:
  assumes "pt_inv s (kernel_pml4 s) ps" "3 * length rs \<le> length ps"
  shows "\<exists>k. k \<le> 3 * length rs \<and> pt_inv (kmap_all rs s) (kernel_pml4 s) (drop k ps) \<and>
    kernel_pml4 (kmap_all rs s) = kernel_pml4 s \<and> vmm_hhdm_offset (kmap_all rs s) = vmm_hhdm_offset s \<and>
    translate (kmap_all rs s) (kernel_pml4 s) = kmap_lookup rs (translate s (kernel_pml4 s))"
  using assms
proof (induction rs arbitrary: s ps)
  case Nil
  then show ?case by (simp add: kmap_all_def kmap_lookup_def)
next
  case (Cons r rs)
  obtain v p f where r: "r = (v, p, f)" by (cases r) auto
  let ?s = "vmm_kmap v p f s"
  obtain k where k: "k \<le> 3" "pt_inv ?s (kernel_pml4 s) (drop k ps)" "kernel_pml4 ?s = kernel_pml4 s"
      "translate ?s (kernel_pml4 s) = kmap_lookup [(v, p, f)] (translate s (kernel_pml4 s))"
    using vmm_kmap_spec [OF Cons.prems(1), of v p f] Cons.prems(2) by auto
  have "3 * length rs \<le> length (drop k ps)" using Cons.prems(2) k(1) by simp
  then obtain j where j: "j \<le> 3 * length rs" "pt_inv (kmap_all rs ?s) (kernel_pml4 s) (drop j (drop k ps))"
      "kernel_pml4 (kmap_all rs ?s) = kernel_pml4 s" "vmm_hhdm_offset (kmap_all rs ?s) = vmm_hhdm_offset ?s"
      "translate (kmap_all rs ?s) (kernel_pml4 s) = kmap_lookup rs (translate ?s (kernel_pml4 s))"
    using Cons.IH [of ?s "drop k ps"] k(2,3) by auto
  have "kmap_all (r # rs) s = kmap_all rs ?s" by (simp add: kmap_all_def r)
  then show ?case using j k by (intro exI [of _ "j + k"]) (simp add: r vmm_hhdm_kept kmap_lookup_def)
qed

lemma kmap_all_append: "kmap_all (rs @ rs') s = kmap_all rs' (kmap_all rs s)"
  by (simp add: kmap_all_def)

lemma kmap_all_hhdm: "vmm_hhdm_offset (kmap_all rs s) = vmm_hhdm_offset s"
  by (induction rs arbitrary: s) (auto simp: kmap_all_def vmm_hhdm_kept)

section \<open>The mappings of the kernel address space\<close>

definition section_pages :: "u64 \<Rightarrow> u64 \<Rightarrow> u64 list" where
  "section_pages start end_addr = region_pages start (page_count start end_addr)"

definition section_maps :: "KernelAddress \<Rightarrow> u64 \<Rightarrow> u64 \<Rightarrow> u64 \<Rightarrow> (u64 \<times> u64 \<times> u64) list" where
  "section_maps ka flags start end_addr =
     map (\<lambda>virt. (virt, virt - (ka_virt ka - ka_phys ka), flags)) (section_pages start end_addr)"

definition region_maps :: "u64 \<Rightarrow> PhysMemoryRegion \<Rightarrow> (u64 \<times> u64 \<times> u64) list" where
  "region_maps offset r = map (\<lambda>phys. (phys + offset, phys, VM_FLAG_WRITE OR VM_FLAG_NX))
     (section_pages (align_down (rg_base r) PAGE_SIZE) (align_up (rg_base r + rg_length r) PAGE_SIZE))"

definition kernel_maps :: "kernel_layout \<Rightarrow> u64 \<Rightarrow> PhysMemoryRegion list \<Rightarrow> KernelAddress \<Rightarrow> (u64 \<times> u64 \<times> u64) list" where
  "kernel_maps L offset memmap ka =
     section_maps ka VM_FLAG_DEFAULT (TEXT_START L) (TEXT_END L) @
     section_maps ka VM_FLAG_NX (RODATA_START L) (RODATA_END L) @
     section_maps ka (VM_FLAG_WRITE OR VM_FLAG_NX) (DATA_START L) (DATA_END L) @
     section_maps ka VM_FLAG_NX (LIMINE_REQ_START L) (LIMINE_REQ_END L) @
     concat (map (region_maps offset) memmap)"

definition layout_ok :: "kernel_layout \<Rightarrow> PhysMemoryRegion list \<Rightarrow> bool" where
  "layout_ok L memmap \<longleftrightarrow> loop_ok (TEXT_START L) (TEXT_END L) \<and> loop_ok (RODATA_START L) (RODATA_END L) \<and>
     loop_ok (DATA_START L) (DATA_END L) \<and> loop_ok (LIMINE_REQ_START L) (LIMINE_REQ_END L) \<and>
     (\<forall>r\<in>set memmap. loop_ok (align_down (rg_base r) PAGE_SIZE) (align_up (rg_base r + rg_length r) PAGE_SIZE))"

lemma section_loop:
  "loop_ok start end_addr \<Longrightarrow>
   page_loop (\<lambda>virt s. vmm_kmap virt (virt - (ka_virt ka - ka_phys ka)) flags s) start end_addr s =
     Some (kmap_all (section_maps ka flags start end_addr) s)"
  unfolding loop_ok_def
  by (subst page_loop_fold [OF _ refl]) (simp_all add: kmap_all_def section_maps_def section_pages_def fold_map comp_def)

lemma region_fold:
  "fold (\<lambda>phys s. vmm_kmap (phys + vmm_hhdm_offset s) phys f s) ps s =
   kmap_all (map (\<lambda>phys. (phys + vmm_hhdm_offset s, phys, f)) ps) s"
  by (induction ps arbitrary: s) (simp_all add: kmap_all_def vmm_hhdm_kept)

lemma map_regions_maps:
  "\<forall>r\<in>set rs. loop_ok (align_down (rg_base r) PAGE_SIZE) (align_up (rg_base r + rg_length r) PAGE_SIZE) \<Longrightarrow>
   map_regions rs s = Some (kmap_all (concat (map (region_maps (vmm_hhdm_offset s)) rs)) s)"
proof (induction rs arbitrary: s)
  case (Cons r rs)
  have l: "loop_ok (align_down (rg_base r) PAGE_SIZE) (align_up (rg_base r + rg_length r) PAGE_SIZE)" using Cons.prems by simp
  show ?case using Cons.prems
    by (simp add: Let_def page_loop_fold [OF l [unfolded loop_ok_def] refl] region_fold Cons.IH kmap_all_append kmap_all_hhdm
        region_maps_def section_pages_def)
qed (simp add: kmap_all_def)

lemma vmm_init_maps_all:
  assumes "layout_ok L memmap" "pmm_rep (pm s) (a # ps)" "pmm_hhdm_offset (pm s) = offset"
    "\<forall>p\<in>set ps. p AND PHYS_ADDR_MASK = p" "3 * length (kernel_maps L offset memmap ka) \<le> length ps"
  obtains s' k where "vmm_init L offset memmap ka s = Some s'" "kernel_pml4 s' = a" "cr3 s' = a" "pt_inv s' a (drop k ps)"
    "translate s' a = kmap_lookup (kernel_maps L offset memmap ka) (\<lambda>_. None)"
proof -
  define s0 where "s0 = paging_set_hhdm_offset offset (s\<lparr>vmm_hhdm_offset := offset\<rparr>)"
  have s0: "pm s0 = pm s" "paging_hhdm_offset s0 = offset" "vmm_hhdm_offset s0 = offset"
    by (simp_all add: s0_def paging_set_hhdm_offset_def)
  obtain pm1 where al: "pmm_alloc (pm s) = (a, pm1)" and i0: "pt_inv (s0\<lparr>pm := pm1\<rparr>) a ps"
      and t0: "\<And>v. translate (s0\<lparr>pm := pm1\<rparr>) a v = None"
    using pt_inv_fresh [of s0 a ps] assms(2-4) s0 by auto
  define s1 where "s1 = s0\<lparr>pm := pm1, kernel_pml4 := a\<rparr>"
  have s1: "kernel_pml4 s1 = a" "vmm_hhdm_offset s1 = offset" "pt_inv s1 (kernel_pml4 s1) ps" "translate s1 a = (\<lambda>_. None)"
    using same_tables [of s1 "s0\<lparr>pm := pm1\<rparr>"] i0 t0 s0 by (auto simp: s1_def)
  define s6 where "s6 = kmap_all (kernel_maps L offset memmap ka) s1"
  obtain k where k: "pt_inv s6 a (drop k ps)" "kernel_pml4 s6 = a"
      "translate s6 a = kmap_lookup (kernel_maps L offset memmap ka) (\<lambda>_. None)"
    using kmap_all_spec [OF s1(3) assms(5)] s1(1,4) by (auto simp: s6_def)
  have "vmm_init L offset memmap ka s = Some (vmm_load_pml4 (kernel_pml4 s6) s6)"
    using assms(1) al s0(1,3) s1(2) unfolding layout_ok_def
    by (simp add: vmm_init_def s0_def [symmetric] s1_def [symmetric] section_loop map_regions_maps kmap_all_hhdm
        kmap_all_append s6_def kernel_maps_def Let_def)
  then show thesis
    by (rule that) (use k same_tables [of "s6\<lparr>cr3 := a\<rparr>" s6] in \<open>auto simp: vmm_load_pml4_def paging_load_pml4_def\<close>)
qed
section \<open>Mapping the heap\<close>

lemma pmm_alloc_keeps_tables:
  assumes inv: "pt_inv s root (a # ps)"
  obtains pm1 where "pmm_alloc (pm s) = (a, pm1)" "pt_inv (s\<lparr>pm := pm1\<rparr>) root ps" "translate (s\<lparr>pm := pm1\<rparr>) root = translate s root"
proof -
  let ?h = "pmm_hhdm_offset (pm s)"
  note iv = inv [unfolded pt_inv_def]
  obtain pm1 where al: "pmm_alloc (pm s) = (a, pm1)" "pmm_rep pm1 ps" "pmm_hhdm_offset pm1 = ?h"
      "\<And>q j. pgal q \<Longrightarrow> j < 512 \<Longrightarrow> pent (pmem pm1) q j = (if q = a + ?h then 0 else pent (pmem (pm s)) q j)"
    using pmm_alloc_some [of "pm s" a ps] iv by auto
  let ?s = "s\<lparr>pm := pm1\<rparr>"
  have te: "tent ?s u j = tent s u j" if "q \<in> paths 3" "tab s root q = Some u" "j < 512" for q u j
  proof -
    have "pgal u" "u \<noteq> a" using iv that by auto
    moreover have "pgal ?h" using iv by (simp add: pmm_rep_def)
    ultimately show ?thesis using al(4) [of "u + ?h" j] that(3) iv by (simp add: tent_def pgal_add)
  qed
  have tb: "tab ?s root q = tab s root q" if "q \<in> paths 3" for q
    using that
  proof (induction q rule: rev_induct)
    case (snoc j q)
    then have "q \<in> paths 3" "j < 512" by (auto simp: paths_def)
    then show ?case using snoc.IH te by (auto simp: tab_snoc tnext_def split: option.splits)
  qed simp
  have "pt_inv ?s root ps" using iv al(2,3) tb by (auto simp: pt_inv_def)
  moreover have "translate ?s root v = translate s root v" for v
    using tb [OF vpath_paths] te [OF vpath_paths _ idx_less] by (cases "tab s root (vpath v)") (simp_all add: translate_def)
  ultimately show thesis using that al(1) by blast
qed

definition heap_page :: "u64 \<Rightarrow> vmm \<Rightarrow> vmm" where
  "heap_page virt s = (let (phys, pm1) = pmm_alloc (pm s)
     in vmm_kmap virt phys (VM_FLAG_WRITE OR VM_FLAG_NX) (s\<lparr>pm := pm1\<rparr>))"

lemma heap_pages_spec:
  assumes "pt_inv s (kernel_pml4 s) ps" "4 * length vs \<le> length ps"
  shows "\<exists>fs k. length fs = length vs \<and> distinct fs \<and> set fs \<subseteq> set ps \<and> pt_inv (fold heap_page vs s) (kernel_pml4 s) (drop k ps) \<and>
    kernel_pml4 (fold heap_page vs s) = kernel_pml4 s \<and>
    translate (fold heap_page vs s) (kernel_pml4 s) =
      kmap_lookup (map (\<lambda>(v, f). (v, f, VM_FLAG_WRITE OR VM_FLAG_NX)) (zip vs fs)) (translate s (kernel_pml4 s))"
  using assms
proof (induction vs arbitrary: s ps)
  case Nil
  then show ?case by (intro exI [of _ "[]"] exI [of _ 0]) (simp add: kmap_lookup_def)
next
  case (Cons v vs)
  obtain a qs where as: "ps = a # qs" using Cons.prems(2) by (cases ps) auto
  obtain pm1 where al: "pmm_alloc (pm s) = (a, pm1)" "pt_inv (s\<lparr>pm := pm1\<rparr>) (kernel_pml4 s) qs"
      "translate (s\<lparr>pm := pm1\<rparr>) (kernel_pml4 s) = translate s (kernel_pml4 s)"
    using pmm_alloc_keeps_tables Cons.prems(1) as by blast
  define s1 where "s1 = s\<lparr>pm := pm1\<rparr>"
  have hp: "heap_page v s = vmm_kmap v a (VM_FLAG_WRITE OR VM_FLAG_NX) s1" using al(1) by (simp add: heap_page_def s1_def)
  have "pt_inv s1 (kernel_pml4 s1) qs" "3 \<le> length qs" using al(2) Cons.prems(2) as by (simp_all add: s1_def)
  then obtain k where k: "k \<le> 3" "pt_inv (heap_page v s) (kernel_pml4 s) (drop k qs)" "kernel_pml4 (heap_page v s) = kernel_pml4 s"
      "translate (heap_page v s) (kernel_pml4 s) = kmap_lookup [(v, a, VM_FLAG_WRITE OR VM_FLAG_NX)] (translate s (kernel_pml4 s))"
    using vmm_kmap_spec [of s1 qs v a "VM_FLAG_WRITE OR VM_FLAG_NX"] al(3) unfolding hp by (auto simp: s1_def)
  have "4 * length vs \<le> length (drop k qs)" using Cons.prems(2) k(1) as by simp
  then obtain fs j where j: "length fs = length vs" "distinct fs" "set fs \<subseteq> set (drop k qs)"
      "pt_inv (fold heap_page vs (heap_page v s)) (kernel_pml4 s) (drop j (drop k qs))"
      "kernel_pml4 (fold heap_page vs (heap_page v s)) = kernel_pml4 s"
      "translate (fold heap_page vs (heap_page v s)) (kernel_pml4 s) =
        kmap_lookup (map (\<lambda>(v, f). (v, f, VM_FLAG_WRITE OR VM_FLAG_NX)) (zip vs fs)) (translate (heap_page v s) (kernel_pml4 s))"
    using Cons.IH [of "heap_page v s" "drop k qs"] k(2,3) by auto
  have "distinct ps" using Cons.prems(1) by (simp add: pt_inv_def pmm_rep_def)
  then have "a \<notin> set fs" using j(3) as set_drop_subset by fastforce
  then show ?case
    using j k(4) as set_drop_subset [of k qs] by (intro exI [of _ "a # fs"] exI [of _ "Suc (j + k)"]) (auto simp: kmap_lookup_def)
qed

lemma kmap_lookup_snoc: "kmap_lookup (rs @ [(w, p, f)]) t v =
    (if vpage v = vpage w then Some (p OR VM_FLAG_PRESENT OR take_bit 16 f) else kmap_lookup rs t v)"
  by (simp add: kmap_lookup_def)

lemma kmap_lookup_cases:
  "(kmap_lookup rs t v = t v \<and> (\<forall>w p f. (w, p, f) \<in> set rs \<longrightarrow> vpage v \<noteq> vpage w)) \<or>
   (\<exists>w p f. (w, p, f) \<in> set rs \<and> vpage v = vpage w \<and> kmap_lookup rs t v = Some (p OR VM_FLAG_PRESENT OR take_bit 16 f))"
proof (induction rs rule: rev_induct)
  case (snoc r rs)
  obtain w p f where r: "r = (w, p, f)" by (cases r) auto
  show ?case using snoc unfolding r kmap_lookup_snoc by (cases "vpage v = vpage w") (simp, blast, simp, blast)
qed (simp add: kmap_lookup_def)

lemma kmap_lookup_other: "(\<And>w p f. (w, p, f) \<in> set rs \<Longrightarrow> vpage v \<noteq> vpage w) \<Longrightarrow> kmap_lookup rs t v = t v"
  using kmap_lookup_cases [of rs t v] by blast

lemma kmap_lookup_mem:
  assumes "(w, p, f) \<in> set rs" "vpage v = vpage w" "\<And>w' p' f'. (w', p', f') \<in> set rs \<Longrightarrow> vpage w' = vpage w \<Longrightarrow> p' = p \<and> f' = f"
  shows "kmap_lookup rs t v = Some (p OR VM_FLAG_PRESENT OR take_bit 16 f)"
  using kmap_lookup_cases [of rs t v] assms by metis

lemma heap_page_count: "page_count HEAP_START HEAP_END = 512" "unat HEAP_START + 4096 * 512 < 2 ^ 64"
  by (simp_all add: page_count_def HEAP_START_def HEAP_END_def HEAP_SIZE_def)

lemma heap_vpage_inj: "i < 512 \<Longrightarrow> j < 512 \<Longrightarrow>
  vpage (HEAP_START + 4096 * of_nat i) = vpage (HEAP_START + 4096 * of_nat j) \<longleftrightarrow> i = j"
proof -
  have "unat (take_bit 36 (drop_bit 12 (HEAP_START + 4096 * of_nat i))) = 0x810000000 + i" if "i < 512" for i
  proof -
    have "unat (HEAP_START + 4096 * of_nat i) = unat HEAP_START + 4096 * i"
      using unat_plus_of_nat [of HEAP_START "4096 * i"] that by (simp add: HEAP_START_def)
    then have "unat (drop_bit 12 (HEAP_START + 4096 * of_nat i)) = 0xffff810000000 + i"
      using that by (simp only: unsigned_drop_bit_eq) (simp add: drop_bit_eq_div HEAP_START_def take_bit_nat_eq_self)
    moreover have "(0xffff810000000 + i) mod 2 ^ 36 = 0x810000000 + i"
      using that mod_mult_self1 [of "0x810000000 + i" 65535 "2 ^ 36"] by simp
    ultimately show ?thesis by (simp only: unsigned_take_bit_eq) (simp only: take_bit_eq_mod)
  qed
  then show "i < 512 \<Longrightarrow> j < 512 \<Longrightarrow> ?thesis" unfolding vpage_eq by (metis add_left_cancel)
qed

section \<open>Correctness\<close>


text \<open>C32. The flags argument of \<open>paging_map_page\<close> is 16 bits wide, so the no-execute bit that \<open>vmm_init\<close>
  and \<open>kmalloc_init\<close> pass for read-only and data pages never reaches a page-table entry.\<close>

theorem vmm_map_drops_nx: "vmm_map pml4 virt phys (flags OR VM_FLAG_NX) s = vmm_map pml4 virt phys flags s"
proof -
  have nx: "VM_FLAG_NX = 2 ^ 63" by (simp add: VM_FLAG_NX_def)
  have "\<not> bit VM_FLAG_NX n" if "n < 16" for n using that unfolding nx by (simp only: bit_exp_iff) simp
  then have "ucast (flags OR VM_FLAG_NX) = (ucast flags :: u16)" by (intro bit_eqI) (auto simp: bit_simps)
  then show ?thesis by (simp add: vmm_map_def)
qed

text \<open>C16. \<open>kmalloc_init\<close> gives each of the 512 pages of the heap a page frame of its own from the free list,
  mapped present and writable, changes the translation of no other page, and leaves a heap that is one
  free chunk.\<close>

theorem kmalloc_init_maps_heap:
  assumes "pt_inv s (kernel_pml4 s) ps" "2048 \<le> length ps" "freelist_head h = 0"
  shows "\<exists>s' h' fs. kmalloc_init s h = Some (s', h') \<and> length fs = 512 \<and> distinct fs \<and> set fs \<subseteq> set ps \<and>
    (\<forall>i<512. translate s' (kernel_pml4 s) (HEAP_START + 4096 * of_nat i) = Some (fs ! i OR VM_FLAG_PRESENT OR VM_FLAG_WRITE)) \<and>
    (\<forall>v. (\<forall>i<512. vpage v \<noteq> vpage (HEAP_START + 4096 * of_nat i)) \<longrightarrow>
       translate s' (kernel_pml4 s) v = translate s (kernel_pml4 s) v) \<and>
    heap_rep h' [(NCELLS, True)] [0]"
proof -
  let ?vs = "region_pages HEAP_START 512" and ?K = "kernel_pml4 s"
  have l: "length ?vs = 512" and n: "\<And>i. i < 512 \<Longrightarrow> ?vs ! i = HEAP_START + 4096 * of_nat i" by (simp_all add: region_pages_def)
  obtain fs k where fs: "length fs = 512" "distinct fs" "set fs \<subseteq> set ps"
      and t: "translate (fold heap_page ?vs s) ?K =
        kmap_lookup (map (\<lambda>(v, f). (v, f, VM_FLAG_WRITE OR VM_FLAG_NX)) (zip ?vs fs)) (translate s ?K)"
    using heap_pages_spec [of s ps ?vs, unfolded l] assms(1,2) by (simp del: fold_simps) blast
  let ?s' = "fold heap_page ?vs s"
  let ?rs = "map (\<lambda>(v, f). (v, f, VM_FLAG_WRITE OR VM_FLAG_NX)) (zip ?vs fs)"
  have "page_loop heap_page HEAP_START HEAP_END s = Some ?s'"
    by (rule page_loop_fold [OF heap_page_count(2) heap_page_count(1) [symmetric]])
  then have run: "kmalloc_init s h = Some (?s', kmalloc_init_heap h)"
    unfolding kmalloc_init_def heap_page_def [abs_def] by (simp only: option.case)
  have mem: "(w, p, f) \<in> set ?rs \<longleftrightarrow> (\<exists>i<512. w = HEAP_START + 4096 * of_nat i \<and> p = fs ! i \<and> f = VM_FLAG_WRITE OR VM_FLAG_NX)" for w p f
  proof -
    have "length ?rs = 512" and "\<And>i. i < 512 \<Longrightarrow> ?rs ! i = (HEAP_START + 4096 * of_nat i, fs ! i, VM_FLAG_WRITE OR VM_FLAG_NX)"
      using fs(1) l n by simp_all
    then show ?thesis unfolding in_set_conv_nth by (metis prod.inject)
  qed
  have tb: "take_bit 16 (VM_FLAG_WRITE OR VM_FLAG_NX) = VM_FLAG_WRITE"
    by (simp add: VM_FLAG_WRITE_def VM_FLAG_NX_def take_bit_eq_mod)
  have "translate ?s' ?K (HEAP_START + 4096 * of_nat i) = Some (fs ! i OR VM_FLAG_PRESENT OR take_bit 16 (VM_FLAG_WRITE OR VM_FLAG_NX))"
    if "i < 512" for i unfolding t
  proof (rule kmap_lookup_mem [OF _ refl])
    show "(HEAP_START + 4096 * of_nat i, fs ! i, VM_FLAG_WRITE OR VM_FLAG_NX) \<in> set ?rs" using that mem by blast
    show "p' = fs ! i \<and> f' = VM_FLAG_WRITE OR VM_FLAG_NX"
      if w: "(w', p', f') \<in> set ?rs" "vpage w' = vpage (HEAP_START + 4096 * of_nat i)" for w' p' f'
    proof -
      obtain j where "j < 512" "w' = HEAP_START + 4096 * of_nat j" "p' = fs ! j" "f' = VM_FLAG_WRITE OR VM_FLAG_NX"
        using w(1) mem by blast
      then show ?thesis using w(2) heap_vpage_inj [of j i] \<open>i < 512\<close> by simp
    qed
  qed
  note this [unfolded tb]
  moreover have "translate ?s' ?K v = translate s ?K v" if "\<forall>i<512. vpage v \<noteq> vpage (HEAP_START + 4096 * of_nat i)" for v
    unfolding t
  proof (rule kmap_lookup_other)
    fix w p f assume "(w, p, f) \<in> set ?rs"
    then obtain j where "j < 512" "w = HEAP_START + 4096 * of_nat j" using mem by blast
    then show "vpage v \<noteq> vpage w" using that by simp
  qed
  moreover have "heap_rep (kmalloc_init_heap h) [(NCELLS, True)] [0]"
    using boot_heap_rep [of "kmem h"] assms(3) by (cases h) (simp add: boot_heap_def)
  ultimately show ?thesis using run fs by blast
qed

text \<open>Concrete instances: the pool of nine frames, and one of 16 MiB.\<close>

definition small_layout :: kernel_layout where
  "small_layout = \<lparr>TEXT_START = 0xffffffff80000000, TEXT_END = 0xffffffff80001000, RODATA_START = 0xffffffff80001000,
     RODATA_END = 0xffffffff80001000, DATA_START = 0xffffffff80001000, DATA_END = 0xffffffff80001000,
     LIMINE_REQ_START = 0xffffffff80001000, LIMINE_REQ_END = 0xffffffff80001000\<rparr>"

definition small_map :: "PhysMemoryRegion list" where
  "small_map = [\<lparr>rg_base = 0x8000, rg_length = 0x1000, rg_type = PhysMemType_Usable\<rparr>]"

definition small_ka :: KernelAddress where
  "small_ka = \<lparr>ka_virt = 0xffffffff80000000, ka_phys = 0x200000\<rparr>"

lemma small_kernel_maps: "kernel_maps small_layout 0xffff800000000000 small_map small_ka =
    [(0xffffffff80000000, 0x200000, 0), (0xffff800000008000, 0x8000, VM_FLAG_WRITE OR VM_FLAG_NX)]"
  by (simp add: kernel_maps_def section_maps_def region_maps_def section_pages_def page_count_def region_pages_def
      small_layout_def small_map_def small_ka_def align_down_def align_up_def PAGE_SIZE_def VM_FLAG_DEFAULT_def)

lemma small_layout_ok: "layout_ok small_layout small_map"
  by (simp add: layout_ok_def loop_ok_def page_count_def small_layout_def small_map_def align_down_def align_up_def PAGE_SIZE_def)


lemma phys_mask_id: "pgal p \<Longrightarrow> unat p < 2 ^ 52 \<Longrightarrow> p AND PHYS_ADDR_MASK = p"
proof -
  assume p: "pgal p" "unat p < 2 ^ 52"
  have "take_bit 12 p = 0"
  proof (rule unat_eqD)
    show "unat (take_bit 12 p) = unat (0 :: u64)"
      using p(1) by (simp only: unsigned_take_bit_eq) (simp add: take_bit_eq_mod pgal_def dvd_eq_mod_eq_0)
  qed
  then have lo: "\<not> bit p n" if "n < 12" for n using that by (metis bit_take_bit_iff bit_0_eq bot_apply bot_bool_def)
  have "take_bit 52 p = p"
    by (rule unat_eqD) (use p(2) in \<open>simp only: unsigned_take_bit_eq take_bit_nat_eq_self\<close>)
  then have hi: "\<not> bit p n" if "52 \<le> n" for n using that by (metis bit_take_bit_iff not_less)
  then have "bit p n \<Longrightarrow> 12 \<le> n \<and> n < 52" for n using lo by (meson not_less)
  then show ?thesis by (intro bit_eqI) (auto simp: bit_simps bit_mask_phys)
qed

lemma big_pool:
  obtains s ps where "pt_inv s (kernel_pml4 s) ps" "length ps = 2048" "\<And>v. translate s (kernel_pml4 s) v = None"
proof -
  let ?h = "0xffff800000000000 :: u64" and ?qs = "region_pages 0x100000 2049"
  let ?p0 = "sample_pmm\<lparr>pmm_hhdm_offset := ?h\<rparr>"
  have nth: "unat (0x100000 + 4096 * of_nat i :: u64) = 0x100000 + 4096 * i" if "i < 2049" for i
    using unat_plus_of_nat [of "0x100000" "4096 * i"] that by simp
  have qs: "\<exists>i<2049. q = 0x100000 + 4096 * of_nat i" if "q \<in> set ?qs" for q using that by (auto simp: region_pages_def)
  have "q + ?h \<noteq> 0" if q: "q \<in> set ?qs" for q
  proof -
    obtain i where i: "i < 2049" "q = 0x100000 + 4096 * of_nat i" using qs [OF q] by blast
    then have "unat (q + ?h) = unat q + unat ?h" using nth [of i] by (simp add: unat_word_ariths)
    then show ?thesis by auto
  qed
  moreover have "pmm_rep ?p0 []" by (simp add: pmm_rep_def sample_pmm_def pgal_def)
  ultimately obtain p where p: "pmm_rep p (rev ?qs)" "pmm_hhdm_offset p = ?h"
    using pmm_region_loop_rep [of "0x100000" 2049 "0x901000" ?p0 "[]" 0] by (auto simp: pgal_def sample_pmm_def)
  obtain a ps where as: "rev ?qs = a # ps" "length ps = 2048" by (cases "rev ?qs") (auto simp: region_pages_def dest: arg_cong [of _ _ length])
  have "q AND PHYS_ADDR_MASK = q" if "q \<in> set ps" for q
  proof -
    have "q \<in> set ?qs" using that as by (metis list.set_intros(2) set_rev)
    then obtain i where "i < 2049" "q = 0x100000 + 4096 * of_nat i" using qs by blast
    then show ?thesis using nth [of i] by (intro phys_mask_id) (auto simp: pgal_def)
  qed
  then obtain pm1 where "pt_inv ((pool_vmm p)\<lparr>pm := pm1\<rparr>) a ps" "\<And>v. translate ((pool_vmm p)\<lparr>pm := pm1\<rparr>) a v = None"
    using pt_inv_fresh [of "pool_vmm p" a ps] p as by (auto simp: pool_vmm_def)
  then show thesis
    using that [of "(pool_vmm p)\<lparr>pm := pm1, kernel_pml4 := a\<rparr>" ps] as(2)
      same_tables [of "(pool_vmm p)\<lparr>pm := pm1, kernel_pml4 := a\<rparr>" "(pool_vmm p)\<lparr>pm := pm1\<rparr>"] by simp
qed

theorem kmalloc_init_maps_heap_witness:
  "\<exists>s s' h' f. kmalloc_init s \<lparr>kmem = (\<lambda>_. 0), freelist_head = 0\<rparr> = Some (s', h') \<and>
     translate s (kernel_pml4 s) HEAP_START = None \<and>
     translate s' (kernel_pml4 s) HEAP_START = Some (f OR VM_FLAG_PRESENT OR VM_FLAG_WRITE) \<and> heap_rep h' [(NCELLS, True)] [0]"
proof -
  obtain s ps where s: "pt_inv s (kernel_pml4 s) ps" "length ps = 2048" "translate s (kernel_pml4 s) HEAP_START = None"
    by (rule big_pool) blast
  then obtain s' h' fs where "kmalloc_init s \<lparr>kmem = (\<lambda>_. 0), freelist_head = 0\<rparr> = Some (s', h')"
      "translate s' (kernel_pml4 s) (HEAP_START + 4096 * of_nat 0) = Some (fs ! 0 OR VM_FLAG_PRESENT OR VM_FLAG_WRITE)"
      "heap_rep h' [(NCELLS, True)] [0]"
    using kmalloc_init_maps_heap [OF s(1), of "\<lparr>kmem = (\<lambda>_. 0), freelist_head = 0\<rparr>"] by (metis kheap.select_convs(2) order_refl zero_less_numeral)
  then show ?thesis using s(3) by (simp del: mult_zero_right) (metis add.right_neutral mult_zero_right of_nat_0)
qed

end
