(* ===== verification/Clock.thy ===== *)
theory Clock
  imports Machine Vmm
begin

text \<open>
  Clocks: \<open>kernel/hardware/tsc.c\<close>, \<open>kernel/acpi/hpet.c\<close> and \<open>kernel/time/timer.c\<close>. The counters are read
  from the hardware, so their values are answers of the device; the busy-waiting loop may run for
  ever, and its two properties say when it does and when it returns.
\<close>

section \<open>Time stamp counter\<close>

definition ONE_SECOND :: u64 where "ONE_SECOND = 1000000000"

definition tsc_read :: "hw \<Rightarrow> u64 \<times> hw" where
  "tsc_read s = hw_ask Rdtsc s"

definition tsc_ns_to_ticks :: "u64 \<Rightarrow> u64 \<Rightarrow> u64" where
  "tsc_ns_to_ticks tsc_freq time = tsc_freq * time div ONE_SECOND"

definition tsc_ticks_to_ns :: "u64 \<Rightarrow> u64 \<Rightarrow> u64" where
  "tsc_ticks_to_ns tsc_freq ticks =
     (let quot = ticks div tsc_freq;
          rem = ticks mod tsc_freq
      in quot * ONE_SECOND + (rem * ONE_SECOND) div tsc_freq)"

definition tsc_read_ns :: "u64 \<Rightarrow> hw \<Rightarrow> u64 \<times> hw" where
  "tsc_read_ns tsc_freq s = (let (t, s1) = tsc_read s in (tsc_ticks_to_ns tsc_freq t, s1))"

section \<open>High precision event timer\<close>

text \<open>Offsets of the registers in \<open>HpetRegisters\<close>.\<close>

definition HPET_capabilities :: u64 where "HPET_capabilities = 0"
definition HPET_configuration :: u64 where "HPET_configuration = 0x10"
definition HPET_main_counter :: u64 where "HPET_main_counter = 0xf0"

record HPET =
  hpet_regs :: u64
  hpet_period :: u64

definition hpet_get_elapsed_ns :: "HPET \<Rightarrow> hw \<Rightarrow> u64 \<times> hw" where
  "hpet_get_elapsed_ns h s =
     (let (c, s1) = hw_ask (Mmio_R64 (hpet_regs h + HPET_main_counter)) s
      in (c * (hpet_period h div 1000000), s1))"

definition hpet_reset :: "HPET \<Rightarrow> hw \<Rightarrow> hw" where
  "hpet_reset h s = hw_do (Mmio_W64 (hpet_regs h + HPET_main_counter) 0) s"

definition hpet_setup :: "u64 \<Rightarrow> u64 \<Rightarrow> vmm \<Rightarrow> hw \<Rightarrow> HPET \<times> vmm \<times> hw" where
  "hpet_setup hhdm_offset addr vm s =
     (let vm1 = vmm_kmap (addr + hhdm_offset) addr (VM_FLAG_WRITE OR VM_FLAG_NX) vm;
          regs = addr + hhdm_offset;
          (caps, s1) = hw_ask (Mmio_R64 (regs + HPET_capabilities)) s;
          period = drop_bit 32 caps;
          (conf, s2) = hw_ask (Mmio_R64 (regs + HPET_configuration)) s1;
          s3 = hw_do (Mmio_W64 (regs + HPET_configuration) (conf OR 1)) s2
      in (\<lparr>hpet_regs = regs, hpet_period = period\<rparr>, vm1, s3))"

text \<open>The table lookup of uACPI is a parameter: it yields the address field of the HPET table if the firmware has one.\<close>

definition hpet_init :: "u64 option \<Rightarrow> u64 \<Rightarrow> vmm \<Rightarrow> hw \<Rightarrow> halt + (HPET \<times> vmm \<times> hw)" where
  "hpet_init hpet_table offset vm s =
     (case hpet_table of
        None \<Rightarrow> Inl (KAssert ''[ACPI] HPET table not found'')
      | Some addr \<Rightarrow> Inr (hpet_setup offset addr vm s))"

section \<open>Timer\<close>

definition timer_init :: "u64 option \<Rightarrow> u64 \<Rightarrow> vmm \<Rightarrow> hw \<Rightarrow> halt + (HPET \<times> vmm \<times> hw)" where
  "timer_init hpet_table hhdm_offset vm s = hpet_init hpet_table hhdm_offset vm s"

definition timer_get_elapsed_ns :: "HPET \<Rightarrow> hw \<Rightarrow> u64 \<times> hw" where
  "timer_get_elapsed_ns timer s = hpet_get_elapsed_ns timer s"

definition timer_set_elapsed_ns :: "HPET \<Rightarrow> u64 \<Rightarrow> hw \<Rightarrow> u64 \<times> hw" where
  "timer_set_elapsed_ns timer val s = (let clock_base_ns = val in (clock_base_ns, hpet_reset timer s))"

partial_function (option) timer_wait_loop :: "HPET \<Rightarrow> u64 \<Rightarrow> hw \<Rightarrow> hw option" where
  "timer_wait_loop timer time s =
     (if time > fst (timer_get_elapsed_ns timer s)
      then timer_wait_loop timer time (hw_do Pause (snd (timer_get_elapsed_ns timer s)))
      else Some (snd (timer_get_elapsed_ns timer s)))"

definition timer_wait_ns :: "HPET \<Rightarrow> u64 \<Rightarrow> hw \<Rightarrow> hw option" where
  "timer_wait_ns timer val s =
     (let (now, s1) = timer_get_elapsed_ns timer s;
          time = now + val
      in timer_wait_loop timer time s1)"

definition tsc_init :: "HPET \<Rightarrow> hw \<Rightarrow> (u64 \<times> hw) option" where
  "tsc_init timer s =
     (let ten_ms = 10000000;
          (tsc_start, s1) = tsc_read s
      in case timer_wait_ns timer ten_ms s1 of
           None \<Rightarrow> None
         | Some s2 \<Rightarrow>
             let (tsc_end, s3) = tsc_read s2
             in Some ((tsc_end - tsc_start) * 100, s3))"

section \<open>Properties\<close>

lemma scaled_div: "0 < f \<Longrightarrow> t * g div f = t div f * g + t mod f * g div f" for t g f :: nat
proof -
  assume f: "0 < f"
  have "t * g = (t div f * f + t mod f) * g" by simp
  also have "\<dots> = t mod f * g + t div f * g * f" by (simp only: add_mult_distrib mult.assoc mult.commute [of f] add.commute)
  finally show ?thesis using f by (simp only: div_mult_self1 add.commute)
qed

lemma unat_second: "unat ONE_SECOND = 10 ^ 9"
  by (simp add: ONE_SECOND_def)

text \<open>C38. Converting time stamps to nanoseconds is exact, rounded down: for a frequency below 18.4 GHz and a time
  stamp whose nanoseconds fit 64 bits the two-step division equals \<open>ticks * 1000000000 / freq\<close>, with no wrap-around.\<close>

theorem tsc_ticks_to_ns_exact:
  assumes "0 < unat freq" "unat freq * 10 ^ 9 \<le> 2 ^ 64" "unat ticks * 10 ^ 9 div unat freq < 2 ^ 64"
  shows "unat (tsc_ticks_to_ns freq ticks) = unat ticks * 10 ^ 9 div unat freq"
proof -
  let ?f = "unat freq" and ?t = "unat ticks" and ?G = "10 ^ 9 :: nat"
  have r: "unat (ticks mod freq) = ?t mod ?f" "unat (ticks div freq) = ?t div ?f" by (simp_all add: unat_mod_distrib unat_div_distrib)
  have "?t mod ?f * ?G < ?f * ?G" using assms(1) by simp
  then have lt: "?t mod ?f * ?G < 2 ^ 64" using assms(2) by linarith
  then have 1: "unat (ticks mod freq * ONE_SECOND) = ?t mod ?f * ?G"
    using unat_mult64 [of "ticks mod freq" ONE_SECOND] by (simp only: r unat_second)
  have q: "?t * ?G div ?f = ?t div ?f * ?G + ?t mod ?f * ?G div ?f" using assms(1) by (rule scaled_div)
  then have "?t div ?f * ?G < 2 ^ 64" using assms(3) by linarith
  then have 2: "unat (ticks div freq * ONE_SECOND) = ?t div ?f * ?G"
    using unat_mult64 [of "ticks div freq" ONE_SECOND] by (simp only: r unat_second)
  have 3: "unat (ticks mod freq * ONE_SECOND div freq) = ?t mod ?f * ?G div ?f" by (simp only: unat_div_distrib 1)
  have "unat (ticks div freq * ONE_SECOND + ticks mod freq * ONE_SECOND div freq) = ?t * ?G div ?f"
    using unat_add64 [of "ticks div freq * ONE_SECOND" "ticks mod freq * ONE_SECOND div freq"] assms(3) by (simp only: 2 3 q)
  then show ?thesis by (simp only: tsc_ticks_to_ns_def Let_def)
qed

theorem tsc_ticks_to_ns_exact_witness: "unat (tsc_ticks_to_ns 3000000000 10) = 3"
  using tsc_ticks_to_ns_exact [of 3000000000 10] by simp

text \<open>The inverse conversion multiplies before dividing: at 3 GHz it wraps around for seven seconds.\<close>

theorem tsc_ns_to_ticks_wraps: "unat (tsc_ns_to_ticks 3000000000 7000000000) < 3 * unat (7000000000 :: u64)"
  by (simp add: tsc_ns_to_ticks_def ONE_SECOND_def)

lemma wait_loop_stuck:
  "timer_wait_loop timer time s = Some s' \<Longrightarrow> hpet_period timer div 1000000 = 0 \<longrightarrow> 0 < time \<longrightarrow> False"
proof (rule timer_wait_loop.raw_induct [where P = "\<lambda>timer time s s'. hpet_period timer div 1000000 = 0 \<longrightarrow> 0 < time \<longrightarrow> False"])
  fix loop and timer :: HPET and time :: u64 and s s' :: hw
  assume IH: "\<And>timer time s s'. loop timer time s = Some s' \<Longrightarrow> hpet_period timer div 1000000 = 0 \<longrightarrow> 0 < time \<longrightarrow> False"
    and e: "(if fst (timer_get_elapsed_ns timer s) < time then loop timer time (hw_do Pause (snd (timer_get_elapsed_ns timer s)))
      else Some (snd (timer_get_elapsed_ns timer s))) = Some s'"
  show "hpet_period timer div 1000000 = 0 \<longrightarrow> 0 < time \<longrightarrow> False"
  proof (intro impI)
    assume z: "hpet_period timer div 1000000 = 0" "0 < time"
    have "fst (timer_get_elapsed_ns timer s) = 0"
      by (simp add: timer_get_elapsed_ns_def hpet_get_elapsed_ns_def z(1) case_prod_beta)
    then show False using e z IH by (auto split: if_splits)
  qed
qed

text \<open>A timer whose period is below one nanosecond (a million femtoseconds) reads as zero for ever, so waiting
  for it never returns, and neither does \<open>tsc_init\<close>.\<close>

lemma timer_wait_sub_nanosecond:
  assumes "unat (hpet_period timer) < 1000000" "0 < val"
  shows "timer_wait_ns timer val s = None \<and> tsc_init timer s = None"
proof -
  have z: "hpet_period timer div 1000000 = 0"
    using assms(1) by (intro unat_eqD) (simp add: unat_div_distrib)
  then have e: "timer_get_elapsed_ns timer s = (0, snd (timer_get_elapsed_ns timer s))" for s
    by (simp add: timer_get_elapsed_ns_def hpet_get_elapsed_ns_def case_prod_beta)
  have w: "timer_wait_ns timer v s = None" if "0 < v" for v s
  proof -
    have "timer_wait_ns timer v s = timer_wait_loop timer v (snd (timer_get_elapsed_ns timer s))"
      unfolding timer_wait_ns_def by (subst e) simp
    then show ?thesis using wait_loop_stuck [of timer v] z that by (metis not_None_eq)
  qed
  then show ?thesis using assms(2) by (simp add: tsc_init_def case_prod_beta Let_def)
qed

theorem timer_wait_sub_nanosecond_witness:
  "timer_wait_ns \<lparr>hpet_regs = 0, hpet_period = 69841\<rparr> 5 \<lparr>io = [], dev = \<lambda>_ _. 0\<rparr> = None"
  using timer_wait_sub_nanosecond [of "\<lparr>hpet_regs = 0, hpet_period = 69841\<rparr>" 5] by simp

text \<open>The state after \<open>n\<close> rounds of the waiting loop.\<close>

definition polls :: "HPET \<Rightarrow> nat \<Rightarrow> hw \<Rightarrow> hw" where
  "polls timer n s = ((\<lambda>s. hw_do Pause (snd (timer_get_elapsed_ns timer s))) ^^ n) s"

lemma wait_loop_returns:
  "time \<le> fst (timer_get_elapsed_ns timer (polls timer n s)) \<Longrightarrow>
   \<exists>k\<le>n. timer_wait_loop timer time s = Some (snd (timer_get_elapsed_ns timer (polls timer k s))) \<and>
     time \<le> fst (timer_get_elapsed_ns timer (polls timer k s)) \<and>
     (\<forall>j<k. fst (timer_get_elapsed_ns timer (polls timer j s)) < time)"
proof (induction n arbitrary: s)
  case 0
  then have "\<not> fst (timer_get_elapsed_ns timer s) < time" by (simp add: polls_def not_less)
  then show ?case by (subst timer_wait_loop.simps) (simp add: polls_def)
next
  case (Suc n)
  let ?p = "hw_do Pause (snd (timer_get_elapsed_ns timer s))"
  have sh: "polls timer (Suc k) s = polls timer k ?p" for k by (simp add: polls_def funpow_Suc_right del: funpow.simps)
  show ?case
  proof (cases "fst (timer_get_elapsed_ns timer s) < time")
    case True
    obtain k where k: "k \<le> n" "timer_wait_loop timer time ?p = Some (snd (timer_get_elapsed_ns timer (polls timer k ?p)))"
        "time \<le> fst (timer_get_elapsed_ns timer (polls timer k ?p))" "\<forall>j<k. fst (timer_get_elapsed_ns timer (polls timer j ?p)) < time"
      using Suc.IH [of ?p] Suc.prems by (auto simp: sh)
    have "fst (timer_get_elapsed_ns timer (polls timer j s)) < time" if "j < Suc k" for j
      using that k(4) True by (cases j) (simp_all add: sh, simp add: polls_def)
    then show ?thesis using k(1-3) True by (intro exI [of _ "Suc k"]) (simp add: sh timer_wait_loop.simps [of timer time s])
  next
    case False
    then show ?thesis by (intro exI [of _ 0], subst timer_wait_loop.simps) (simp add: polls_def)
  qed
qed

text \<open>C28. \<open>timer_wait_ns\<close> returns as soon as the counter has reached the end of the interval: if some later reading
  does so, the wait ends at the first such reading.\<close>

theorem timer_wait_returns:
  assumes "timer_get_elapsed_ns timer s = (now, s1)" "now + val \<le> fst (timer_get_elapsed_ns timer (polls timer n s1))"
  shows "\<exists>k\<le>n. timer_wait_ns timer val s = Some (snd (timer_get_elapsed_ns timer (polls timer k s1))) \<and>
    now + val \<le> fst (timer_get_elapsed_ns timer (polls timer k s1)) \<and>
    (\<forall>j<k. fst (timer_get_elapsed_ns timer (polls timer j s1)) < now + val)"
  using wait_loop_returns [OF assms(2)] assms(1) by (simp add: timer_wait_ns_def)

definition counting_hw :: hw where
  "counting_hw = \<lparr>io = [], dev = \<lambda>h e. of_nat (length h)\<rparr>"

definition counting_hpet :: HPET where
  "counting_hpet = \<lparr>hpet_regs = 0, hpet_period = 1000000\<rparr>"

theorem timer_wait_returns_witness: "\<exists>s'. timer_wait_ns counting_hpet 3 counting_hw = Some s'"
proof -
  let ?s1 = "\<lparr>io = [Mmio_R64 0xf0], dev = \<lambda>h e. of_nat (length h)\<rparr>"
  have "timer_get_elapsed_ns counting_hpet counting_hw = (0, ?s1)"
    by (simp add: timer_get_elapsed_ns_def hpet_get_elapsed_ns_def hw_ask_def counting_hw_def counting_hpet_def HPET_main_counter_def)
  moreover have "0 + 3 \<le> fst (timer_get_elapsed_ns counting_hpet (polls counting_hpet 1 ?s1))"
    by (simp add: timer_get_elapsed_ns_def hpet_get_elapsed_ns_def hw_ask_def hw_do_def polls_def counting_hpet_def HPET_main_counter_def)
  ultimately show ?thesis using timer_wait_returns [of counting_hpet counting_hw 0 ?s1 3 1] by blast
qed

end
