(* ===== verification/Tty.thy ===== *)
theory Tty
  imports Font Common
begin

text \<open>
  \<open>log/tty.c\<close>: the text console on the framebuffer and the kernel's \<open>kprintf\<close>. The framebuffer is a
  store of 32-bit pixels indexed by the 32-bit index the code computes. Strings are lists of
  characters without their terminator; the arguments of a variadic call are a list.
\<close>

section \<open>Operations\<close>

record tty =
  char_width :: u32
  char_height :: u32
  fb_width :: u32
  fb_height :: u32
  tty_row :: u64
  tty_column :: u64
  framebuffer :: "u32 \<Rightarrow> u32"

definition tty_init :: "u32 \<Rightarrow> u32 \<Rightarrow> (u32 \<Rightarrow> u32) \<Rightarrow> tty" where
  "tty_init width height fb = \<lparr>char_width = width div 9, char_height = height div 17, fb_width = width, fb_height = height,
     tty_row = 0, tty_column = 0, framebuffer = fb\<rparr>"

text \<open>The glyph of a character. A \<open>char\<close> is signed, so the index \<open>c - 32\<close> is negative, and the access
  outside the table, for control characters and for characters from 128 on.\<close>

definition glyph :: "char \<Rightarrow> u8 list option" where
  "glyph c = (if 32 \<le> (of_char c :: nat) \<and> (of_char c :: nat) < 128 then Some (font_8x16 ! (of_char c - 32)) else None)"

text \<open>The inner loop draws nine pixels, from bit 8 of the sign-extended byte down to bit 0.\<close>

fun tty_pixels :: "u32 \<Rightarrow> u8 \<Rightarrow> u32 \<Rightarrow> u32 \<Rightarrow> nat list \<Rightarrow> (u32 \<Rightarrow> u32) \<Rightarrow> (u32 \<Rightarrow> u32)" where
  "tty_pixels width byte x y [] fb = fb"
| "tty_pixels width byte x y (i # is) fb =
     tty_pixels width byte (x + 1) y is
       (fb(y * width + x := (if bit (scast byte :: u32) i then 0xffffff else 0)))"

fun tty_rows :: "u32 \<Rightarrow> u8 list \<Rightarrow> u32 \<Rightarrow> u32 \<Rightarrow> nat list \<Rightarrow> (u32 \<Rightarrow> u32) \<Rightarrow> (u32 \<Rightarrow> u32)" where
  "tty_rows width data x y [] fb = fb"
| "tty_rows width data x y (j # js) fb =
     tty_rows width data x (y + 1) js (tty_pixels width (data ! j) x y (rev [0..<9]) fb)"

definition tty_kputchar_at :: "u32 \<Rightarrow> u32 \<Rightarrow> char \<Rightarrow> tty \<Rightarrow> tty option" where
  "tty_kputchar_at x y c s =
     (let x1 = (if x \<ge> fb_width s then 0 else x);
          y1 = (if y \<ge> fb_height s then 0 else y);
          x2 = x1 * 9;
          y2 = y1 * 17
      in case glyph c of
           None \<Rightarrow> None
         | Some data \<Rightarrow> Some (s\<lparr>framebuffer := tty_rows (fb_width s) data x2 y2 [0..<16] (framebuffer s)\<rparr>))"

definition tty_kputchar :: "char \<Rightarrow> tty \<Rightarrow> tty option" where
  "tty_kputchar c s =
     (let s1 = (if tty_row s \<ge> ucast (fb_height s) then s\<lparr>tty_row := 0\<rparr> else s);
          s2 = (if tty_column s1 \<ge> ucast (fb_width s1) then s1\<lparr>tty_column := 0\<rparr> else s1)
      in if c = CHR 0x0A then
           let s3 = (if tty_row s2 > ucast (char_height s2) then s2\<lparr>tty_row := 0\<rparr> else s2)
           in Some (s3\<lparr>tty_column := 0, tty_row := tty_row s3 + 1\<rparr>)
         else case tty_kputchar_at (ucast (tty_column s2)) (ucast (tty_row s2)) c s2 of
                None \<Rightarrow> None
              | Some s3 \<Rightarrow>
                  let s4 = s3\<lparr>tty_column := tty_column s3 + 1\<rparr>
                  in Some (if tty_column s4 > ucast (char_width s4)
                           then s4\<lparr>tty_column := 0, tty_row := tty_row s4 + 1\<rparr> else s4))"

definition kputchar :: "char \<Rightarrow> tty \<Rightarrow> tty option" where
  "kputchar c s = tty_kputchar c s"

fun kputs :: "string \<Rightarrow> tty \<Rightarrow> tty option" where
  "kputs [] s = Some s"
| "kputs (c # cs) s = (case kputchar c s of None \<Rightarrow> None | Some s' \<Rightarrow> kputs cs s')"

text \<open>The in-place reversal of the first \<open>length\<close> characters, with the two indices of the loop.\<close>

function reverse_loop :: "nat \<Rightarrow> nat \<Rightarrow> 'a list \<Rightarrow> 'a list" where
  "reverse_loop start stop str =
     (if start < stop then reverse_loop (start + 1) (stop - 1) (str[start := str ! stop, stop := str ! start]) else str)"
  by pat_completeness auto
termination by (relation "measure (\<lambda>(s, e, _). e - s)") auto

definition reverse :: "'a list \<Rightarrow> nat \<Rightarrow> 'a list" where
  "reverse str len = reverse_loop 0 (len - 1) str"

definition itoa_digit :: "u64 \<Rightarrow> char" where
  "itoa_digit remainder = char_of (if unat remainder > 9 then unat remainder - 10 + 97 else unat remainder + 48)"

function itoa_loop :: "u64 \<Rightarrow> u64 \<Rightarrow> string \<Rightarrow> string" where
  "itoa_loop v0 base str =
     (let str' = str @ [itoa_digit (v0 mod base)];
          v = v0 div base
      in if v \<noteq> 0 \<and> 2 \<le> base then itoa_loop v base str' else str')"
  by pat_completeness auto
termination
proof (relation "measure (\<lambda>(v, b, _). unat v)")
  fix v0 base :: u64 and str str' v
  assume v: "v = v0 div base" "v \<noteq> 0 \<and> 2 \<le> base"
  then have "2 \<le> unat base" by (simp add: word_le_nat_alt)
  moreover have "unat v = unat v0 div unat base" by (simp add: v(1) unat_div_distrib)
  moreover have "0 < unat v" using v(2) by (simp add: unat_gt_0)
  ultimately have "unat v < unat v0" by (metis div_greater_zero_iff div_less_dividend less_le_trans one_less_numeral_iff semiring_norm(76) zero_less_numeral)
  then show "((v, base, str'), v0, base, str) \<in> measure (\<lambda>(v, b, _). unat v)" by simp
qed simp

definition itoa :: "u64 \<Rightarrow> int \<Rightarrow> string" where
  "itoa v0 base =
     (if base < 2 \<or> base > 36 then []
      else let str = itoa_loop v0 (of_int base) [] in reverse str (length str))"

datatype karg = KStr string | KInt u64

text \<open>The characters \<open>kprintf\<close> passes to \<open>kputchar\<close>; \<open>None\<close> is a \<open>va_arg\<close> that finds no argument of
  the right kind.\<close>

fun kprintf_chars :: "string \<Rightarrow> karg list \<Rightarrow> string option" where
  "kprintf_chars [] args = Some []"
| "kprintf_chars (c # fmt) args =
     (if c \<noteq> CHR ''%'' then map_option ((#) c) (kprintf_chars fmt args)
      else case fmt of
        [] \<Rightarrow> Some []
      | d # rest \<Rightarrow>
          if d = CHR ''s'' then
            (case args of KStr s # args' \<Rightarrow> map_option ((@) s) (kprintf_chars rest args') | _ \<Rightarrow> None)
          else if d = CHR ''c'' then
            (case args of KInt n # args' \<Rightarrow> map_option ((#) (char_of (unat n))) (kprintf_chars rest args') | _ \<Rightarrow> None)
          else if d = CHR ''d'' then
            (case args of KInt n # args' \<Rightarrow> map_option ((@) (itoa n 10)) (kprintf_chars rest args') | _ \<Rightarrow> None)
          else if d = CHR ''x'' then
            (case args of KInt n # args' \<Rightarrow> map_option ((@) (itoa n 16)) (kprintf_chars rest args') | _ \<Rightarrow> None)
          else kprintf_chars rest args)"

definition kprintf :: "string \<Rightarrow> karg list \<Rightarrow> tty \<Rightarrow> tty option" where
  "kprintf format args s = Option.bind (kprintf_chars format args) (\<lambda>out. kputs out s)"

section \<open>Numbers\<close>

declare reverse_loop.simps [simp del] itoa_loop.simps [simp del]

lemma reverse_loop_nth:
  "length (reverse_loop i j xs) = length xs \<and>
   (j < length xs \<longrightarrow> (\<forall>k<length xs. reverse_loop i j xs ! k = (if i \<le> k \<and> k \<le> j then xs ! (i + j - k) else xs ! k)))"
proof (induction i j xs rule: reverse_loop.induct)
  case (1 i j xs)
  show ?case
  proof (cases "i < j")
    case True
    let ?ys = "xs[i := xs ! j, j := xs ! i]"
    have IH: "length (reverse_loop (i + 1) (j - 1) ?ys) = length xs"
      "j < length xs \<Longrightarrow> k < length xs \<Longrightarrow> reverse_loop (i + 1) (j - 1) ?ys ! k =
         (if i + 1 \<le> k \<and> k \<le> j - 1 then ?ys ! (i + 1 + (j - 1) - k) else ?ys ! k)" for k
      using 1 True by auto
    have "reverse_loop i j xs ! k = (if i \<le> k \<and> k \<le> j then xs ! (i + j - k) else xs ! k)" if "j < length xs" "k < length xs" for k
      using IH(2) [OF that] True that by (subst reverse_loop.simps) (auto simp: nth_list_update)
    then show ?thesis using IH(1) True by (subst (1) reverse_loop.simps) auto
  next
    case False
    then have "i \<le> k \<Longrightarrow> k \<le> j \<Longrightarrow> i + j - k = k" for k by simp
    then show ?thesis using False by (subst (1 2) reverse_loop.simps) auto
  qed
qed

lemma reverse_rev: "reverse xs (length xs) = rev xs"
proof (cases "xs = []")
  case True
  then show ?thesis by (simp add: reverse_def reverse_loop.simps)
next
  case False
  then show ?thesis
    using reverse_loop_nth [of 0 "length xs - 1" xs] by (intro nth_equalityI) (auto simp: reverse_def rev_nth)
qed

definition digit_val :: "char \<Rightarrow> nat" where
  "digit_val c = (if (of_char c :: nat) \<ge> 97 then of_char c - 87 else of_char c - 48)"

definition numeral_val :: "nat \<Rightarrow> string \<Rightarrow> nat" where
  "numeral_val b s = fold (\<lambda>c n. n * b + digit_val c) s 0"

lemma digit_val_itoa: "unat r < 36 \<Longrightarrow> digit_val (itoa_digit r) = unat r"
  by (auto simp: digit_val_def itoa_digit_def of_char_of)

lemma numeral_val_snoc: "numeral_val b (s @ [c]) = numeral_val b s * b + digit_val c"
  by (simp add: numeral_val_def)

lemma itoa_loop_val:
  assumes "2 \<le> unat b" "unat b \<le> 36"
  shows "\<exists>ds. itoa_loop v b acc = acc @ ds \<and> numeral_val (unat b) (rev ds) = unat v \<and> ds \<noteq> [] \<and>
    (v \<noteq> 0 \<longrightarrow> unat b ^ (length ds - 1) \<le> unat v) \<and> (v = 0 \<longrightarrow> length ds = 1)"
  using assms
proof (induction v b acc rule: itoa_loop.induct)
  case (1 v b acc)
  let ?d = "itoa_digit (v mod b)" and ?q = "v div b"
  have m: "unat (v mod b) = unat v mod unat b" "unat ?q = unat v div unat b" by (simp_all add: unat_mod_distrib unat_div_distrib)
  then have d: "digit_val ?d = unat v mod unat b" using "1.prems" by (subst digit_val_itoa) (auto intro: less_le_trans [OF mod_less_divisor])
  have le: "2 \<le> b" using "1.prems"(1) by (simp add: word_le_nat_alt)
  show ?case
  proof (cases "?q = 0")
    case True
    then have "unat v < unat b" using m(2) "1.prems"(1) by (simp add: div_eq_0_iff)
    then have "numeral_val (unat b) [?d] = unat v" using d by (simp add: numeral_val_def)
    then show ?thesis using True
      by (subst itoa_loop.simps) (auto simp: Let_def unat_gt_0 Suc_le_eq intro!: exI [of _ "[?d]"])
  next
    case False
    obtain ds where ds: "itoa_loop ?q b (acc @ [?d]) = (acc @ [?d]) @ ds" "numeral_val (unat b) (rev ds) = unat ?q"
        "ds \<noteq> []" "unat b ^ (length ds - 1) \<le> unat ?q"
      using "1.IH" [OF refl refl] False le "1.prems" by auto
    have "itoa_loop v b acc = acc @ (?d # ds)" using ds(1) False le by (subst itoa_loop.simps) (simp add: Let_def)
    moreover have "numeral_val (unat b) (rev (?d # ds)) = unat v"
      using ds(2) d m(2) by (simp add: numeral_val_snoc div_mult_mod_eq)
    moreover have "unat b ^ (length (?d # ds) - 1) \<le> unat v"
    proof -
      have "unat b ^ (length (?d # ds) - 1) = unat b * unat b ^ (length ds - 1)" using ds(3) by (cases ds) auto
      also have "\<dots> \<le> unat b * (unat v div unat b)" using ds(4) m(2) by simp
      also have "\<dots> \<le> unat v" by simp
      finally show ?thesis .
    qed
    moreover have "v \<noteq> 0" using False by auto
    ultimately show ?thesis by blast
  qed
qed

lemma itoa_val:
  assumes "2 \<le> b" "b \<le> 36"
  shows "numeral_val (nat b) (itoa v b) = unat v" "itoa v b \<noteq> []" "v \<noteq> 0 \<Longrightarrow> nat b ^ (length (itoa v b) - 1) \<le> unat v"
    "v = 0 \<Longrightarrow> length (itoa v b) = 1"
proof -
  have "(of_int b :: u64) = of_nat (nat b)" using assms(1) by (metis of_int_of_nat_eq int_nat_eq numeral_le_iff order_trans zero_le_numeral)
  moreover have "nat b < 2 ^ 64" using assms by simp
  ultimately have u: "unat (of_int b :: u64) = nat b" by (simp only: unat_of_nat64)
  have "2 \<le> unat (of_int b :: u64)" "unat (of_int b :: u64) \<le> 36" unfolding u using assms by simp_all
  from itoa_loop_val [OF this, of v "[]", unfolded u]
  obtain ds where "itoa_loop v (of_int b) [] = ds" "numeral_val (nat b) (rev ds) = unat v" "ds \<noteq> []"
      "v \<noteq> 0 \<longrightarrow> nat b ^ (length ds - 1) \<le> unat v" "v = 0 \<longrightarrow> length ds = 1"
    unfolding append_Nil by blast
  then show "numeral_val (nat b) (itoa v b) = unat v" "itoa v b \<noteq> []" "v \<noteq> 0 \<Longrightarrow> nat b ^ (length (itoa v b) - 1) \<le> unat v"
    "v = 0 \<Longrightarrow> length (itoa v b) = 1"
    using assms by (auto simp: itoa_def reverse_rev)
qed

section \<open>Drawing\<close>

text \<open>The pixels of the character cell at column \<open>x\<close> and row \<open>y\<close>.\<close>

definition cell :: "nat \<Rightarrow> nat \<Rightarrow> nat \<Rightarrow> nat set" where
  "cell w x y = {(17 * y + j) * w + 9 * x + i | i j. i < 9 \<and> j < 16}"

lemma tty_pixels_outside:
  "(\<And>k. k < length is \<Longrightarrow> y * w + (x + of_nat k) \<noteq> a) \<Longrightarrow> tty_pixels w b x y is fb a = fb a"
proof (induction "is" arbitrary: x fb)
  case (Cons i "is")
  have "tty_pixels w b (x + 1) y is fb' a = fb' a" for fb'
    using Cons.prems [of "Suc _"] by (intro Cons.IH) (simp add: add.assoc)
  then show ?case using Cons.prems [of 0] by simp
qed simp

lemma tty_rows_outside:
  "(\<And>j k. j < length js \<Longrightarrow> k < 9 \<Longrightarrow> (y + of_nat j) * w + (x + of_nat k) \<noteq> a) \<Longrightarrow> tty_rows w d x y js fb a = fb a"
proof (induction js arbitrary: y fb)
  case (Cons j js)
  have "tty_rows w d x (y + 1) js fb' a = fb' a" for fb'
    using Cons.prems [of "Suc _"] by (intro Cons.IH) (simp add: add.assoc)
  moreover have "tty_pixels w (d ! j) x y (rev [0..<9]) fb a = fb a"
    using Cons.prems [of 0] by (intro tty_pixels_outside) simp
  ultimately show ?case by simp
qed simp

lemma unat_of_nat32: "n < 2 ^ 32 \<Longrightarrow> unat (of_nat n :: u32) = n"
  by (simp add: unat_of_nat take_bit_nat_eq_self_iff)

lemma cell_index:
  assumes "x < w div 9" "y < h div 17" "i < 9" "j < 16" "w * h < 2 ^ 32"
  shows "unat (((of_nat y * 17 + of_nat j) * of_nat w + (of_nat x * 9 + of_nat i)) :: u32) = (17 * y + j) * w + 9 * x + i"
    and "(17 * y + j) * w + 9 * x + i < w * h"
proof -
  have x: "9 * x + i < w" using assms(1,3) by linarith
  have y: "17 * y + j + 1 \<le> h" using assms(2,4) by linarith
  have "(17 * y + j) * w + (9 * x + i) < (17 * y + j + 1) * w" using x by (simp add: distrib_right)
  also have "\<dots> \<le> h * w" using y by (rule mult_le_mono1)
  finally show lt: "(17 * y + j) * w + 9 * x + i < w * h" by (simp add: mult.commute add.assoc)
  have "((of_nat y * 17 + of_nat j) * of_nat w + (of_nat x * 9 + of_nat i) :: u32) = of_nat ((17 * y + j) * w + 9 * x + i)"
    by (simp add: algebra_simps)
  moreover have "(17 * y + j) * w + 9 * x + i < 2 ^ 32" using lt assms(5) by linarith
  ultimately show "unat (((of_nat y * 17 + of_nat j) * of_nat w + (of_nat x * 9 + of_nat i)) :: u32) = (17 * y + j) * w + 9 * x + i"
    by (simp only: unat_of_nat32)
qed

lemma kputchar_at_cell:
  assumes "unat (fb_width s) * unat (fb_height s) < 2 ^ 32" "x < unat (fb_width s) div 9" "y < unat (fb_height s) div 17"
    and s': "tty_kputchar_at (of_nat x) (of_nat y) c s = Some s'" and a: "unat a \<notin> cell (unat (fb_width s)) x y"
  shows "framebuffer s' a = framebuffer s a"
proof -
  let ?w = "unat (fb_width s)" and ?h = "unat (fb_height s)"
  have "x < ?w" "y < ?h" "?w < 2 ^ 32" "?h < 2 ^ 32" using assms(2,3) unsigned_less [of "fb_width s"] unsigned_less [of "fb_height s"] by auto
  then have "\<not> fb_width s \<le> of_nat x" "\<not> fb_height s \<le> of_nat y"
    by (simp_all add: word_le_nat_alt unat_of_nat take_bit_nat_eq_self)
  then obtain d where s'': "framebuffer s' = tty_rows (fb_width s) d (of_nat x * 9) (of_nat y * 17) [0..<16] (framebuffer s)"
    using s' by (auto simp: tty_kputchar_at_def Let_def split: option.splits)
  show ?thesis unfolding s''
  proof (rule tty_rows_outside)
    fix j k :: nat
    assume j: "j < length [0..<16]" "k < 9"
    have "unat ((of_nat y * 17 + of_nat j) * fb_width s + (of_nat x * 9 + of_nat k)) = (17 * y + j) * ?w + 9 * x + k"
      using cell_index(1) [OF assms(2,3) j(2) _ assms(1), of j] j(1) by simp
    moreover have "(17 * y + j) * ?w + 9 * x + k \<in> cell ?w x y" using j by (auto simp: cell_def)
    ultimately show "(of_nat y * 17 + of_nat j) * fb_width s + (of_nat x * 9 + of_nat k) \<noteq> a" using a by metis
  qed
qed

lemma kputchar_newline:
  assumes "tty_row s < ucast (fb_height s)" "tty_column s < ucast (fb_width s)" "tty_row s \<le> ucast (char_height s)"
  shows "kputchar CHR 0x0A s = Some (s\<lparr>tty_column := 0, tty_row := tty_row s + 1\<rparr>)"
proof -
  have "\<not> ucast (fb_height s) \<le> tty_row s" "\<not> ucast (fb_width s) \<le> tty_column s" "\<not> ucast (char_height s) < tty_row s"
    using assms by simp_all
  then show ?thesis by (simp add: kputchar_def tty_kputchar_def Let_def)
qed

section \<open>Properties\<close>

text \<open>C34. \<open>itoa\<close> in any supported base writes the digits of its argument, most significant first: reading
  the digits back gives the argument. In base ten the result and its terminator fit the 21-byte
  buffer of \<open>kprintf\<close> for every 64-bit value.\<close>

theorem itoa_roundtrip:
  assumes "2 \<le> base" "base \<le> 36"
  shows "numeral_val (nat base) (itoa v base) = unat v \<and> length (itoa v 10) + 1 \<le> 21"
proof
  show "numeral_val (nat base) (itoa v base) = unat v" by (rule itoa_val [OF assms])
  show "length (itoa v 10) + 1 \<le> 21"
  proof (cases "v = 0")
    case False
    then have "10 ^ (length (itoa v 10) - 1) < (2 :: nat) ^ 64"
      using itoa_val(3) [of 10 v] unat_less64 [of v] by simp
    also have "\<dots> < 10 ^ 20" by simp
    finally have "length (itoa v 10) - 1 < 20" by (rule power_less_imp_less_exp [rotated]) simp
    then show ?thesis by simp
  qed (use itoa_val(4) [of 10 v] in simp)
qed

theorem itoa_roundtrip_witness: "numeral_val 10 (itoa 1234 10) = 1234 \<and> length (itoa 1234 10) + 1 \<le> 21"
  using itoa_roundtrip [of 10 1234] by simp

text \<open>C35. Drawing a character whose cell lies on the screen changes no pixel outside its cell of nine by
  sixteen pixels, and that cell lies inside the framebuffer.\<close>

theorem tty_kputchar_at_inside:
  assumes "unat (fb_width s) * unat (fb_height s) < 2 ^ 32" "x < unat (char_width s)" "y < unat (char_height s)"
    "char_width s = fb_width s div 9" "char_height s = fb_height s div 17" "tty_kputchar_at (of_nat x) (of_nat y) c s = Some s'"
  shows "(\<forall>a. unat a \<notin> cell (unat (fb_width s)) x y \<longrightarrow> framebuffer s' a = framebuffer s a) \<and>
    (\<forall>n\<in>cell (unat (fb_width s)) x y. n < unat (fb_width s) * unat (fb_height s))"
proof -
  have xy: "x < unat (fb_width s) div 9" "y < unat (fb_height s) div 17" using assms(2-5) by (simp_all add: unat_div_distrib)
  have "n < unat (fb_width s) * unat (fb_height s)" if "n \<in> cell (unat (fb_width s)) x y" for n
    using that cell_index(2) [OF xy _ _ assms(1)] by (auto simp: cell_def)
  then show ?thesis using kputchar_at_cell [OF assms(1) xy assms(6)] by blast
qed

theorem tty_kputchar_at_inside_witness:
  "\<exists>s'. tty_kputchar_at 1 1 CHR ''A'' (tty_init 90 34 (\<lambda>_. 7)) = Some s' \<and> framebuffer s' 0 = 7"
proof -
  have "\<exists>s'. tty_kputchar_at (of_nat 1) (of_nat 1) CHR ''A'' (tty_init 90 34 (\<lambda>_. 7)) = Some s'"
    by (simp add: tty_kputchar_at_def glyph_def Let_def)
  then obtain s' where "tty_kputchar_at (of_nat 1) (of_nat 1) CHR ''A'' (tty_init 90 34 (\<lambda>_. 7)) = Some s'" by blast
  then show ?thesis
    using tty_kputchar_at_inside [of "tty_init 90 34 (\<lambda>_. 7)" 1 1 "CHR ''A''" s']
    by (auto simp: tty_init_def cell_def)
qed

text \<open>The row counter is reset only once it exceeds the number of text rows, so after as many newlines
  as there are rows the next character is drawn past the end of the framebuffer.\<close>

lemma tty_draws_past_the_end:
  "\<exists>s'. kputs [CHR 0x0A, CHR 0x0A, CHR ''A''] (tty_init 90 34 (\<lambda>_. 7)) = Some s' \<and> framebuffer s' (90 * 34) \<noteq> 7"
proof -
  have "rev [0..<9] = [8, 7, 6, 5, 4, 3, 2, 1, 0 :: nat]" by (simp add: upt_rec)
  then have "tty_pixels 90 b 0 34 (rev [0..<9]) fb 3060 \<noteq> 7" for b fb by (simp only: tty_pixels.simps) simp
  moreover have "tty_rows 90 d 0 35 [1..<16] fb 3060 = fb 3060" for d fb
  proof (rule tty_rows_outside)
    fix j k :: nat
    assume "j < length [1..<16]" "k < 9"
    then have "(35 + j) * 90 + k < 2 ^ 32" by simp
    then have u: "unat (of_nat ((35 + j) * 90 + k) :: u32) = (35 + j) * 90 + k" by (rule unat_of_nat32)
    have e: "(35 + of_nat j) * 90 + (0 + of_nat k) = (of_nat ((35 + j) * 90 + k) :: u32)" by (simp add: algebra_simps)
    show "(35 + of_nat j) * 90 + (0 + of_nat k) \<noteq> (3060 :: u32)"
    proof
      assume "(35 + of_nat j) * 90 + (0 + of_nat k) = (3060 :: u32)"
      then have "(35 + j) * 90 + k = unat (3060 :: u32)" unfolding e using u by metis
      then show False by simp
    qed
  qed
  moreover have "[0..<16] = (0 :: nat) # [1..<16]" by (simp add: upt_conv_Cons)
  ultimately have *: "tty_rows 90 d 0 34 [0..<16] fb 3060 \<noteq> 7" for d fb by (simp only: tty_rows.simps) simp
  define s2 where "s2 = (tty_init 90 34 (\<lambda>_. 7))\<lparr>tty_row := 2\<rparr>"
  obtain d where d: "glyph CHR ''A'' = Some d" by (simp add: glyph_def)
  let ?t = "tty_init 90 34 (\<lambda>_. 7)"
  have "kputchar CHR 0x0A ?t = Some (?t\<lparr>tty_column := 0, tty_row := 0 + 1\<rparr>)"
    "kputchar CHR 0x0A (?t\<lparr>tty_column := 0, tty_row := 0 + 1\<rparr>) = Some (?t\<lparr>tty_column := 0, tty_row := 1 + 1\<rparr>)"
    using kputchar_newline [of ?t] kputchar_newline [of "?t\<lparr>tty_column := 0, tty_row := 0 + 1\<rparr>"]
    by (simp_all add: tty_init_def word_less_nat_alt word_le_nat_alt)
  then have "kputs [CHR 0x0A, CHR 0x0A, CHR ''A''] ?t = kputs [CHR ''A''] (?t\<lparr>tty_column := 0, tty_row := 1 + 1\<rparr>)"
    by (simp only: kputs.simps option.case)
  also have "?t\<lparr>tty_column := 0, tty_row := 1 + 1\<rparr> = s2" by (simp add: s2_def tty_init_def)
  also have "kputs [CHR ''A''] s2 = kputchar CHR ''A'' s2" by (simp split: option.splits)
  also have "\<dots> = Some (s2\<lparr>framebuffer := tty_rows 90 d 0 34 [0..<16] (\<lambda>_. 7), tty_column := 1\<rparr>)"
    by (simp add: kputchar_def tty_kputchar_def tty_init_def Let_def tty_kputchar_at_def d s2_def del: tty_rows.simps upt_rec_numeral)
  finally show ?thesis using * [of d "\<lambda>_. 7"] by (simp del: tty_rows.simps upt_rec_numeral)
qed

end
