(* ===== verification/Cpu.thy ===== *)
theory Cpu
  imports Machine Tty
begin

text \<open>
  Processor tables and interrupt dispatch: \<open>kernel/cpu/gdt/gdt.c\<close>, \<open>kernel/cpu/idt/idt.c\<close>,
  \<open>kernel/interrupts/interrupts.c\<close> and \<open>kernel/syscalls/syscall.c\<close>. Tables are lists of entries,
  their addresses and the interrupt entry points of the assembly file are parameters, and the
  handlers the kernel installs are the constructors of a datatype.
\<close>

section \<open>Segments\<close>

definition gdt_encode_entry :: "u64 \<Rightarrow> u64 \<Rightarrow> u64 \<Rightarrow> u64 \<Rightarrow> u64" where
  "gdt_encode_entry limit base access flags =
     (limit AND 0xffff) OR push_bit 16 (base AND 0xffff) OR push_bit 32 (base AND 0xff0000)
       OR push_bit 40 (access AND 0xff) OR push_bit 48 (drop_bit 16 (limit AND 0xf0000))
       OR push_bit 52 (flags AND 0xf) OR push_bit 56 (drop_bit 24 (base AND 0xff000000))"

definition sizeof_TSS :: u64 where "sizeof_TSS = 104"

record cpu_tables =
  gdt :: "u64 list"
  tss_iopb :: u16

definition set_gdt :: "u16 \<Rightarrow> u64 \<Rightarrow> hw \<Rightarrow> hw" where
  "set_gdt limit base s = hw_do (Lgdt limit base) s"

definition set_tss :: "hw \<Rightarrow> hw" where
  "set_tss s = hw_do (Ltr 0x28) s"

definition reload_segments :: "hw \<Rightarrow> hw" where
  "reload_segments s = hw_do (Reload_segments 0x08 0x10) s"

text \<open>The addresses of the static tables are parameters.\<close>

definition gdt_init :: "u64 \<Rightarrow> u64 \<Rightarrow> cpu_tables \<times> hw \<Rightarrow> cpu_tables \<times> hw" where
  "gdt_init gdt_addr tss_addr ts =
     (let (t, s) = ts;
          s1 = hw_do Cli s;
          g = (gdt t)
            [0 := 0,
             1 := gdt_encode_entry 0xfffff 0 0x9a 0xa,
             2 := gdt_encode_entry 0xfffff 0 0x92 0xc,
             3 := gdt_encode_entry 0xfffff 0 0xfa 0xa,
             4 := gdt_encode_entry 0xfffff 0 0xf2 0xc,
             5 := gdt_encode_entry sizeof_TSS (tss_addr AND 0xffffffff) 0x89 0x40,
             6 := drop_bit 32 tss_addr AND 0xffffffff];
          t1 = t\<lparr>gdt := g, tss_iopb := 56\<rparr>;
          s2 = set_gdt (8 * 7 - 1) gdt_addr s1;
          s3 = set_tss s2;
          s4 = reload_segments s3
      in (t1, hw_do Sti s4))"

text \<open>What the processor reads from a descriptor.\<close>

definition desc_base :: "u64 \<Rightarrow> u64" where
  "desc_base d = take_bit 24 (drop_bit 16 d) OR push_bit 24 (take_bit 8 (drop_bit 56 d))"
definition desc_limit :: "u64 \<Rightarrow> u64" where
  "desc_limit d = take_bit 16 d OR push_bit 16 (take_bit 4 (drop_bit 48 d))"
definition desc_access :: "u64 \<Rightarrow> u64" where
  "desc_access d = take_bit 8 (drop_bit 40 d)"
definition desc_flags :: "u64 \<Rightarrow> u64" where
  "desc_flags d = take_bit 4 (drop_bit 52 d)"

lemma and_masks:
  "(x :: u64) AND 0xffff = x AND mask 16" "x AND 0xff0000 = x AND push_bit 16 (mask 8)" "x AND 0xff = x AND mask 8"
  "x AND 0xf0000 = x AND push_bit 16 (mask 4)" "x AND 0xf = x AND mask 4" "x AND 0xff000000 = x AND push_bit 24 (mask 8)"
  "x AND 0xffffffff = x AND mask 32"
  by (simp_all add: mask_eq_exp_minus_1 push_bit_eq_mult)

lemma bit_push64: "bit (push_bit k w :: u64) n \<longleftrightarrow> k \<le> n \<and> n < 64 \<and> bit w (n - k)"
  by (auto simp: bit_push_bit_iff)

lemma bit_mask64: "bit (mask k :: u64) n \<longleftrightarrow> n < k \<and> n < 64"
  by (auto simp: bit_mask_iff)

lemma bit_drop64: "bit (drop_bit k w :: u64) n \<longleftrightarrow> bit w (k + n)"
  by (simp add: bit_drop_bit_eq)

lemma bit_take64: "bit (take_bit k w :: u64) n \<longleftrightarrow> n < k \<and> bit w n"
  by (rule bit_take_bit_iff)

lemmas bits64 = bit_push64 bit_mask64 bit_drop64 bit_take64 bit_and_iff bit_or_iff

lemma gdt_bit:
  "bit (gdt_encode_entry l b a f) n \<longleftrightarrow>
     n < 16 \<and> bit l n \<or> 16 \<le> n \<and> n < 32 \<and> bit b (n - 16) \<or> 48 \<le> n \<and> n < 56 \<and> bit b (n - 32) \<or>
     40 \<le> n \<and> n < 48 \<and> bit a (n - 40) \<or> 48 \<le> n \<and> n < 52 \<and> bit l (n - 32) \<or>
     52 \<le> n \<and> n < 56 \<and> bit f (n - 52) \<or> 56 \<le> n \<and> n < 64 \<and> bit b (n - 32)"
proof -
  have 1: "bit (l AND mask 16) n \<longleftrightarrow> n < 16 \<and> bit l n" by (auto simp: bits64)
  have 2: "bit (push_bit 16 (b AND mask 16)) n \<longleftrightarrow> 16 \<le> n \<and> n < 32 \<and> bit b (n - 16)" by (auto simp: bits64)
  have 3: "bit (push_bit 32 (b AND push_bit 16 (mask 8))) n \<longleftrightarrow> 48 \<le> n \<and> n < 56 \<and> bit b (n - 32)" by (auto simp: bits64)
  have 4: "bit (push_bit 40 (a AND mask 8)) n \<longleftrightarrow> 40 \<le> n \<and> n < 48 \<and> bit a (n - 40)" by (auto simp: bits64)
  have 5: "bit (push_bit 48 (drop_bit 16 (l AND push_bit 16 (mask 4)))) n \<longleftrightarrow> 48 \<le> n \<and> n < 52 \<and> bit l (n - 32)"
  proof (cases "48 \<le> n")
    case True
    then have "16 + (n - 48) = n - 32" by simp
    then show ?thesis using True by (auto simp: bits64)
  qed (simp add: bits64)
  have 6: "bit (push_bit 52 (f AND mask 4)) n \<longleftrightarrow> 52 \<le> n \<and> n < 56 \<and> bit f (n - 52)" by (auto simp: bits64)
  have 7: "bit (push_bit 56 (drop_bit 24 (b AND push_bit 24 (mask 8)))) n \<longleftrightarrow> 56 \<le> n \<and> n < 64 \<and> bit b (n - 32)"
  proof (cases "56 \<le> n")
    case True
    then have "24 + (n - 56) = n - 32" by simp
    then show ?thesis using True by (auto simp: bits64)
  qed (simp add: bits64)
  show ?thesis unfolding gdt_encode_entry_def and_masks by (simp only: bit_or_iff 1 2 3 4 5 6 7 disj_assoc)
qed

lemma desc_bits:
  "bit (desc_base d) n \<longleftrightarrow> n < 24 \<and> bit d (16 + n) \<or> 24 \<le> n \<and> n < 32 \<and> bit d (32 + n)"
  "bit (desc_limit d) n \<longleftrightarrow> n < 16 \<and> bit d n \<or> 16 \<le> n \<and> n < 20 \<and> bit d (32 + n)"
  "bit (desc_access d) n \<longleftrightarrow> n < 8 \<and> bit d (40 + n)"
  "bit (desc_flags d) n \<longleftrightarrow> n < 4 \<and> bit d (52 + n)"
proof -
  have "24 \<le> n \<Longrightarrow> 56 + (n - 24) = 32 + n" "16 \<le> n \<Longrightarrow> 48 + (n - 16) = 32 + n" by simp_all
  then show "bit (desc_base d) n \<longleftrightarrow> n < 24 \<and> bit d (16 + n) \<or> 24 \<le> n \<and> n < 32 \<and> bit d (32 + n)"
    "bit (desc_limit d) n \<longleftrightarrow> n < 16 \<and> bit d n \<or> 16 \<le> n \<and> n < 20 \<and> bit d (32 + n)"
    by (auto simp: desc_base_def desc_limit_def bits64)
qed (simp_all add: desc_access_def desc_flags_def bits64)

lemma gdt_fields:
  "desc_base (gdt_encode_entry l b a f) = take_bit 32 b AND NOT (push_bit 16 (mask 8))"
  "desc_limit (gdt_encode_entry l b a f) = take_bit 20 l OR push_bit 16 (take_bit 4 (drop_bit 16 b))"
  "desc_access (gdt_encode_entry l b a f) = take_bit 8 a"
  "desc_flags (gdt_encode_entry l b a f) = take_bit 4 f OR take_bit 4 (drop_bit 20 b)"
proof -
  show "desc_base (gdt_encode_entry l b a f) = take_bit 32 b AND NOT (push_bit 16 (mask 8))"
  proof (rule bit_eqI)
    fix n :: nat
    consider "n < 16" | "16 \<le> n" "n < 24" | "24 \<le> n" "n < 32" | "32 \<le> n" by linarith
    then show "bit (desc_base (gdt_encode_entry l b a f)) n \<longleftrightarrow> bit (take_bit 32 b AND NOT (push_bit 16 (mask 8))) n"
      by cases (auto simp: desc_bits gdt_bit bits64 bit_not_iff)
  qed
  show "desc_limit (gdt_encode_entry l b a f) = take_bit 20 l OR push_bit 16 (take_bit 4 (drop_bit 16 b))"
  proof (rule bit_eqI)
    fix n :: nat
    consider "n < 16" | "16 \<le> n" "n < 20" | "20 \<le> n" by linarith
    then show "bit (desc_limit (gdt_encode_entry l b a f)) n \<longleftrightarrow> bit (take_bit 20 l OR push_bit 16 (take_bit 4 (drop_bit 16 b))) n"
      by cases (auto simp add: desc_bits gdt_bit bits64)
  qed
  show "desc_access (gdt_encode_entry l b a f) = take_bit 8 a"
    by (rule bit_eqI) (auto simp: desc_bits gdt_bit bits64)
  show "desc_flags (gdt_encode_entry l b a f) = take_bit 4 f OR take_bit 4 (drop_bit 20 b)"
    by (rule bit_eqI) (auto simp: desc_bits gdt_bit bits64)
qed
section \<open>Interrupt descriptors\<close>

record IdtDescriptor =
  isr_low :: u16
  kernel_cs :: u16
  ist :: u8
  attributes :: u8
  isr_mid :: u16
  isr_high :: u32
  reserved :: u32

record idt_state =
  idt :: "IdtDescriptor list"
  idtr_limit :: u16
  idtr_base :: u64

definition K_CODE_SELECTOR :: u16 where "K_CODE_SELECTOR = 0x08"
definition IDT_MAX_DESCRIPTORS :: nat where "IDT_MAX_DESCRIPTORS = 256"

definition idt_set_descriptor :: "u8 \<Rightarrow> u64 \<Rightarrow> u8 \<Rightarrow> idt_state \<Rightarrow> idt_state" where
  "idt_set_descriptor vector isr flags t =
     t\<lparr>idt := (idt t)[unat vector :=
       \<lparr>isr_low = ucast (isr AND 0xFFFF), kernel_cs = K_CODE_SELECTOR, ist = 0, attributes = flags,
        isr_mid = ucast (drop_bit 16 isr AND 0xFFFF), isr_high = ucast (drop_bit 32 isr AND 0xFFFFFFFF), reserved = 0\<rparr>]\<rparr>"

definition idt_reload :: "idt_state \<Rightarrow> hw \<Rightarrow> hw" where
  "idt_reload t s = hw_do (Lidt (idtr_limit t) (idtr_base t)) s"

definition idt_init :: "u64 \<Rightarrow> (nat \<Rightarrow> u64) \<Rightarrow> idt_state \<times> hw \<Rightarrow> idt_state \<times> hw" where
  "idt_init idt_addr isr_array ts =
     (let (t, s) = ts;
          t1 = t\<lparr>idtr_base := idt_addr, idtr_limit := 16 * of_nat IDT_MAX_DESCRIPTORS - 1\<rparr>;
          t2 = fold (\<lambda>vector t. idt_set_descriptor (of_nat vector) (isr_array vector) 0x8E t) [0..<IDT_MAX_DESCRIPTORS] t1;
          s1 = idt_reload t2 s
      in (t2, hw_do Sti s1))"

definition gate_isr :: "IdtDescriptor \<Rightarrow> u64" where
  "gate_isr d = ucast (isr_low d) OR push_bit 16 (ucast (isr_mid d)) OR push_bit 32 (ucast (isr_high d))"

lemma gate_isr_set:
  "gate_isr \<lparr>isr_low = ucast (isr AND 0xFFFF), kernel_cs = cs, ist = i, attributes = f,
     isr_mid = ucast (drop_bit 16 isr AND 0xFFFF), isr_high = ucast (drop_bit 32 isr AND 0xFFFFFFFF), reserved = r\<rparr> = isr"
proof (rule bit_eqI)
  fix n :: nat
  consider "n < 16" | "16 \<le> n" "n < 32" | "32 \<le> n" by linarith
  then show "bit (gate_isr \<lparr>isr_low = ucast (isr AND 0xFFFF), kernel_cs = cs, ist = i, attributes = f,
     isr_mid = ucast (drop_bit 16 isr AND 0xFFFF), isr_high = ucast (drop_bit 32 isr AND 0xFFFFFFFF), reserved = r\<rparr>) n \<longleftrightarrow> bit isr n"
    unfolding gate_isr_def and_masks by cases (auto simp: bits64 bit_ucast_iff dest: bit_imp_le_length)
qed

lemma idt_fold:
  fixes isr_array :: "nat \<Rightarrow> u64" and f :: u8
  assumes "n \<le> 256" "length (idt t) = 256" "k < 256"
  defines "t' \<equiv> fold (\<lambda>vector t. idt_set_descriptor (of_nat vector) (isr_array vector) f t) [0..<n] t"
  shows "length (idt t') = 256 \<and> idtr_limit t' = idtr_limit t \<and> idtr_base t' = idtr_base t \<and>
    (k < n \<longrightarrow> gate_isr (idt t' ! k) = isr_array k \<and> attributes (idt t' ! k) = f \<and> kernel_cs (idt t' ! k) = K_CODE_SELECTOR)"
  using assms(1) unfolding t'_def
proof (induction n)
  case (Suc n)
  have u: "unat (of_nat n :: u8) = n" using Suc.prems by (simp add: unat_of_nat take_bit_nat_eq_self)
  then show ?case using Suc assms(3) gate_isr_set
    by (auto simp: idt_set_descriptor_def nth_list_update less_Suc_eq)
qed (use assms in simp)

section \<open>Interrupt handlers\<close>

datatype int_handler =
    unknown_int_handler | pic_irq_handler | cpu_exception_handler | lapic_spurious_handler | handle_next_event_handler

record InterruptCtx =
  ctx_r15 :: u64
  ctx_r14 :: u64
  ctx_r13 :: u64
  ctx_r12 :: u64
  ctx_r11 :: u64
  ctx_r10 :: u64
  ctx_r9 :: u64
  ctx_r8 :: u64
  ctx_rbp :: u64
  ctx_rsi :: u64
  ctx_rdi :: u64
  ctx_rdx :: u64
  ctx_rcx :: u64
  ctx_rbx :: u64
  ctx_rax :: u64
  ctx_vector :: u64
  ctx_error_code :: u64
  ctx_rip :: u64
  ctx_cs :: u64
  ctx_rflags :: u64
  ctx_rsp :: u64
  ctx_ss :: u64

record interrupts =
  last_allocated_vector :: u16
  int_handlers :: "int_handler list"

definition ISA_IRQ_BASE :: u8 where "ISA_IRQ_BASE = 0x30"
definition PIC_HANDLED_IRQ_COUNT :: nat where "PIC_HANDLED_IRQ_COUNT = 8"
definition PIC1_IRQ_BASE :: nat where "PIC1_IRQ_BASE = 0x20"
definition PIC2_IRQ_BASE :: nat where "PIC2_IRQ_BASE = 0x28"
definition FIRST_USABLE_VECTOR :: u8 where "FIRST_USABLE_VECTOR = 0x40"
definition LAST_USABLE_VECTOR :: u8 where "LAST_USABLE_VECTOR = 0xef"

definition initial_interrupts :: interrupts where
  "initial_interrupts = \<lparr>last_allocated_vector = ucast FIRST_USABLE_VECTOR, int_handlers = replicate IDT_MAX_DESCRIPTORS unknown_int_handler\<rparr>"

text \<open>A handler's effect: what it prints and whether it panics afterwards.\<close>

definition run_unknown_int_handler :: "InterruptCtx \<Rightarrow> (string \<times> karg list) list \<times> bool" where
  "run_unknown_int_handler ctx = ([(''Unknown interrupt handler, vector: %d'' @ [CHR 0x0A], [KInt (ctx_vector ctx)])], True)"

definition run_pic_irq_handler :: "InterruptCtx \<Rightarrow> (string \<times> karg list) list \<times> bool" where
  "run_pic_irq_handler ctx = ([(''Unexpected PIC IRQ received, vector: %d'' @ [CHR 0x0A], [KInt (ctx_vector ctx)])], False)"

definition run_cpu_exception_handler :: "InterruptCtx \<Rightarrow> (string \<times> karg list) list \<times> bool" where
  "run_cpu_exception_handler ctx =
     ((''PANIC: '', []) #
      (if ctx_vector ctx = 0 then [(''Divide By Zero'' @ [CHR 0x0A], [])]
       else if ctx_vector ctx = 13 then
         let external = ctx_error_code ctx AND 1;
             table_indicator = drop_bit 2 (ctx_error_code ctx) AND 1;
             selector_index = (ucast (ucast (drop_bit 3 (ctx_error_code ctx)) :: u32) :: u64)
         in [(''General Protection Fault'' @ [CHR 0x0A], []),
             (''Error Code: 0x%x'' @ [CHR 0x0A], [KInt (ctx_error_code ctx)]),
             (''  External: 0x%x'' @ [CHR 0x0A], [KInt external]),
             (''  Table Indicator: 0x%x (%s)'' @ [CHR 0x0A],
               [KInt table_indicator, KStr (if table_indicator \<noteq> 0 then ''LDT'' else ''GDT'')]),
             (''  Selector Index: 0x%x'' @ [CHR 0x0A], [KInt selector_index])]
       else if ctx_vector ctx = 14 then [(''Page Fault'' @ [CHR 0x0A], [])]
       else [(''IDK'', [])]), True)"

definition interrupt_dispatch :: "InterruptCtx \<Rightarrow> interrupts \<Rightarrow> int_handler option" where
  "interrupt_dispatch ctx t =
     (if unat (ctx_vector ctx) < length (int_handlers t) then Some (int_handlers t ! unat (ctx_vector ctx)) else None)"

definition interrupts_get_isa_irq_vec :: "u8 \<Rightarrow> u8" where
  "interrupts_get_isa_irq_vec isa_irq = ISA_IRQ_BASE + isa_irq"

definition interrupts_alloc_vector :: "interrupts \<Rightarrow> halt + (u8 \<times> interrupts)" where
  "interrupts_alloc_vector t =
     kbind (kassert (last_allocated_vector t = ucast LAST_USABLE_VECTOR) ''All usable vectors are exhausted'') (\<lambda>_.
       let ret = ucast (last_allocated_vector t)
       in Inr (ret, t\<lparr>last_allocated_vector := last_allocated_vector t + 1\<rparr>))"

definition interrupts_set_handler :: "u8 \<Rightarrow> int_handler \<Rightarrow> interrupts \<Rightarrow> interrupts" where
  "interrupts_set_handler vec handler t = t\<lparr>int_handlers := (int_handlers t)[unat vec := handler]\<rparr>"

definition interrupts_init :: "interrupts \<Rightarrow> interrupts" where
  "interrupts_init t =
     (let h1 = fold (\<lambda>i h. h[i := unknown_int_handler]) [0..<IDT_MAX_DESCRIPTORS] (int_handlers t);
          h2 = fold (\<lambda>i h. h[i := cpu_exception_handler]) [0..<32] h1;
          h3 = fold (\<lambda>pic_irq h. h[pic_irq + PIC1_IRQ_BASE := pic_irq_handler, pic_irq + PIC2_IRQ_BASE := pic_irq_handler])
                 [0..<PIC_HANDLED_IRQ_COUNT] h2
      in t\<lparr>int_handlers := h3\<rparr>)"

lemma fold_set: "length h = n \<Longrightarrow> k \<le> n \<Longrightarrow>
    length (fold (\<lambda>i h. h[i := x]) [0..<k] h) = n \<and> (\<forall>v<n. fold (\<lambda>i h. h[i := x]) [0..<k] h ! v = (if v < k then x else h ! v))"
  by (induction k) (auto simp: nth_list_update less_Suc_eq)

lemma fold_pic: "length h = 256 \<Longrightarrow> k \<le> 8 \<Longrightarrow> h' = fold (\<lambda>pic_irq h. h[pic_irq + PIC1_IRQ_BASE := x, pic_irq + PIC2_IRQ_BASE := x]) [0..<k] h \<Longrightarrow>
    length h' = 256 \<and> (\<forall>v<256. h' ! v = (if 32 \<le> v \<and> v < 32 + k \<or> 40 \<le> v \<and> v < 40 + k then x else h ! v))"
  by (induction k arbitrary: h') (auto simp: nth_list_update PIC1_IRQ_BASE_def PIC2_IRQ_BASE_def less_Suc_eq)

section \<open>System calls\<close>

definition MSR_EFER_SYSCALL_ENABLE :: u64 where "MSR_EFER_SYSCALL_ENABLE = 1"
definition MSR_FMASK_IF_DISABLE :: u64 where "MSR_FMASK_IF_DISABLE = 0x200"

definition syscall_init :: "hw \<Rightarrow> hw" where
  "syscall_init s =
     (let (efer, s1) = msr_read MSR_EFER s;
          s2 = msr_write MSR_EFER (efer OR MSR_EFER_SYSCALL_ENABLE) s1;
          s3 = msr_write MSR_STAR 0x0013000800000000 s2;
          (fmask, s4) = msr_read MSR_FMASK s3
      in msr_write MSR_FMASK (fmask OR MSR_FMASK_IF_DISABLE) s4)"

section \<open>Properties\<close>

text \<open>C37. A segment descriptor whose base has bits 16 to 23 clear encodes its fields faithfully: the processor
  reads back the low 32 bits of the base, 20 bits of the limit, 8 access bits and 4 flag bits.\<close>

theorem gdt_entry_roundtrip:
  assumes "take_bit 8 (drop_bit 16 base) = 0"
  shows "desc_base (gdt_encode_entry limit base access flags) = take_bit 32 base \<and>
   desc_limit (gdt_encode_entry limit base access flags) = take_bit 20 limit \<and>
   desc_access (gdt_encode_entry limit base access flags) = take_bit 8 access \<and>
   desc_flags (gdt_encode_entry limit base access flags) = take_bit 4 flags"
proof -
  have z: "\<not> bit base (16 + n)" if "n < 8" for n
  proof -
    have "bit (take_bit 8 (drop_bit 16 base)) n \<longleftrightarrow> bit base (16 + n)" using that by (simp add: bits64)
    then show ?thesis using assms by simp
  qed
  have "take_bit 32 base AND NOT (push_bit 16 (mask 8)) = take_bit 32 base"
  proof (rule bit_eqI)
    fix n
    show "bit (take_bit 32 base AND NOT (push_bit 16 (mask 8))) n \<longleftrightarrow> bit (take_bit 32 base) n"
      using z [of "n - 16"] by (auto simp: bits64 bit_not_iff)
  qed
  moreover have "take_bit 4 (drop_bit 16 base) = 0" by (rule bit_eqI) (use z in \<open>auto simp: bits64\<close>)
  moreover have "take_bit 4 (drop_bit 20 base) = 0"
  proof (rule bit_eqI)
    fix n
    show "bit (take_bit 4 (drop_bit 20 base)) n \<longleftrightarrow> bit (0 :: u64) n" using z [of "4 + n"] by (auto simp: bits64)
  qed
  ultimately show ?thesis by (simp add: gdt_fields)
qed

theorem gdt_entry_roundtrip_witness: "desc_limit (gdt_encode_entry 0xfffff 0 0x9a 0xa) = 0xfffff"
  using gdt_entry_roundtrip [of 0 "0xfffff" "0x9a" "0xa"] by (simp add: take_bit_eq_mod)

text \<open>Bits 16 to 23 of the base are shifted by 32 instead of 16: they are missing from the base the processor
  reads and land in the upper limit and the flags instead, so the descriptor \<open>gdt_init\<close> writes for a task
  state segment at such an address is wrong.\<close>

theorem gdt_entry_misplaces_base:
  "desc_base (gdt_encode_entry limit base access flags) = take_bit 32 base AND NOT 0xff0000 \<and>
   desc_limit (gdt_encode_entry limit base access flags) = take_bit 20 limit OR push_bit 16 (take_bit 4 (drop_bit 16 base)) \<and>
   desc_flags (gdt_encode_entry limit base access flags) = take_bit 4 flags OR take_bit 4 (drop_bit 20 base)"
proof -
  have "0xff0000 = (push_bit 16 (mask 8) :: u64)" by (simp add: mask_eq_exp_minus_1 push_bit_eq_mult)
  then show ?thesis by (simp only: gdt_fields)
qed

text \<open>C36. After \<open>idt_init\<close> each of the 256 vectors has an interrupt gate in the kernel code segment that enters
  the routine of \<open>isr_array\<close> for that vector, and the loaded table has the size of all 256 gates.\<close>

theorem idt_init_installs_gates:
  assumes "length (idt t) = 256" "idt_init addr isr_array (t, s) = (t', s')"
  shows "(\<forall>v<256. gate_isr (idt t' ! v) = isr_array v \<and> attributes (idt t' ! v) = 0x8E \<and> kernel_cs (idt t' ! v) = 0x08) \<and>
    io s' = io s @ [Lidt 4095 addr, Sti]"
proof -
  let ?t1 = "t\<lparr>idtr_base := addr, idtr_limit := 16 * of_nat IDT_MAX_DESCRIPTORS - 1\<rparr>"
  have t': "t' = fold (\<lambda>vector t. idt_set_descriptor (of_nat vector) (isr_array vector) 0x8E t) [0..<256] ?t1"
    "s' = hw_do Sti (idt_reload t' s)"
    using assms(2) by (auto simp: idt_init_def Let_def IDT_MAX_DESCRIPTORS_def)
  note f = idt_fold [of 256 ?t1 _ isr_array "0x8E", folded t'(1)]
  have "gate_isr (idt t' ! v) = isr_array v \<and> attributes (idt t' ! v) = 0x8E \<and> kernel_cs (idt t' ! v) = 0x08" if "v < 256" for v
    using f [OF _ _ that] assms(1) that by (simp add: K_CODE_SELECTOR_def)
  moreover have "idtr_limit t' = 4095" "idtr_base t' = addr"
    using f [of 0] assms(1) by (simp_all add: IDT_MAX_DESCRIPTORS_def)
  ultimately show ?thesis unfolding t'(2) by (simp add: idt_reload_def hw_do_def)
qed

definition blank_gate :: IdtDescriptor where
  "blank_gate = \<lparr>isr_low = 0, kernel_cs = 0, ist = 0, attributes = 0, isr_mid = 0, isr_high = 0, reserved = 0\<rparr>"

definition blank_idt :: idt_state where
  "blank_idt = \<lparr>idt = replicate 256 blank_gate, idtr_limit = 0, idtr_base = 0\<rparr>"

definition silent_hw :: hw where "silent_hw = \<lparr>io = [], dev = \<lambda>_ _. 0\<rparr>"

theorem idt_init_installs_gates_witness:
  "gate_isr (idt (fst (idt_init 0x1000 (\<lambda>v. of_nat v * 16) (blank_idt, silent_hw))) ! 33) = 528"
proof -
  obtain t' s' where e: "idt_init 0x1000 (\<lambda>v. of_nat v * 16) (blank_idt, silent_hw) = (t', s')" by (cases "idt_init 0x1000 (\<lambda>v. of_nat v * 16) (blank_idt, silent_hw)")
  then show ?thesis using idt_init_installs_gates [OF _ e] by (simp add: blank_idt_def)
qed

text \<open>\<open>interrupts_init\<close> gives the 32 exception vectors the exception handler, the sixteen vectors of the two
  interrupt controllers the unexpected-IRQ handler, and every other vector the unknown-interrupt handler.\<close>

lemma interrupts_init_handlers:
  assumes "length (int_handlers t) = 256" "ctx_vector ctx = of_nat v" "v < 256"
  shows "interrupt_dispatch ctx (interrupts_init t) =
    Some (if v < 32 then cpu_exception_handler else if v < 48 then pic_irq_handler else unknown_int_handler)"
proof -
  let ?h = "int_handlers (interrupts_init t)"
  have "length ?h = 256 \<and> ?h ! v = (if v < 32 then cpu_exception_handler else if v < 48 then pic_irq_handler else unknown_int_handler)"
  proof -
    define h1 where "h1 = fold (\<lambda>i h. h[i := unknown_int_handler]) [0..<256] (int_handlers t)"
    define h2 where "h2 = fold (\<lambda>i h. h[i := cpu_exception_handler]) [0..<32] h1"
    define h3 where "h3 = fold (\<lambda>pic_irq h. h[pic_irq + PIC1_IRQ_BASE := pic_irq_handler, pic_irq + PIC2_IRQ_BASE := pic_irq_handler]) [0..<8] h2"
    have "length h1 = 256" "h1 ! v = unknown_int_handler" using fold_set [OF assms(1), of 256] assms(3) by (simp_all add: h1_def)
    then have "length h2 = 256" "h2 ! v = (if v < 32 then cpu_exception_handler else unknown_int_handler)"
      using fold_set [of h1 256 32] assms(3) by (simp_all add: h2_def)
    then have "length h3 = 256" "h3 ! v = (if v < 32 then cpu_exception_handler else if v < 48 then pic_irq_handler else unknown_int_handler)"
      using fold_pic [of h2 8 h3] assms(3) by (auto simp: h3_def)
    moreover have "?h = h3"
      by (simp only: interrupts_init_def Let_def IDT_MAX_DESCRIPTORS_def PIC_HANDLED_IRQ_COUNT_def h1_def h2_def h3_def) simp
    ultimately show ?thesis by simp
  qed
  moreover have "unat (of_nat v :: u64) = v" using assms(3) by simp
  ultimately show ?thesis using assms(2,3) by (simp add: interrupt_dispatch_def)
qed

theorem interrupts_init_handlers_witness:
  "\<exists>ctx. ctx_vector ctx = of_nat 13 \<and> interrupt_dispatch ctx (interrupts_init initial_interrupts) = Some cpu_exception_handler"
proof -
  have c: "ctx_vector (ctx\<lparr>ctx_vector := of_nat 13\<rparr>) = of_nat 13" for ctx :: InterruptCtx by simp
  show ?thesis using interrupts_init_handlers [OF _ c, of initial_interrupts] c
    by (intro exI [of _ "undefined\<lparr>ctx_vector := of_nat 13\<rparr>"]) (simp add: initial_interrupts_def IDT_MAX_DESCRIPTORS_def)
qed

text \<open>The assertion of \<open>interrupts_alloc_vector\<close> is inverted: with vectors still free, in particular on the
  first call, it halts the machine.\<close>

lemma interrupts_alloc_vector_halts:
  "interrupts_alloc_vector initial_interrupts = Inl (KAssert ''All usable vectors are exhausted'')"
  by (simp add: interrupts_alloc_vector_def initial_interrupts_def kassert_def FIRST_USABLE_VECTOR_def LAST_USABLE_VECTOR_def)

text \<open>On a processor whose model-specific registers keep what was written, \<open>syscall_init\<close> leaves EFER and FMASK
  with exactly the system-call enable bit and the interrupt-mask bit added to what they held.\<close>

lemma syscall_init_sets_bits:
  assumes "msr_device s"
  shows "let s' = syscall_init s in
    dev s (io s') (Rdmsr 0xC0000080) = dev s (io s) (Rdmsr 0xC0000080) OR 1 \<and>
    dev s (io s') (Rdmsr 0xC0000081) = 0x0013000800000000 \<and>
    (last_wrmsr 0xC0000084 (io s) \<noteq> None \<longrightarrow>
      dev s (io s') (Rdmsr 0xC0000084) = dev s (io s) (Rdmsr 0xC0000084) OR 0x200)"
proof -
  let ?e = "dev s (io s) (Rdmsr 0xC0000080) OR MSR_EFER_SYSCALL_ENABLE"
  define s1 where "s1 = s\<lparr>io := io s @ [Rdmsr 0xC0000080]\<rparr>"
  define s2 where "s2 = msr_write MSR_EFER ?e s1"
  define s3 where "s3 = msr_write MSR_STAR 0x0013000800000000 s2"
  define f where "f = dev s (io s3) (Rdmsr 0xC0000084)"
  define s4 where "s4 = s3\<lparr>io := io s3 @ [Rdmsr 0xC0000084]\<rparr>"
  define s5 where "s5 = msr_write MSR_FMASK (f OR MSR_FMASK_IF_DISABLE) s4"
  have d: "dev s3 = dev s" by (simp add: s3_def s2_def s1_def msr_write_def hw_do_def)
  have s5: "syscall_init s = s5"
    by (simp add: syscall_init_def msr_read_answer MSR_EFER_def MSR_FMASK_def s5_def s4_def f_def s3_def s2_def s1_def Let_def d [unfolded s3_def s2_def s1_def MSR_EFER_def])
  have 1: "last_wrmsr m (io s1) = last_wrmsr m (io s)" "last_wrmsr m (io s4) = last_wrmsr m (io s3)" for m
    by (simp_all add: s1_def s4_def last_wrmsr_snoc)
  have w: "last_wrmsr m (io s3) = (if m = 0xC0000081 then Some 0x0013000800000000 else if m = 0xC0000080 then Some ?e else last_wrmsr m (io s))" for m
    by (simp add: s3_def s2_def last_wrmsr_write 1 MSR_STAR_def MSR_EFER_def eq_commute)
  have "last_wrmsr m (io s5) = (if m = 0xC0000084 then Some (f OR MSR_FMASK_IF_DISABLE) else last_wrmsr m (io s3))" for m
    by (simp add: s5_def last_wrmsr_write 1 MSR_FMASK_def eq_commute)
  note l = this [unfolded w]
  have dv: "last_wrmsr m h = Some v \<Longrightarrow> dev s h (Rdmsr m) = v" for m h v using assms by (simp add: msr_device_def)
  have "f = dev s (io s) (Rdmsr 0xC0000084)" if "last_wrmsr 0xC0000084 (io s) = Some v" for v
    using dv [OF that] dv [of "0xC0000084" "io s3" v] that by (simp add: f_def w)
  then show ?thesis unfolding s5 Let_def
    using dv [of _ "io s5", unfolded l] by (auto simp: MSR_EFER_SYSCALL_ENABLE_def MSR_FMASK_IF_DISABLE_def)
qed

definition msr_file :: hw where
  "msr_file = \<lparr>io = [], dev = \<lambda>h e. case e of Rdmsr m \<Rightarrow> (case last_wrmsr m h of Some v \<Rightarrow> v | None \<Rightarrow> 0x500) | _ \<Rightarrow> 0\<rparr>"

theorem syscall_init_sets_bits_witness:
  "msr_device msr_file \<and> dev msr_file (io (syscall_init msr_file)) (Rdmsr 0xC0000080) = 0x501"
proof -
  have "msr_device msr_file" by (auto simp: msr_device_def msr_file_def)
  then show ?thesis using syscall_init_sets_bits [of msr_file] by (simp add: msr_file_def Let_def)
qed

end
