(* ===== verification/ThreadList.thy ===== *)
theory ThreadList
  imports Kmalloc_Heap
begin

text \<open>
  The thread lists of \<open>kernel/multitasking/sched.c\<close>: singly linked lists of heap nodes with a
  head and a tail pointer, as a client of the allocator interface. A list header and a node are
  blocks of two 64-bit fields.
\<close>

definition sizeof_ThreadListNode :: u64 where "sizeof_ThreadListNode = 16"
definition sizeof_ThreadList :: u64 where "sizeof_ThreadList = 16"

abbreviation (input) "f_thread \<equiv> 0 :: nat"
abbreviation (input) "f_next \<equiv> Suc 0"
abbreviation (input) "f_head \<equiv> 0 :: nat"
abbreviation (input) "f_tail \<equiv> Suc 0"

definition thread_list_new :: "kheap \<Rightarrow> (u64 \<times> kheap) run" where
  "thread_list_new h =
     rbind (kmalloc h sizeof_ThreadList) (\<lambda>(list, h1).
       let m1 = set_wfld (kmem h1) list f_head 0;
           m2 = set_wfld m1 list f_tail 0
       in Some (Inr (list, h1\<lparr>kmem := m2\<rparr>)))"

definition thread_list_add :: "kheap \<Rightarrow> u64 \<Rightarrow> u64 \<Rightarrow> kheap run" where
  "thread_list_add h list t =
     rbind (kmalloc h sizeof_ThreadListNode) (\<lambda>(node, h1).
       let m2 = set_wfld (set_wfld (kmem h1) node f_thread t) node f_next 0
       in if wfld m2 list f_head = 0 then
            let m3 = set_wfld m2 list f_head node;
                m4 = set_wfld m3 list f_tail node
            in Some (Inr (h1\<lparr>kmem := m4\<rparr>))
          else
            let m3 = set_wfld m2 (wfld m2 list f_tail) f_next node;
                m4 = set_wfld m3 list f_tail node
            in Some (Inr (h1\<lparr>kmem := m4\<rparr>)))"

definition thread_list_get_next :: "kheap \<Rightarrow> u64 \<Rightarrow> halt + u64 \<times> kheap" where
  "thread_list_get_next h list =
     (let head = wfld (kmem h) list f_head in
      if head = 0 then Inr (0, h)
      else
        let m1 = set_wfld (kmem h) list f_head (wfld (kmem h) head f_next);
            m2 = (if wfld m1 list f_head = 0 then set_wfld m1 list f_tail 0 else m1);
            t = wfld m2 head f_thread
        in kbind (kfree (h\<lparr>kmem := m2\<rparr>) head) (\<lambda>h3. Inr (t, h3)))"

text \<open>
  One round of the reaper thread: it takes threads off the finished list until the list is
  empty, and logs each.
\<close>

partial_function (option) reap_loop :: "kheap \<Rightarrow> u64 \<Rightarrow> u64 \<Rightarrow> u64 list \<Rightarrow> (halt + u64 list \<times> kheap) option" where
  "reap_loop h finished to_be_reaped logged =
     (if to_be_reaped = 0 then Some (Inr (logged, h))
      else case thread_list_get_next h finished of
        Inl e \<Rightarrow> Some (Inl e)
      | Inr (t, h') \<Rightarrow> reap_loop h' finished t (logged @ [to_be_reaped]))"

definition reap_round :: "kheap \<Rightarrow> u64 \<Rightarrow> (u64 list \<times> kheap) run" where
  "reap_round h finished =
     (case thread_list_get_next h finished of
        Inl e \<Rightarrow> Some (Inl e)
      | Inr (t, h') \<Rightarrow> reap_loop h' finished t [])"

fun chain :: "mem \<Rightarrow> u64 \<Rightarrow> u64 list \<Rightarrow> u64 list \<Rightarrow> bool" where
  "chain m p [] [] = (p = 0)"
| "chain m p (a # ns) (t # ts) = (p = a \<and> wfld m a f_thread = t \<and> chain m (wfld m a f_next) ns ts)"
| "chain m p _ _ = False"

definition objs :: "kheap \<Rightarrow> u64 set" where
  "objs h = {p. \<exists>k\<ge>16. (p, k) \<in> live h}"

definition tl_rep :: "kheap \<Rightarrow> u64 \<Rightarrow> u64 list \<Rightarrow> u64 list \<Rightarrow> bool" where
  "tl_rep h l ns ts \<longleftrightarrow> heap_ok h \<and> distinct (l # ns) \<and> set (l # ns) \<subseteq> objs h \<and>
     chain (kmem h) (wfld (kmem h) l f_head) ns ts \<and> wfld (kmem h) l f_tail = (if ns = [] then 0 else last ns)"

definition frame :: "u64 set \<Rightarrow> kheap \<Rightarrow> kheap \<Rightarrow> bool" where
  "frame S h h' \<longleftrightarrow> (\<forall>q\<in>objs h - S. q \<in> objs h' \<and> (\<forall>j<2. wfld (kmem h') q j = wfld (kmem h) q j))"

lemma objs_nonzero: "heap_ok h \<Longrightarrow> p \<in> objs h \<Longrightarrow> p \<noteq> 0"
  using kh.place_law by (auto simp: objs_def)

lemma wfld_upd:
  assumes "heap_ok h" "p \<in> objs h" "q \<in> objs h" "i < 2" "j < 2"
  shows "wfld (set_wfld m p i v) q j = (if p = q \<and> i = j then v else wfld m q j)"
proof -
  obtain n k where "(p, n) \<in> live h" "16 \<le> n" "(q, k) \<in> live h" "16 \<le> k" using assms(2,3) by (auto simp: objs_def)
  then show ?thesis using kh.wfld_set_wfld [of h p n i q k j m v] assms by simp
qed

definition good :: "kheap \<Rightarrow> mem \<Rightarrow> bool" where
  "good h m \<longleftrightarrow> heap_ok (h\<lparr>kmem := m\<rparr>) \<and> live (h\<lparr>kmem := m\<rparr>) = live h"

lemma good_refl: "heap_ok h \<Longrightarrow> good h (kmem h)"
  by (simp add: good_def)

lemma good_set: "good h m \<Longrightarrow> p \<in> objs h \<Longrightarrow> i < 2 \<Longrightarrow> good h (set_wfld m p i v)"
proof -
  assume g: "good h m" "i < 2" and p: "p \<in> objs h"
  obtain n where "(p, n) \<in> live (h\<lparr>kmem := m\<rparr>)" "16 \<le> n" using p g(1) by (auto simp: objs_def good_def)
  then show ?thesis
    using kh.set_wfld_ok [of "h\<lparr>kmem := m\<rparr>" p n i v] g by (simp add: good_def)
qed

lemma good_objs: "good h m \<Longrightarrow> objs (h\<lparr>kmem := m\<rparr>) = objs h"
  by (simp add: good_def objs_def)

lemma chain_cong:
  "(\<And>q j. q \<in> set ns \<Longrightarrow> j < 2 \<Longrightarrow> wfld m' q j = wfld m q j) \<Longrightarrow> chain m' p ns ts = chain m p ns ts"
  by (induction m p ns ts rule: chain.induct) auto

lemma tl_rep_frame:
  assumes "tl_rep h l ns ts" "frame S h h'" "heap_ok h'" "S \<inter> set (l # ns) = {}"
  shows "tl_rep h' l ns ts"
proof -
  have o: "q \<in> objs h' \<and> (\<forall>j<2. wfld (kmem h') q j = wfld (kmem h) q j)" if "q \<in> set (l # ns)" for q
    using assms(1,2,4) that by (fastforce simp: frame_def tl_rep_def)
  then have "chain (kmem h') p ns ts = chain (kmem h) p ns ts" for p by (intro chain_cong) auto
  then show ?thesis using assms(1,3) o by (auto simp: tl_rep_def)
qed

lemma chain_snoc:
  assumes "chain m p ns ts" "distinct ns" "ns \<noteq> []"
    and "\<And>q j. q \<in> set ns \<Longrightarrow> j < 2 \<Longrightarrow> q \<noteq> last ns \<or> j \<noteq> f_next \<Longrightarrow> wfld m' q j = wfld m q j"
    and "wfld m' (last ns) f_next = a" "wfld m' a f_thread = t" "wfld m' a f_next = 0"
  shows "chain m' p (ns @ [a]) (ts @ [t])"
  using assms
proof (induction m p ns ts rule: chain.induct)
  case (2 m p b ns u us)
  show ?case
  proof (cases "ns = []")
    case True
    then show ?thesis using 2 by (cases us) auto
  next
    case False
    have "chain m' (wfld m b f_next) (ns @ [a]) (us @ [t])"
      using "2.prems" False by (intro "2.IH") auto
    moreover have "b \<noteq> last ns" using "2.prems"(2) last_in_set [OF False] by auto
    then have "wfld m' b f_next = wfld m b f_next" "wfld m' b f_thread = wfld m b f_thread"
      using "2.prems"(4) [of b] False by simp_all
    ultimately show ?thesis using "2.prems"(1) by simp
  qed
qed auto

lemma alloc_obj:
  assumes ok: "heap_ok h"
  obtains "kmalloc h 16 = Some (Inl oom)"
    | p n h1 where "kmalloc h 16 = Some (Inr (p, h1))" "heap_ok h1" "p \<noteq> 0" "live h1 = insert (p, n) (live h)"
      "p \<notin> fst ` live h" "p \<in> objs h1" "objs h1 = insert p (objs h)" "p \<notin> objs h"
      "\<And>q j. q \<in> objs h \<Longrightarrow> j < 2 \<Longrightarrow> wfld (kmem h1) q j = wfld (kmem h) q j"
proof (rule kh.alloc_cases [OF ok, of 16])
  fix p n h1
  assume a: "kmalloc h 16 = Some (Inr (p, h1))" "heap_ok h1" "unat (16 :: u64) \<le> n"
    "live h1 = insert (p, n) (live h)" "p \<noteq> 0" "\<And>k. (p, k) \<notin> live h"
    "\<And>q k j. (q, k) \<in> live h \<Longrightarrow> 8 * j + 8 \<le> k \<Longrightarrow> wfld (kmem h1) q j = wfld (kmem h) q j"
  have "p \<in> objs h1" "objs h1 = insert p (objs h)" "p \<notin> objs h" using a(3,4,6) by (auto simp: objs_def)
  moreover have "wfld (kmem h1) q j = wfld (kmem h) q j" if "q \<in> objs h" "j < 2" for q j
    using that a(7) [of q _ j] by (auto simp: objs_def)
  moreover have "p \<notin> fst ` live h" using a(6) by auto
  ultimately show thesis using that(2) a(1,2,4,5) by blast
qed (use that in simp_all)

lemmas list_sizes = sizeof_ThreadList_def sizeof_ThreadListNode_def

lemma thread_list_new_spec:
  assumes ok: "heap_ok h"
  shows "thread_list_new h = Some (Inl oom) \<or>
    (\<exists>l h' k. thread_list_new h = Some (Inr (l, h')) \<and> tl_rep h' l [] [] \<and> live h' = insert (l, k) (live h) \<and>
       l \<notin> fst ` live h \<and> frame {} h h')"
proof (rule alloc_obj [OF ok])
  fix p n h1
  assume a: "kmalloc h 16 = Some (Inr (p, h1))" "heap_ok h1" "live h1 = insert (p, n) (live h)" "p \<notin> fst ` live h"
    and ob: "p \<in> objs h1" "objs h1 = insert p (objs h)" "p \<notin> objs h"
    and same: "\<And>q j. q \<in> objs h \<Longrightarrow> j < 2 \<Longrightarrow> wfld (kmem h1) q j = wfld (kmem h) q j"
  define m where "m = set_wfld (set_wfld (kmem h1) p f_head 0) p f_tail 0"
  have g: "good h1 m" using good_refl [OF a(2)] ob(1) by (simp add: good_set m_def)
  have "tl_rep (h1\<lparr>kmem := m\<rparr>) p [] []"
    using g ob a(2) by (simp add: tl_rep_def wfld_upd [OF a(2)] good_objs good_def m_def)
  moreover have "frame {} h (h1\<lparr>kmem := m\<rparr>)"
    using ob same by (auto simp: frame_def good_objs [OF g]) (auto simp: m_def wfld_upd [OF a(2)])
  moreover have "thread_list_new h = Some (Inr (p, h1\<lparr>kmem := m\<rparr>))"
    using a(1) by (simp add: thread_list_new_def m_def list_sizes)
  moreover have "live (h1\<lparr>kmem := m\<rparr>) = insert (p, n) (live h)" using g a(3) by (simp add: good_def)
  ultimately show ?thesis using a(4) by blast
qed (simp_all add: thread_list_new_def list_sizes)

lemma thread_list_add_spec:
  assumes rep: "tl_rep h l ns ts"
  shows "thread_list_add h l t = Some (Inl oom) \<or>
    (\<exists>a h' k. thread_list_add h l t = Some (Inr h') \<and> tl_rep h' l (ns @ [a]) (ts @ [t]) \<and>
       live h' = insert (a, k) (live h) \<and> a \<notin> fst ` live h \<and> frame (set (l # ns)) h h')"
proof (rule alloc_obj [of h])
  fix p n h1
  assume a: "kmalloc h 16 = Some (Inr (p, h1))" "heap_ok h1" "p \<noteq> 0" "live h1 = insert (p, n) (live h)" "p \<notin> fst ` live h"
    and ob: "p \<in> objs h1" "objs h1 = insert p (objs h)" "p \<notin> objs h"
    and same: "\<And>q j. q \<in> objs h \<Longrightarrow> j < 2 \<Longrightarrow> wfld (kmem h1) q j = wfld (kmem h) q j"
  note rp = rep [unfolded tl_rep_def]
  have in1: "q \<in> objs h1 \<and> q \<in> objs h \<and> q \<noteq> p" if "q \<in> set (l # ns)" for q using rp that ob by auto
  define m2 where "m2 = set_wfld (set_wfld (kmem h1) p f_thread t) p f_next 0"
  define m4 where "m4 = (if wfld m2 l f_head = 0 then set_wfld (set_wfld m2 l f_head p) l f_tail p
      else set_wfld (set_wfld m2 (wfld m2 l f_tail) f_next p) l f_tail p)"
  have w2: "wfld m2 q j = (if q = p then if j = f_thread then t else 0 else wfld (kmem h) q j)"
    if "q \<in> objs h1" "j < 2" for q j
    using that ob same [of q j] by (auto simp: m2_def wfld_upd [OF a(2)])
  have e: "wfld m2 l f_head = 0 \<longleftrightarrow> ns = []" and tl: "ns \<noteq> [] \<Longrightarrow> wfld m2 l f_tail = last ns"
    using rp in1 [of l] objs_nonzero [of h "hd ns"] w2 [of l] by (cases ns; cases ts; auto)+
  have l1: "ns \<noteq> [] \<Longrightarrow> last ns \<in> objs h1 \<and> last ns \<noteq> p \<and> last ns \<noteq> l"
    using in1 [of "last ns"] rp by auto
  have "good h1 m2" using good_refl [OF a(2)] ob(1) by (simp add: good_set m2_def)
  then have g: "good h1 m4" using ob(1) in1 [of l] l1 by (cases "ns = []") (simp_all add: m4_def e tl good_set)
  have w: "wfld m4 q j = (if q = p then if j = f_thread then t else 0
      else if q = l then if j = f_head \<and> ns \<noteq> [] then wfld (kmem h) q j else p
      else if ns \<noteq> [] \<and> q = last ns \<and> j = f_next then p else wfld (kmem h) q j)" if "q \<in> objs h1" "j < 2" for q j
    using that ob in1 [of l] l1 w2 [OF that] unfolding m4_def e
    by (cases "ns = []") (auto simp: wfld_upd [OF a(2)] tl)
  have "chain m4 (wfld m4 l f_head) (ns @ [p]) (ts @ [t])"
  proof (cases "ns = []")
    case True
    then show ?thesis using rp w [of l] w [of p] in1 [of l] ob(1) by (cases ts) auto
  next
    case False
    then show ?thesis using rp in1 l1 ob(1) by (intro chain_snoc [of "kmem h"]) (auto simp: w)
  qed
  then have "tl_rep (h1\<lparr>kmem := m4\<rparr>) l (ns @ [p]) (ts @ [t])"
    using rp g in1 ob w [of l f_tail] by (auto simp: tl_rep_def good_objs) (auto simp: good_def)
  moreover have "frame (set (l # ns)) h (h1\<lparr>kmem := m4\<rparr>)"
    using ob w by (auto simp: frame_def good_objs [OF g])
  moreover have "thread_list_add h l t = Some (Inr (h1\<lparr>kmem := m4\<rparr>))"
    using a(1) by (simp add: thread_list_add_def m4_def m2_def Let_def list_sizes)
  moreover have "live (h1\<lparr>kmem := m4\<rparr>) = insert (p, n) (live h)" using g a(4) by (simp add: good_def)
  ultimately show ?thesis using a(5) by blast
qed (use rep in \<open>simp_all add: thread_list_add_def list_sizes tl_rep_def\<close>)

lemma thread_list_get_next_empty: "tl_rep h l [] [] \<Longrightarrow> thread_list_get_next h l = Inr (0, h)"
  by (simp add: tl_rep_def thread_list_get_next_def)

lemma thread_list_get_next_spec:
  assumes rep: "tl_rep h l (p # ns) (t # ts)"
  shows "\<exists>h' k. thread_list_get_next h l = Inr (t, h') \<and> tl_rep h' l ns ts \<and>
    (p, k) \<in> live h \<and> live h' = live h - {(p, k)} \<and> frame (set (l # p # ns)) h h'"
proof -
  note rp = rep [unfolded tl_rep_def]
  have ok: "heap_ok h" and in1: "l \<in> objs h" "p \<in> objs h" "l \<noteq> p" "l \<notin> set ns" "p \<notin> set ns" "set ns \<subseteq> objs h"
    using rp by auto
  have hd: "wfld (kmem h) l f_head = p" "wfld (kmem h) p f_thread = t" "chain (kmem h) (wfld (kmem h) p f_next) ns ts"
    "p \<noteq> 0" "wfld (kmem h) l f_tail = last (p # ns)"
    using rp objs_nonzero [OF ok in1(2)] by auto
  define m1 where "m1 = set_wfld (kmem h) l f_head (wfld (kmem h) p f_next)"
  define m2 where "m2 = (if wfld m1 l f_head = 0 then set_wfld m1 l f_tail 0 else m1)"
  have e: "wfld m1 l f_head = wfld (kmem h) p f_next" using in1 by (simp add: m1_def wfld_upd [OF ok])
  have e2: "wfld (kmem h) p f_next = 0 \<longleftrightarrow> ns = []"
    using hd(3) in1 objs_nonzero [OF ok, of "hd ns"] by (cases ns; cases ts) auto
  have w: "wfld m2 q j = (if q = l then if j = f_head then wfld (kmem h) p f_next else if ns = [] then 0 else last ns
      else wfld (kmem h) q j)" if "q \<in> objs h" "j < 2" for q j
    using that in1 hd(5) e e2 unfolding m2_def m1_def by (auto simp: wfld_upd [OF ok] less_2_cases_iff)
  have g: "good h m2" using good_refl [OF ok] in1 by (simp add: m2_def m1_def good_set)
  obtain k where k: "(p, k) \<in> live (h\<lparr>kmem := m2\<rparr>)" "(p, k) \<in> live h" using in1(2) g by (auto simp: objs_def good_def)
  obtain h' where h': "kfree (h\<lparr>kmem := m2\<rparr>) p = Inr h'" "heap_ok h'" "live h' = live (h\<lparr>kmem := m2\<rparr>) - {(p, k)}"
    "\<And>q k j. (q, k) \<in> live h' \<Longrightarrow> 8 * j + 8 \<le> k \<Longrightarrow> wfld (kmem h') q j = wfld m2 q j"
    by (rule kh.free_block [OF _ k(1), simplified]) (use g in \<open>simp add: good_def\<close>, rule that, assumption+, simp)
  have lv: "live h' = live h - {(p, k)}" using h'(3) g by (simp add: good_def)
  then have ob: "objs h' = objs h - {p}" using kh.block_unique [OF ok k(2)] by (auto simp: objs_def)
  have same: "wfld (kmem h') q j = wfld m2 q j" if "q \<in> objs h'" "j < 2" for q j
    using that h'(4) [of q _ j] by (auto simp: objs_def)
  have w': "wfld (kmem h') q j = (if q = l then if j = f_head then wfld (kmem h) p f_next else if ns = [] then 0 else last ns
      else wfld (kmem h) q j)" if "q \<in> objs h" "q \<noteq> p" "j < 2" for q j
    using same [of q j] w [of q j] that ob by simp
  have "chain (kmem h') x ns ts = chain (kmem h) x ns ts" for x
  proof (rule chain_cong)
    fix q j assume "q \<in> set ns" "j < (2 :: nat)"
    moreover from this have "q \<in> objs h" "q \<noteq> l" "q \<noteq> p" using in1 by auto
    ultimately show "wfld (kmem h') q j = wfld (kmem h) q j" using w' by simp
  qed
  then have "tl_rep h' l ns ts"
    using rp h'(2) hd(3) ob in1 w' [of l f_tail] w' [of l f_head] by (auto simp: tl_rep_def)
  moreover have "frame (set (l # p # ns)) h h'" using ob w' by (auto simp: frame_def)
  moreover have "thread_list_get_next h l = Inr (t, h')"
    using h'(1) hd in1 w [of p f_thread] by (simp add: thread_list_get_next_def Let_def flip: m1_def m2_def)
  ultimately show ?thesis using k(2) lv by blast
qed

lemma tl_rep_length: "tl_rep h l ns ts \<Longrightarrow> length ns = length ts"
proof -
  have "chain m p ns ts \<Longrightarrow> length ns = length ts" for m p by (induction m p ns ts rule: chain.induct) auto
  then show "tl_rep h l ns ts \<Longrightarrow> length ns = length ts" by (auto simp: tl_rep_def)
qed

lemma live_remove: "heap_ok h \<Longrightarrow> (p, k) \<in> live h \<Longrightarrow> fst ` (live h - {(p, k)}) = fst ` live h - {p}"
proof -
  assume "heap_ok h" "(p, k) \<in> live h"
  then have "(p, n) \<in> live h \<Longrightarrow> n = k" for n by (rule kh.block_unique [symmetric])
  then show ?thesis by (fastforce simp: image_iff)
qed

lemma reap_loop_drains:
  "tl_rep h l ns ts \<Longrightarrow> 0 \<notin> set (t # ts) \<Longrightarrow>
   \<exists>h'. reap_loop h l t logged = Some (Inr (logged @ t # ts, h')) \<and> tl_rep h' l [] [] \<and>
     fst ` live h' = fst ` live h - set ns"
proof (induction ts arbitrary: h ns t logged)
  case Nil
  then have "ns = []" using tl_rep_length by fastforce
  then show ?case
    using Nil thread_list_get_next_empty [of h l] by (auto simp: reap_loop.simps [of h] reap_loop.simps [of h l 0])
next
  case (Cons u ts)
  then obtain p ns' where ns: "ns = p # ns'" using tl_rep_length by (cases ns) fastforce+
  obtain h1 k where h1: "thread_list_get_next h l = Inr (u, h1)" "tl_rep h1 l ns' ts" "(p, k) \<in> live h"
      "live h1 = live h - {(p, k)}"
    using thread_list_get_next_spec [of h l p ns' u ts] Cons.prems(1) ns by blast
  have "heap_ok h" using Cons.prems(1) by (simp add: tl_rep_def)
  then have lv: "fst ` live h1 = fst ` live h - {p}" using live_remove h1(3,4) by simp
  obtain h' where h': "reap_loop h1 l u (logged @ [t]) = Some (Inr ((logged @ [t]) @ u # ts, h'))"
      "tl_rep h' l [] []" "fst ` live h' = fst ` live h1 - set ns'"
    using Cons.IH [OF h1(2), of u "logged @ [t]"] Cons.prems(2) by auto
  then show ?case using h1(1) Cons.prems(2) lv ns by (auto simp: reap_loop.simps [of h])
qed

section \<open>Properties\<close>


text \<open>C15. A round of the reaper returns: it logs the finished threads in the order they were
  added, leaves the list empty, and frees exactly the list's nodes.\<close>

theorem reap_round_drains:
  assumes "tl_rep h l ns ts" "0 \<notin> set ts"
  shows "\<exists>h'. reap_round h l = Some (Inr (ts, h')) \<and> tl_rep h' l [] [] \<and> fst ` live h' = fst ` live h - set ns"
proof (cases ts)
  case Nil
  then have "ns = []" using tl_rep_length [OF assms(1)] by simp
  then show ?thesis
    using Nil assms(1) thread_list_get_next_empty [of h l]
    by (auto simp: reap_round_def reap_loop.simps [of h l 0])
next
  case (Cons u us)
  then obtain p ns' where ns: "ns = p # ns'" using tl_rep_length [OF assms(1)] by (cases ns) auto
  obtain h1 k where h1: "thread_list_get_next h l = Inr (u, h1)" "tl_rep h1 l ns' us" "(p, k) \<in> live h"
      "live h1 = live h - {(p, k)}"
    using thread_list_get_next_spec [of h l p ns' u us] assms(1) ns Cons by blast
  have "heap_ok h" using assms(1) by (simp add: tl_rep_def)
  then have "fst ` live h1 = fst ` live h - {p}" using live_remove h1(3,4) by simp
  then show ?thesis
    using reap_loop_drains [OF h1(2), of u "[]"] assms(2) Cons h1(1) ns by (auto simp: reap_round_def)
qed

lemma boot_list: "\<exists>l h. thread_list_new (boot_heap (\<lambda>_. 0)) = Some (Inr (l, h)) \<and> tl_rep h l [] []"
proof -
  have ok: "heap_ok (boot_heap (\<lambda>_. 0))" using boot_heap_rep by (auto simp: heap_ok_def)
  obtain h' where "kmalloc (boot_heap (\<lambda>_. 0)) 16 = Some (Inr (A 0 + 8, h'))"
    using boot_alloc [of 16 "\<lambda>_. 0"] by auto
  then have "thread_list_new (boot_heap (\<lambda>_. 0)) \<noteq> Some (Inl oom)"
    by (simp add: thread_list_new_def list_sizes Let_def)
  then show ?thesis using thread_list_new_spec [OF ok] by blast
qed


theorem reap_round_drains_witness: "\<exists>h l h'. tl_rep h l [] [] \<and> reap_round h l = Some (Inr ([], h'))"
proof -
  obtain l h where "tl_rep h l [] []" using boot_list by blast
  then show ?thesis using reap_round_drains [of h l "[]" "[]"] by fastforce
qed

end
