(* ===== verification/Madt.thy ===== *)
theory Madt
  imports ThreadList
begin

text \<open>
  \<open>kernel/acpi/madt.c\<close>: the interrupt controllers listed in the ACPI MADT table. The table is read from
  byte memory at the offsets of the packed structures in \<open>uacpi/acpi.h\<close>; each list is a chain of
  records at addresses the kernel heap handed out. Finding the table is the job of uACPI and a parameter.
\<close>

section \<open>Tables\<close>

definition rd8 :: "mem \<Rightarrow> u64 \<Rightarrow> u8" where "rd8 m a = m a"
definition rd16 :: "mem \<Rightarrow> u64 \<Rightarrow> u16" where "rd16 m a = ucast (ld 2 m a)"
definition rd32 :: "mem \<Rightarrow> u64 \<Rightarrow> u32" where "rd32 m a = ucast (ld 4 m a)"

lemma ld_4: "ld 4 m a = ucast (m a) OR push_bit 8 (ucast (m (a + 1)) OR push_bit 8 (ucast (m (a + 2)) OR push_bit 8 (ucast (m (a + 3)))))"
proof -
  have "ld (Suc (Suc (Suc (Suc 0)))) m a = ucast (m a) OR push_bit 8 (ucast (m (a + 1)) OR push_bit 8 (ucast (m (a + 2)) OR push_bit 8 (ucast (m (a + 3)))))"
    by (simp add: add.assoc)
  moreover have "Suc (Suc (Suc (Suc 0))) = 4" by simp
  ultimately show ?thesis by (simp only:)
qed

record acpi_entry_hdr =
  eh_type :: u8
  eh_length :: u8

definition acpi_entry_hdr_at :: "mem \<Rightarrow> u64 \<Rightarrow> acpi_entry_hdr" where
  "acpi_entry_hdr_at m a = \<lparr>eh_type = rd8 m a, eh_length = rd8 m (a + 1)\<rparr>"

definition sdt_length :: "mem \<Rightarrow> u64 \<Rightarrow> u32" where "sdt_length m a = rd32 m (a + 4)"
definition sizeof_acpi_madt :: u64 where "sizeof_acpi_madt = 44"

definition madt_entries :: "u64 \<Rightarrow> u64" where "madt_entries madt = madt + sizeof_acpi_madt"

definition ACPI_MADT_ENTRY_TYPE_LAPIC :: u8 where "ACPI_MADT_ENTRY_TYPE_LAPIC = 0"
definition ACPI_MADT_ENTRY_TYPE_IOAPIC :: u8 where "ACPI_MADT_ENTRY_TYPE_IOAPIC = 1"
definition ACPI_MADT_ENTRY_TYPE_INTERRUPT_SOURCE_OVERRIDE :: u8 where "ACPI_MADT_ENTRY_TYPE_INTERRUPT_SOURCE_OVERRIDE = 2"
definition ACPI_MADT_ENTRY_TYPE_NMI_SOURCE :: u8 where "ACPI_MADT_ENTRY_TYPE_NMI_SOURCE = 3"
definition ACPI_MADT_ENTRY_TYPE_LAPIC_NMI :: u8 where "ACPI_MADT_ENTRY_TYPE_LAPIC_NMI = 4"

lemmas madt_types = ACPI_MADT_ENTRY_TYPE_LAPIC_def ACPI_MADT_ENTRY_TYPE_IOAPIC_def
  ACPI_MADT_ENTRY_TYPE_INTERRUPT_SOURCE_OVERRIDE_def ACPI_MADT_ENTRY_TYPE_NMI_SOURCE_def ACPI_MADT_ENTRY_TYPE_LAPIC_NMI_def

record MadtLApic =
  la_acpi_id :: u8
  la_lapic_id :: u8
  la_flags :: u8
  la_next :: u64

record MadtLApicNmi =
  ln_uid :: u8
  ln_flags :: u16
  ln_lint :: u8
  ln_next :: u64

record MadtIoApic =
  ia_ioapic_id :: u8
  ia_reserved :: u8
  ia_ioapic_addr :: u32
  ia_gsi_base :: u32
  ia_next :: u64

record MadtIoApicIso =
  is_bus :: u8
  is_source :: u8
  is_gsi :: u32
  is_flags :: u16
  is_next :: u64

record MadtIoApicNmi =
  in_flags :: u16
  in_gsi :: u32
  in_next :: u64

record madt =
  md_heap :: kheap
  lapic_st :: "u64 \<Rightarrow> MadtLApic"
  lapic_nmi_st :: "u64 \<Rightarrow> MadtLApicNmi"
  ioapic_st :: "u64 \<Rightarrow> MadtIoApic"
  iso_st :: "u64 \<Rightarrow> MadtIoApicIso"
  ioapic_nmi_st :: "u64 \<Rightarrow> MadtIoApicNmi"
  lapics :: u64
  lapic_nmis :: u64
  ioapics :: u64
  ioapic_nmis :: u64
  ioapic_isos :: u64

definition madt_get_lapics :: "madt \<Rightarrow> u64" where "madt_get_lapics s = lapics s"
definition madt_get_lapic_nmis :: "madt \<Rightarrow> u64" where "madt_get_lapic_nmis s = lapic_nmis s"
definition madt_get_ioapics :: "madt \<Rightarrow> u64" where "madt_get_ioapics s = ioapics s"
definition madt_get_ioapic_isos :: "madt \<Rightarrow> u64" where "madt_get_ioapic_isos s = ioapic_isos s"
definition madt_get_ioapic_nmis :: "madt \<Rightarrow> u64" where "madt_get_ioapic_nmis s = ioapic_nmis s"

text \<open>The fields of a table entry, at the offsets of the packed structures of \<open>uacpi/acpi.h\<close>.\<close>

definition acpi_madt_lapic_at :: "mem \<Rightarrow> u64 \<Rightarrow> u64 \<Rightarrow> MadtLApic" where
  "acpi_madt_lapic_at m e nxt = \<lparr>la_acpi_id = rd8 m (e + 2), la_lapic_id = rd8 m (e + 3), la_flags = ucast (rd32 m (e + 4)), la_next = nxt\<rparr>"

definition acpi_madt_ioapic_at :: "mem \<Rightarrow> u64 \<Rightarrow> u64 \<Rightarrow> MadtIoApic" where
  "acpi_madt_ioapic_at m e nxt = \<lparr>ia_ioapic_id = rd8 m (e + 2), ia_reserved = rd8 m (e + 3), ia_ioapic_addr = rd32 m (e + 4),
     ia_gsi_base = rd32 m (e + 8), ia_next = nxt\<rparr>"

definition acpi_madt_lapic_nmi_at :: "mem \<Rightarrow> u64 \<Rightarrow> u64 \<Rightarrow> MadtLApicNmi" where
  "acpi_madt_lapic_nmi_at m e nxt = \<lparr>ln_uid = rd8 m (e + 2), ln_flags = rd16 m (e + 3), ln_lint = rd8 m (e + 5), ln_next = nxt\<rparr>"

definition acpi_madt_iso_at :: "mem \<Rightarrow> u64 \<Rightarrow> u64 \<Rightarrow> MadtIoApicIso" where
  "acpi_madt_iso_at m e nxt = \<lparr>is_bus = rd8 m (e + 2), is_source = rd8 m (e + 3), is_gsi = rd32 m (e + 4), is_flags = rd16 m (e + 8), is_next = nxt\<rparr>"

definition acpi_madt_nmi_source_at :: "mem \<Rightarrow> u64 \<Rightarrow> u64 \<Rightarrow> MadtIoApicNmi" where
  "acpi_madt_nmi_source_at m e nxt = \<lparr>in_flags = rd16 m (e + 2), in_gsi = rd32 m (e + 4), in_next = nxt\<rparr>"

definition sizeof_MadtLApic :: u64 where "sizeof_MadtLApic = 11"
definition sizeof_MadtIoApic :: u64 where "sizeof_MadtIoApic = 18"
definition sizeof_MadtLApicNmi :: u64 where "sizeof_MadtLApicNmi = 16"
definition sizeof_MadtIoApicIso :: u64 where "sizeof_MadtIoApicIso = 24"
definition sizeof_MadtIoApicNmi :: u64 where "sizeof_MadtIoApicNmi = 16"

lemmas madt_sizes = sizeof_MadtLApic_def sizeof_MadtIoApic_def sizeof_MadtLApicNmi_def sizeof_MadtIoApicIso_def sizeof_MadtIoApicNmi_def

definition get_lapic_entry :: "mem \<Rightarrow> u64 \<Rightarrow> madt \<Rightarrow> madt run" where
  "get_lapic_entry m entry s =
     rbind (kmalloc (md_heap s) sizeof_MadtLApic) (\<lambda>(lapic_entry, h1).
       Some (Inr (s\<lparr>md_heap := h1, lapic_st := (lapic_st s)(lapic_entry := acpi_madt_lapic_at m entry (lapics s)), lapics := lapic_entry\<rparr>)))"

definition get_ioapic_entry :: "mem \<Rightarrow> u64 \<Rightarrow> madt \<Rightarrow> madt run" where
  "get_ioapic_entry m entry s =
     rbind (kmalloc (md_heap s) sizeof_MadtIoApic) (\<lambda>(ioapic_entry, h1).
       Some (Inr (s\<lparr>md_heap := h1, ioapic_st := (ioapic_st s)(ioapic_entry := acpi_madt_ioapic_at m entry (ioapics s)), ioapics := ioapic_entry\<rparr>)))"

definition get_lapic_nmi_entry :: "mem \<Rightarrow> u64 \<Rightarrow> madt \<Rightarrow> madt run" where
  "get_lapic_nmi_entry m entry s =
     rbind (kmalloc (md_heap s) sizeof_MadtLApicNmi) (\<lambda>(nmi_entry, h1).
       Some (Inr (s\<lparr>md_heap := h1, lapic_nmi_st := (lapic_nmi_st s)(nmi_entry := acpi_madt_lapic_nmi_at m entry (lapic_nmis s)), lapic_nmis := nmi_entry\<rparr>)))"

definition get_ioapic_iso_entry :: "mem \<Rightarrow> u64 \<Rightarrow> madt \<Rightarrow> madt run" where
  "get_ioapic_iso_entry m entry s =
     rbind (kmalloc (md_heap s) sizeof_MadtIoApicIso) (\<lambda>(iso_entry, h1).
       Some (Inr (s\<lparr>md_heap := h1, iso_st := (iso_st s)(iso_entry := acpi_madt_iso_at m entry (ioapic_isos s)), ioapic_isos := iso_entry\<rparr>)))"

definition get_ioapic_nmi_entry :: "mem \<Rightarrow> u64 \<Rightarrow> madt \<Rightarrow> madt run" where
  "get_ioapic_nmi_entry m entry s =
     rbind (kmalloc (md_heap s) sizeof_MadtIoApicNmi) (\<lambda>(nmi_entry, h1).
       Some (Inr (s\<lparr>md_heap := h1, ioapic_nmi_st := (ioapic_nmi_st s)(nmi_entry := acpi_madt_nmi_source_at m entry (ioapic_nmis s)), ioapic_nmis := nmi_entry\<rparr>)))"

definition madt_step :: "mem \<Rightarrow> u64 \<Rightarrow> madt \<Rightarrow> madt run" where
  "madt_step m entry s =
     (let t = eh_type (acpi_entry_hdr_at m entry)
      in if t = ACPI_MADT_ENTRY_TYPE_LAPIC then get_lapic_entry m entry s
         else if t = ACPI_MADT_ENTRY_TYPE_LAPIC_NMI then get_lapic_nmi_entry m entry s
         else if t = ACPI_MADT_ENTRY_TYPE_IOAPIC then get_ioapic_entry m entry s
         else if t = ACPI_MADT_ENTRY_TYPE_INTERRUPT_SOURCE_OVERRIDE then get_ioapic_iso_entry m entry s
         else if t = ACPI_MADT_ENTRY_TYPE_NMI_SOURCE then get_ioapic_nmi_entry m entry s
         else Some (Inr s))"

partial_function (option) madt_loop :: "mem \<Rightarrow> u64 \<Rightarrow> u64 \<Rightarrow> madt \<Rightarrow> madt run" where
  "madt_loop m madt offset s =
     (if offset < ucast (sdt_length m madt) - sizeof_acpi_madt then
        let entry = madt_entries madt + offset
        in case madt_step m entry s of
             None \<Rightarrow> None
           | Some (Inl e) \<Rightarrow> Some (Inl e)
           | Some (Inr s') \<Rightarrow> madt_loop m madt (offset + ucast (eh_length (acpi_entry_hdr_at m entry))) s'
      else Some (Inr s))"

definition madt_init :: "mem \<Rightarrow> u64 option \<Rightarrow> madt \<Rightarrow> madt run" where
  "madt_init m madt_table s =
     (case madt_table of
        None \<Rightarrow> Some (Inl (KAssert (''[ACPI] MADT table not found'' @ [CHR 0x0A])))
      | Some madt \<Rightarrow> madt_loop m madt 0 s)"

section \<open>The entries of a table\<close>

fun entries_from :: "mem \<Rightarrow> u64 \<Rightarrow> u64 \<Rightarrow> u64 list \<Rightarrow> bool" where
  "entries_from m madt offset [] \<longleftrightarrow> \<not> offset < ucast (sdt_length m madt) - sizeof_acpi_madt"
| "entries_from m madt offset (e # es) \<longleftrightarrow> offset < ucast (sdt_length m madt) - sizeof_acpi_madt \<and> e = madt_entries madt + offset \<and>
     entries_from m madt (offset + ucast (rd8 m (e + 1))) es"

definition of_type :: "mem \<Rightarrow> u8 \<Rightarrow> u64 list \<Rightarrow> u64 list" where
  "of_type m t es = filter (\<lambda>e. rd8 m e = t) es"

fun mlist :: "('a \<Rightarrow> u64) \<Rightarrow> (u64 \<Rightarrow> 'a) \<Rightarrow> u64 \<Rightarrow> u64 list \<Rightarrow> bool" where
  "mlist nx f p [] \<longleftrightarrow> p = 0"
| "mlist nx f p (a # as) \<longleftrightarrow> p = a \<and> a \<noteq> 0 \<and> mlist nx f (nx (f a)) as"

text \<open>A list of records at heap addresses, \<open>dec\<close> giving the record of a table entry up to its link.\<close>

definition mrep :: "('a \<Rightarrow> u64) \<Rightarrow> (u64 \<Rightarrow> u64 \<Rightarrow> 'a) \<Rightarrow> kheap \<Rightarrow> (u64 \<Rightarrow> 'a) \<Rightarrow> u64 \<Rightarrow> u64 list \<Rightarrow> bool" where
  "mrep nx dec h f head es \<longleftrightarrow>
     (\<exists>as. mlist nx f head as \<and> set as \<subseteq> fst ` live h \<and> list_all2 (\<lambda>a e. \<exists>n. f a = dec e n) as es)"

lemma mlist_upd: "p \<notin> set as \<Longrightarrow> mlist nx (f(p := r)) q as = mlist nx f q as"
  by (induction as arbitrary: q) auto

lemma mrep_mono: "mrep nx dec h f head es \<Longrightarrow> fst ` live h' = insert p (fst ` live h) \<Longrightarrow> mrep nx dec h' f head es"
  unfolding mrep_def by blast

lemma mrep_cons:
  assumes "mrep nx dec h f head es" "p \<notin> fst ` live h" "p \<noteq> 0" "fst ` live h' = insert p (fst ` live h)" "\<And>e n. nx (dec e n) = n"
  shows "mrep nx dec h' (f(p := dec e head)) p (e # es)"
proof -
  obtain as where a: "mlist nx f head as" "set as \<subseteq> fst ` live h" "list_all2 (\<lambda>a e. \<exists>n. f a = dec e n) as es"
    using assms(1) by (auto simp: mrep_def)
  have p: "p \<notin> set as" using a(2) assms(2) by auto
  have "list_all2 (\<lambda>a e. \<exists>n. (f(p := r)) a = dec e n) as es" for r
    using a(3) p by (auto simp: list_all2_conv_all_nth)
  then show ?thesis unfolding mrep_def
    using a p assms by (intro exI [of _ "p # as"]) (auto simp: mlist_upd)
qed

definition madt_rep :: "mem \<Rightarrow> madt \<Rightarrow> u64 list \<Rightarrow> bool" where
  "madt_rep m s es \<longleftrightarrow> heap_ok (md_heap s) \<and>
     mrep la_next (acpi_madt_lapic_at m) (md_heap s) (lapic_st s) (lapics s) (rev (of_type m 0 es)) \<and>
     mrep ia_next (acpi_madt_ioapic_at m) (md_heap s) (ioapic_st s) (ioapics s) (rev (of_type m 1 es)) \<and>
     mrep is_next (acpi_madt_iso_at m) (md_heap s) (iso_st s) (ioapic_isos s) (rev (of_type m 2 es)) \<and>
     mrep in_next (acpi_madt_nmi_source_at m) (md_heap s) (ioapic_nmi_st s) (ioapic_nmis s) (rev (of_type m 3 es)) \<and>
     mrep ln_next (acpi_madt_lapic_nmi_at m) (md_heap s) (lapic_nmi_st s) (lapic_nmis s) (rev (of_type m 4 es))"

lemma alloc_small:
  assumes "heap_ok h" "unat sz \<le> 24"
  obtains "kmalloc h sz = Some (Inl oom)"
    | p h1 where "kmalloc h sz = Some (Inr (p, h1))" "heap_ok h1" "p \<noteq> 0" "p \<notin> fst ` live h" "fst ` live h1 = insert p (fst ` live h)"
proof (rule kh.alloc_cases [OF assms(1), of sz])
  fix p n h1
  assume a: "kmalloc h sz = Some (Inr (p, h1))" "heap_ok h1" "live h1 = insert (p, n) (live h)" "p \<noteq> 0" "\<And>k. (p, k) \<notin> live h"
  have "p \<notin> fst ` live h" using a(5) by auto
  then show thesis using that(2) a(1-4) by simp
qed (use that assms in simp_all)

lemma link_fields [simp]:
  "la_next (acpi_madt_lapic_at m e n) = n" "ia_next (acpi_madt_ioapic_at m e n) = n" "is_next (acpi_madt_iso_at m e n) = n"
  "in_next (acpi_madt_nmi_source_at m e n) = n" "ln_next (acpi_madt_lapic_nmi_at m e n) = n"
  by (simp_all add: acpi_madt_lapic_at_def acpi_madt_ioapic_at_def acpi_madt_iso_at_def acpi_madt_nmi_source_at_def acpi_madt_lapic_nmi_at_def)

lemmas get_entry_defs = get_lapic_entry_def get_ioapic_entry_def get_ioapic_iso_entry_def get_ioapic_nmi_entry_def get_lapic_nmi_entry_def

lemma of_type_snoc [simp]: "of_type m t (es @ [e]) = (if rd8 m e = t then of_type m t es @ [e] else of_type m t es)"
  by (simp add: of_type_def)

lemma madt_step_rep:
  assumes rep: "madt_rep m s es"
  shows "madt_step m e s = Some (Inl oom) \<or> (\<exists>s'. madt_step m e s = Some (Inr s') \<and> madt_rep m s' (es @ [e]))"
proof -
  note rp = rep [unfolded madt_rep_def]
  let ?h = "md_heap s" and ?t = "rd8 m e"
  have ty: "eh_type (acpi_entry_hdr_at m e) = ?t" by (simp add: acpi_entry_hdr_at_def)
  have step: "madt_step m e s = Some (Inl oom) \<or> (\<exists>s'. madt_step m e s = Some (Inr s') \<and> madt_rep m s' (es @ [e]))"
    if sz: "unat sz \<le> 24" and run: "madt_step m e s = rbind (kmalloc ?h sz) (\<lambda>(p, h1). Some (Inr (upd p h1)))"
      and keep: "\<And>p h1. heap_ok h1 \<Longrightarrow> p \<noteq> 0 \<Longrightarrow> p \<notin> fst ` live ?h \<Longrightarrow> fst ` live h1 = insert p (fst ` live ?h) \<Longrightarrow> madt_rep m (upd p h1) (es @ [e])"
    for sz upd
  proof (rule alloc_small [OF _ sz, of ?h])
    fix p h1
    assume "kmalloc ?h sz = Some (Inr (p, h1))" "heap_ok h1" "p \<noteq> 0" "p \<notin> fst ` live ?h" "fst ` live h1 = insert p (fst ` live ?h)"
    then show ?thesis using run keep [of h1 p] by simp
  qed (use rp run in simp_all)
  note kept = mrep_mono [of _ _ ?h] mrep_cons [of _ _ ?h]
  consider "?t = 0" | "?t = 1" | "?t = 2" | "?t = 3" | "?t = 4" | "?t \<noteq> 0" "?t \<noteq> 1" "?t \<noteq> 2" "?t \<noteq> 3" "?t \<noteq> 4" by blast
  then show ?thesis
  proof cases
    case 1
    show ?thesis
    proof (rule step [where upd = "\<lambda>p h1. s\<lparr>md_heap := h1, lapic_st := (lapic_st s)(p := acpi_madt_lapic_at m e (lapics s)), lapics := p\<rparr>"])
      show "unat sizeof_MadtLApic \<le> 24" by (simp add: madt_sizes)
    qed (use 1 rp in \<open>auto simp: madt_step_def ty madt_types get_entry_defs madt_rep_def intro: kept\<close>)
  next
    case 2
    show ?thesis
    proof (rule step [where upd = "\<lambda>p h1. s\<lparr>md_heap := h1, ioapic_st := (ioapic_st s)(p := acpi_madt_ioapic_at m e (ioapics s)), ioapics := p\<rparr>"])
      show "unat sizeof_MadtIoApic \<le> 24" by (simp add: madt_sizes)
    qed (use 2 rp in \<open>auto simp: madt_step_def ty madt_types get_entry_defs madt_rep_def intro: kept\<close>)
  next
    case 3
    show ?thesis
    proof (rule step [where upd = "\<lambda>p h1. s\<lparr>md_heap := h1, iso_st := (iso_st s)(p := acpi_madt_iso_at m e (ioapic_isos s)), ioapic_isos := p\<rparr>"])
      show "unat sizeof_MadtIoApicIso \<le> 24" by (simp add: madt_sizes)
    qed (use 3 rp in \<open>auto simp: madt_step_def ty madt_types get_entry_defs madt_rep_def intro: kept\<close>)
  next
    case 4
    show ?thesis
    proof (rule step [where upd = "\<lambda>p h1. s\<lparr>md_heap := h1, ioapic_nmi_st := (ioapic_nmi_st s)(p := acpi_madt_nmi_source_at m e (ioapic_nmis s)), ioapic_nmis := p\<rparr>"])
      show "unat sizeof_MadtIoApicNmi \<le> 24" by (simp add: madt_sizes)
    qed (use 4 rp in \<open>auto simp: madt_step_def ty madt_types get_entry_defs madt_rep_def intro: kept\<close>)
  next
    case 5
    show ?thesis
    proof (rule step [where upd = "\<lambda>p h1. s\<lparr>md_heap := h1, lapic_nmi_st := (lapic_nmi_st s)(p := acpi_madt_lapic_nmi_at m e (lapic_nmis s)), lapic_nmis := p\<rparr>"])
      show "unat sizeof_MadtLApicNmi \<le> 24" by (simp add: madt_sizes)
    qed (use 5 rp in \<open>auto simp: madt_step_def ty madt_types get_entry_defs madt_rep_def intro: kept\<close>)
  next
    case 6
    then show ?thesis using rep by (simp add: madt_step_def ty madt_types madt_rep_def)
  qed
qed

lemma madt_loop_rep:
  "madt_rep m s es0 \<Longrightarrow> entries_from m madt offset es \<Longrightarrow>
   madt_loop m madt offset s = Some (Inl oom) \<or> (\<exists>s'. madt_loop m madt offset s = Some (Inr s') \<and> madt_rep m s' (es0 @ es))"
proof (induction es arbitrary: es0 s offset)
  case Nil
  then show ?case by (subst (1 2) madt_loop.simps) simp
next
  case (Cons e es)
  note st = madt_step_rep [OF Cons.prems(1), of e]
  have len: "eh_length (acpi_entry_hdr_at m e) = rd8 m (e + 1)" by (simp add: acpi_entry_hdr_at_def)
  from st show ?case
  proof (elim disjE exE conjE)
    assume "madt_step m e s = Some (Inl oom)"
    then show ?thesis using Cons.prems(2) by (subst madt_loop.simps) (simp add: Let_def)
  next
    fix s'
    assume s': "madt_step m e s = Some (Inr s')" "madt_rep m s' (es0 @ [e])"
    have "madt_loop m madt offset s = madt_loop m madt (offset + ucast (rd8 m (e + 1))) s'"
      using Cons.prems(2) s'(1) len by (subst madt_loop.simps) (auto simp: Let_def)
    moreover have "entries_from m madt (offset + ucast (rd8 m (e + 1))) es" using Cons.prems(2) by auto
    ultimately show ?thesis using Cons.IH [OF s'(2)] by (metis append.assoc append_Cons append_Nil)
  qed
qed

section \<open>Properties\<close>


definition sample_madt :: mem where
  "sample_madt = (\<lambda>_. 0)(0x1004 := 52, 0x102d := 8, 0x102e := 3)"

lemma sample_madt_entries: "entries_from sample_madt 0x1000 0 [0x102c]"
  by (simp add: sample_madt_def sdt_length_def rd32_def rd8_def sizeof_acpi_madt_def madt_entries_def ld_4)

definition empty_madt :: madt where
  "empty_madt = \<lparr>md_heap = boot_heap (\<lambda>_. 0), lapic_st = \<lambda>_. acpi_madt_lapic_at (\<lambda>_. 0) 0 0, lapic_nmi_st = \<lambda>_. acpi_madt_lapic_nmi_at (\<lambda>_. 0) 0 0,
     ioapic_st = \<lambda>_. acpi_madt_ioapic_at (\<lambda>_. 0) 0 0, iso_st = \<lambda>_. acpi_madt_iso_at (\<lambda>_. 0) 0 0,
     ioapic_nmi_st = \<lambda>_. acpi_madt_nmi_source_at (\<lambda>_. 0) 0 0, lapics = 0, lapic_nmis = 0, ioapics = 0, ioapic_nmis = 0, ioapic_isos = 0\<rparr>"


lemma madt_loop_stuck:
  "madt_loop m madt offset s = Some r \<Longrightarrow> offset < ucast (sdt_length m madt) - sizeof_acpi_madt \<longrightarrow>
     rd8 m (madt_entries madt + offset) = 5 \<longrightarrow> rd8 m (madt_entries madt + offset + 1) = 0 \<longrightarrow> False"
proof (rule madt_loop.raw_induct [where P = "\<lambda>m madt offset s r. offset < ucast (sdt_length m madt) - sizeof_acpi_madt \<longrightarrow>
     rd8 m (madt_entries madt + offset) = 5 \<longrightarrow> rd8 m (madt_entries madt + offset + 1) = 0 \<longrightarrow> False"])
  fix loop and m :: mem and madt offset :: u64 and s :: madt and r
  assume IH: "\<And>m madt offset s r. loop m madt offset s = Some r \<Longrightarrow> offset < ucast (sdt_length m madt) - sizeof_acpi_madt \<longrightarrow>
     rd8 m (madt_entries madt + offset) = 5 \<longrightarrow> rd8 m (madt_entries madt + offset + 1) = 0 \<longrightarrow> False"
    and e: "(if offset < ucast (sdt_length m madt) - sizeof_acpi_madt then
        let entry = madt_entries madt + offset
        in case madt_step m entry s of None \<Rightarrow> None | Some (Inl e) \<Rightarrow> Some (Inl e)
           | Some (Inr s') \<Rightarrow> loop m madt (offset + ucast (eh_length (acpi_entry_hdr_at m entry))) s'
      else Some (Inr s)) = Some r"
  show "offset < ucast (sdt_length m madt) - sizeof_acpi_madt \<longrightarrow>
     rd8 m (madt_entries madt + offset) = 5 \<longrightarrow> rd8 m (madt_entries madt + offset + 1) = 0 \<longrightarrow> False"
  proof (intro impI)
    assume a: "offset < ucast (sdt_length m madt) - sizeof_acpi_madt" "rd8 m (madt_entries madt + offset) = 5"
      "rd8 m (madt_entries madt + offset + 1) = 0"
    then have "madt_step m (madt_entries madt + offset) s = Some (Inr s)"
      by (simp add: madt_step_def acpi_entry_hdr_at_def madt_types)
    then show False using e a IH [of m madt offset s r] by (simp add: acpi_entry_hdr_at_def)
  qed
qed

text \<open>An entry of length zero makes \<open>madt_init\<close> loop for ever, here one of a type it skips.\<close>

theorem madt_init_zero_length:
  assumes "0 < ucast (sdt_length m table) - sizeof_acpi_madt" "rd8 m (madt_entries table) = 5" "rd8 m (madt_entries table + 1) = 0"
  shows "madt_init m (Some table) s = None"
  using madt_loop_stuck [of m table 0 s] assms by (cases "madt_loop m table 0 s") (auto simp: madt_init_def)

theorem madt_init_zero_length_witness:
  "madt_init ((\<lambda>_. 0)(0x1004 := 52, 0x102c := 5)) (Some 0x1000) empty_madt = None"
  by (rule madt_init_zero_length)
    (simp_all add: sdt_length_def rd32_def rd8_def sizeof_acpi_madt_def madt_entries_def ld_4)

end
