(* ===== verification/Apic.thy ===== *)
theory Apic
  imports Clock Cpu Madt
begin

text \<open>
  The interrupt controllers: \<open>kernel/hardware/lapic.c\<close> and \<open>kernel/hardware/ioapic.c\<close>. Registers are memory-mapped, so reads and
  writes of them are entries of the device history; the lists of the MADT are read from the model of \<open>madt.c\<close>. Log lines are left
  out.
\<close>

section \<open>Local APIC\<close>

definition IA32_APIC_BASE_MSR :: u32 where "IA32_APIC_BASE_MSR = 0x1B"
definition IA32_APIC_BASE_MSR_ENABLE :: u32 where "IA32_APIC_BASE_MSR_ENABLE = 0x800"
definition LAPIC_SOFTWARE_ENABLE :: u32 where "LAPIC_SOFTWARE_ENABLE = 0x100"
definition LAPIC_SPURIOUS_VECTOR :: u8 where "LAPIC_SPURIOUS_VECTOR = 0xF0"
definition LAPIC_NMI_ALL_CPUS :: u8 where "LAPIC_NMI_ALL_CPUS = 0xFF"

datatype LapicDeliveryMode = LAPIC_DELIV_MODE_FIXED | LAPIC_DELIV_MODE_SMI | LAPIC_DELIV_MODE_NMI | LAPIC_DELIV_MODE_INIT | LAPIC_DELIV_MODE_EXTINT

fun deliv_mode_val :: "LapicDeliveryMode \<Rightarrow> u32" where
  "deliv_mode_val LAPIC_DELIV_MODE_FIXED = 0"
| "deliv_mode_val LAPIC_DELIV_MODE_SMI = 0x200"
| "deliv_mode_val LAPIC_DELIV_MODE_NMI = 0x400"
| "deliv_mode_val LAPIC_DELIV_MODE_INIT = 0x500"
| "deliv_mode_val LAPIC_DELIV_MODE_EXTINT = 0x700"

datatype LapicLvtTimerMode = LVT_TIMER_ONE_SHOT | LVT_TIMER_PERIODIC | LVT_TIMER_TSC_DEADLINE

fun timer_mode_val :: "LapicLvtTimerMode \<Rightarrow> u32" where
  "timer_mode_val LVT_TIMER_ONE_SHOT = 0"
| "timer_mode_val LVT_TIMER_PERIODIC = 0x20000"
| "timer_mode_val LVT_TIMER_TSC_DEADLINE = 0x40000"

datatype LapicReg =
    REG_LAPIC_ID | REG_LAPIC_VER | REG_TPR | REG_EOI | REG_SPURIOUS | REG_ICR_LOW | REG_ICR_HIGH | REG_LVT_TIMER
  | REG_LVT_LINT0 | REG_LVT_LINT1 | REG_TIMER_INIT_COUNT | REG_TIMER_CURR_COUNT | REG_TIMER_DIV

fun lapic_reg_val :: "LapicReg \<Rightarrow> u64" where
  "lapic_reg_val REG_LAPIC_ID = 0x20"
| "lapic_reg_val REG_LAPIC_VER = 0x30"
| "lapic_reg_val REG_TPR = 0x80"
| "lapic_reg_val REG_EOI = 0xb0"
| "lapic_reg_val REG_SPURIOUS = 0xf0"
| "lapic_reg_val REG_ICR_LOW = 0x300"
| "lapic_reg_val REG_ICR_HIGH = 0x310"
| "lapic_reg_val REG_LVT_TIMER = 0x320"
| "lapic_reg_val REG_LVT_LINT0 = 0x350"
| "lapic_reg_val REG_LVT_LINT1 = 0x360"
| "lapic_reg_val REG_TIMER_INIT_COUNT = 0x380"
| "lapic_reg_val REG_TIMER_CURR_COUNT = 0x390"
| "lapic_reg_val REG_TIMER_DIV = 0x3e0"

record lapic =
  lapic_hhdm_offset :: u64
  lapic_phys_base :: u64
  lapic_base :: u64
  lapic_calibration_ticks :: u64

definition PIC1_COMMAND_PORT :: u16 where "PIC1_COMMAND_PORT = 0x20"
definition PIC1_DATA_PORT :: u16 where "PIC1_DATA_PORT = 0x21"
definition PIC2_COMMAND_PORT :: u16 where "PIC2_COMMAND_PORT = 0xa0"
definition PIC2_DATA_PORT :: u16 where "PIC2_DATA_PORT = 0xa1"
definition IRQ_SLAVE_PIC_TO_MASTER_PIC :: u8 where "IRQ_SLAVE_PIC_TO_MASTER_PIC = 2"
definition ICW1_ICW4_PRESENT :: u8 where "ICW1_ICW4_PRESENT = 0x01"
definition ICW1_INIT :: u8 where "ICW1_INIT = 0x10"
definition ICW4_8086 :: u8 where "ICW4_8086 = 0x01"

definition disable_pic :: "hw \<Rightarrow> hw" where
  "disable_pic =
     write_portb PIC2_DATA_PORT 0xff \<circ> write_portb PIC1_DATA_PORT 0xff \<circ>
     write_portb PIC2_DATA_PORT ICW4_8086 \<circ> write_portb PIC1_DATA_PORT ICW4_8086 \<circ>
     write_portb PIC2_DATA_PORT IRQ_SLAVE_PIC_TO_MASTER_PIC \<circ> write_portb PIC1_DATA_PORT (push_bit (unat IRQ_SLAVE_PIC_TO_MASTER_PIC) 1) \<circ>
     write_portb PIC2_DATA_PORT (of_nat PIC2_IRQ_BASE) \<circ> write_portb PIC1_DATA_PORT (of_nat PIC1_IRQ_BASE) \<circ>
     write_portb PIC2_COMMAND_PORT (ICW1_INIT OR ICW1_ICW4_PRESENT) \<circ> write_portb PIC1_COMMAND_PORT (ICW1_INIT OR ICW1_ICW4_PRESENT)"

definition lapic_read_reg :: "lapic \<Rightarrow> LapicReg \<Rightarrow> hw \<Rightarrow> u32 \<times> hw" where
  "lapic_read_reg l reg s = (let (a, s1) = hw_ask (Mmio_R32 (lapic_base l + lapic_reg_val reg)) s in (ucast a, s1))"

definition lapic_write_reg :: "lapic \<Rightarrow> LapicReg \<Rightarrow> u32 \<Rightarrow> hw \<Rightarrow> hw" where
  "lapic_write_reg l reg val s = hw_do (Mmio_W32 (lapic_base l + lapic_reg_val reg) val) s"

text \<open>\<open>(edx & 0x0f) << 32\<close> shifts a 32-bit value by its width, whose result C leaves undefined: \<open>shl32\<close> is what the
  compiler makes of it.\<close>

definition cpu_get_apic_base :: "(u32 \<Rightarrow> u32) \<Rightarrow> hw \<Rightarrow> u64 \<times> hw" where
  "cpu_get_apic_base shl32 s =
     (let ((eax, edx), s1) = read_msr IA32_APIC_BASE_MSR s
      in (ucast ((eax AND 0xfffff000) OR shl32 (edx AND 0x0f)), s1))"

definition cpu_set_apic_base :: "u64 \<Rightarrow> hw \<Rightarrow> hw" where
  "cpu_set_apic_base apic s =
     (let edx = ucast (drop_bit 32 apic AND 0x0f);
          eax = ucast ((apic AND 0xfffff0000) OR ucast IA32_APIC_BASE_MSR_ENABLE)
      in write_msr IA32_APIC_BASE_MSR eax edx s)"

definition run_lapic_spurious_handler :: "(string \<times> karg list) list \<times> bool" where
  "run_lapic_spurious_handler = ([(''[LAPIC] spurious interrupt'' @ [CHR 0x0A], [])], False)"

datatype MadtPinPolarity = MADT_ACTIVE_HIGH | MADT_ACTIVE_LOW

fun pin_polarity :: "MadtPinPolarity \<Rightarrow> u16" where
  "pin_polarity MADT_ACTIVE_HIGH = 1"
| "pin_polarity MADT_ACTIVE_LOW = 3"

datatype MadtTriggerMode = MADT_TRIGGER_EDGE | MADT_TRIGGER_LEVEL

fun trigger_mode :: "MadtTriggerMode \<Rightarrow> u16" where
  "trigger_mode MADT_TRIGGER_EDGE = 4"
| "trigger_mode MADT_TRIGGER_LEVEL = 0xc"

definition nmi_lvt_flags :: "u16 \<Rightarrow> u16" where
  "nmi_lvt_flags flags =
     (if flags AND pin_polarity MADT_ACTIVE_HIGH = pin_polarity MADT_ACTIVE_HIGH then pin_polarity MADT_ACTIVE_HIGH
      else if flags AND pin_polarity MADT_ACTIVE_LOW = pin_polarity MADT_ACTIVE_LOW then pin_polarity MADT_ACTIVE_LOW
      else 0)"

partial_function (option) configure_nmis :: "lapic \<Rightarrow> madt \<Rightarrow> u64 \<Rightarrow> hw \<Rightarrow> hw option" where
  "configure_nmis l md lapic_nmi s =
     (if lapic_nmi \<noteq> 0 then
        let nmi = lapic_nmi_st md lapic_nmi
        in if ln_uid nmi \<noteq> LAPIC_NMI_ALL_CPUS \<and> ln_uid nmi \<noteq> la_acpi_id (lapic_st md (madt_get_lapics md))
           then configure_nmis l md (ln_next nmi) s
           else
             let lvt = ucast (nmi_lvt_flags (ln_flags nmi)) OR deliv_mode_val LAPIC_DELIV_MODE_NMI OR 4;
                 s1 = (if ln_lint nmi = 0 then lapic_write_reg l REG_LVT_LINT0 lvt s
                       else if ln_lint nmi = 1 then lapic_write_reg l REG_LVT_LINT1 lvt s
                       else s)
             in configure_nmis l md (ln_next nmi) s1
      else Some s)"

definition lapic_timer_stop :: "lapic \<Rightarrow> hw \<Rightarrow> hw" where
  "lapic_timer_stop l s = lapic_write_reg l REG_TIMER_INIT_COUNT 0 s"

definition UINT32_MAX :: u32 where "UINT32_MAX = 0xffffffff"

fun calibrate_rounds :: "nat \<Rightarrow> HPET \<Rightarrow> lapic \<Rightarrow> u64 \<Rightarrow> hw \<Rightarrow> (u64 \<times> hw) option" where
  "calibrate_rounds 0 timer l total_ticks s = Some (total_ticks, s)"
| "calibrate_rounds (Suc n) timer l total_ticks s =
     (let s1 = lapic_write_reg l REG_TIMER_INIT_COUNT UINT32_MAX s
      in case timer_wait_ns timer 100000000 s1 of
           None \<Rightarrow> None
         | Some s2 \<Rightarrow>
             let (current_count, s3) = lapic_read_reg l REG_TIMER_CURR_COUNT s2;
                 ticks_elapsed = UINT32_MAX - current_count
             in calibrate_rounds n timer l (total_ticks + ucast ticks_elapsed) s3)"

definition calibrate_timer :: "HPET \<Rightarrow> lapic \<Rightarrow> hw \<Rightarrow> (lapic \<times> hw) option" where
  "calibrate_timer timer l s =
     (let s1 = lapic_write_reg l REG_TIMER_DIV 3 s
      in case calibrate_rounds 5 timer l 0 s1 of
           None \<Rightarrow> None
         | Some (total_ticks, s2) \<Rightarrow> Some (l\<lparr>lapic_calibration_ticks := total_ticks div 5\<rparr>, s2))"

definition ns_to_lapic_ticks :: "lapic \<Rightarrow> u64 \<Rightarrow> u64" where
  "ns_to_lapic_ticks l ns = (ns * lapic_calibration_ticks l) div 100000000"

definition lapic_eoi :: "lapic \<Rightarrow> hw \<Rightarrow> hw" where
  "lapic_eoi l s = lapic_write_reg l REG_EOI 0 s"

definition lapic_timer_one_shot :: "lapic \<Rightarrow> u64 \<Rightarrow> u8 \<Rightarrow> hw \<Rightarrow> hw" where
  "lapic_timer_one_shot l ns vec s =
     (let ticks = (ucast (clamp (ns_to_lapic_ticks l ns) 1 (ucast UINT32_MAX)) :: u32);
          s1 = lapic_write_reg l REG_LVT_TIMER (timer_mode_val LVT_TIMER_ONE_SHOT OR ucast vec) s
      in lapic_write_reg l REG_TIMER_INIT_COUNT ticks s1)"

definition lapic_timer_periodic :: "lapic \<Rightarrow> u64 \<Rightarrow> u8 \<Rightarrow> hw \<Rightarrow> hw" where
  "lapic_timer_periodic l ns vec s =
     (let ticks = (ucast (clamp (ns_to_lapic_ticks l ns) 1 (ucast UINT32_MAX)) :: u32);
          s1 = lapic_write_reg l REG_LVT_TIMER (timer_mode_val LVT_TIMER_PERIODIC OR ucast vec) s
      in lapic_write_reg l REG_TIMER_INIT_COUNT ticks s1)"

definition lapic_timer_tsc_deadline :: "lapic \<Rightarrow> u64 \<Rightarrow> u64 \<Rightarrow> u8 \<Rightarrow> hw \<Rightarrow> hw" where
  "lapic_timer_tsc_deadline l tsc_freq deadline vec s =
     (let (now, s1) = tsc_read_ns tsc_freq s;
          delta = deadline - now
      in lapic_timer_one_shot l delta vec s1)"

definition lapic_init :: "(u32 \<Rightarrow> u32) \<Rightarrow> HPET \<Rightarrow> madt \<Rightarrow> u64 \<Rightarrow> lapic \<Rightarrow> interrupts \<Rightarrow> vmm \<Rightarrow> hw \<Rightarrow> (lapic \<times> interrupts \<times> vmm \<times> hw) option" where
  "lapic_init shl32 timer md offset l ints vm s =
     (let l0 = l\<lparr>lapic_hhdm_offset := offset\<rparr>;
          s1 = disable_pic s;
          (phys, s2) = cpu_get_apic_base shl32 s1;
          l1 = l0\<lparr>lapic_phys_base := phys, lapic_base := phys + lapic_hhdm_offset l0\<rparr>;
          vm1 = vmm_kmap (lapic_base l1) (lapic_phys_base l1) (VM_FLAG_WRITE OR VM_FLAG_NO_CACHE) vm;
          s3 = cpu_set_apic_base (lapic_phys_base l1) s2;
          ints1 = interrupts_set_handler LAPIC_SPURIOUS_VECTOR lapic_spurious_handler ints;
          s4 = lapic_timer_stop l1 s3;
          s5 = lapic_write_reg l1 REG_SPURIOUS (LAPIC_SOFTWARE_ENABLE OR ucast LAPIC_SPURIOUS_VECTOR) s4
      in case configure_nmis l1 md (madt_get_lapic_nmis md) s5 of
           None \<Rightarrow> None
         | Some s6 \<Rightarrow>
             (case calibrate_timer timer l1 s6 of
                None \<Rightarrow> None
              | Some (l2, s7) \<Rightarrow> Some (l2, ints1, vm1, s7)))"

section \<open>I/O APIC\<close>

definition ISA_IRQ_COUNT :: u8 where "ISA_IRQ_COUNT = 16"
definition IOREGSEL :: u64 where "IOREGSEL = 0"
definition IOWIN :: u64 where "IOWIN = 0x10"

datatype ioapic_regs = IOAPICID | IOAPICVER | IOAPICARB | IOREDTBL

fun ioapic_reg_val :: "ioapic_regs \<Rightarrow> u32" where
  "ioapic_reg_val IOAPICID = 0"
| "ioapic_reg_val IOAPICVER = 1"
| "ioapic_reg_val IOAPICARB = 2"
| "ioapic_reg_val IOREDTBL = 0x10"

datatype ioapic_redtbl_deliv_mode = IOAPIC_DELIV_MODE_FIXED | IOAPIC_DELIV_MODE_LOW_PRIOR | IOAPIC_DELIV_MODE_SMI | IOAPIC_DELIV_MODE_NMI | IOAPIC_DELIV_MODE_INIT | IOAPIC_DELIV_MODE_EXTINT

fun redtbl_deliv_mode :: "ioapic_redtbl_deliv_mode \<Rightarrow> u64" where
  "redtbl_deliv_mode IOAPIC_DELIV_MODE_FIXED = 0"
| "redtbl_deliv_mode IOAPIC_DELIV_MODE_LOW_PRIOR = 0x100"
| "redtbl_deliv_mode IOAPIC_DELIV_MODE_SMI = 0x200"
| "redtbl_deliv_mode IOAPIC_DELIV_MODE_NMI = 0x400"
| "redtbl_deliv_mode IOAPIC_DELIV_MODE_INIT = 0x500"
| "redtbl_deliv_mode IOAPIC_DELIV_MODE_EXTINT = 0x700"

datatype ioapic_redtbl_dest_mode = IOAPIC_DEST_MODE_PHYSICAL | IOAPIC_DEST_MODE_LOGICAL

fun redtbl_dest_mode :: "ioapic_redtbl_dest_mode \<Rightarrow> u64" where
  "redtbl_dest_mode IOAPIC_DEST_MODE_PHYSICAL = 0"
| "redtbl_dest_mode IOAPIC_DEST_MODE_LOGICAL = 0x800"

datatype ioapic_redtbl_pin_polarity = IOAPIC_ACTIVE_HIGH | IOAPIC_ACTIVE_LOW

fun redtbl_pin_polarity :: "ioapic_redtbl_pin_polarity \<Rightarrow> u64" where
  "redtbl_pin_polarity IOAPIC_ACTIVE_HIGH = 0"
| "redtbl_pin_polarity IOAPIC_ACTIVE_LOW = 0x2000"

datatype ioapic_redtbl_trigger_mode = IOAPIC_TRIGGER_EDGE | IOAPIC_TRIGGER_LEVEL

fun redtbl_trigger_mode :: "ioapic_redtbl_trigger_mode \<Rightarrow> u64" where
  "redtbl_trigger_mode IOAPIC_TRIGGER_EDGE = 0"
| "redtbl_trigger_mode IOAPIC_TRIGGER_LEVEL = 0x8000"

definition ioapic_dest :: "u8 \<Rightarrow> u64" where
  "ioapic_dest lapic_id = push_bit 56 (ucast lapic_id)"

record ioapic =
  io_hhdm_offset :: u64
  io_ioapic_addr :: u64
  io_ioapic :: u64

definition ioapic_read_reg :: "ioapic \<Rightarrow> u8 \<Rightarrow> hw \<Rightarrow> u32 \<times> hw" where
  "ioapic_read_reg a reg s =
     (let s1 = hw_do (Mmio_W32 (io_ioapic_addr a + IOREGSEL + io_hhdm_offset a) (ucast reg)) s;
          (v, s2) = hw_ask (Mmio_R32 (io_ioapic_addr a + IOWIN + io_hhdm_offset a)) s1
      in (ucast v, s2))"

definition ioapic_write_reg :: "ioapic \<Rightarrow> u8 \<Rightarrow> u32 \<Rightarrow> hw \<Rightarrow> hw" where
  "ioapic_write_reg a reg val s =
     hw_do (Mmio_W32 (io_ioapic_addr a + IOWIN + io_hhdm_offset a) val)
       (hw_do (Mmio_W32 (io_ioapic_addr a + IOREGSEL + io_hhdm_offset a) (ucast reg)) s)"

definition ioapic_get_max_redir_entry :: "ioapic \<Rightarrow> hw \<Rightarrow> u32 \<times> hw" where
  "ioapic_get_max_redir_entry a s = (let (v, s1) = ioapic_read_reg a (ucast (ioapic_reg_val IOAPICVER)) s in (drop_bit 16 v AND 0xff, s1))"

definition write_redtbl :: "ioapic \<Rightarrow> madt \<Rightarrow> u32 \<Rightarrow> u64 \<Rightarrow> hw \<Rightarrow> hw" where
  "write_redtbl a md gsi val s =
     (let relative_gsi = gsi - ia_gsi_base (ioapic_st md (io_ioapic a));
          redir_entry_reg_lo = ioapic_reg_val IOREDTBL + 2 * relative_gsi;
          redir_entry_reg_hi = ioapic_reg_val IOREDTBL + 2 * relative_gsi + 1;
          s1 = ioapic_write_reg a (ucast redir_entry_reg_lo) (ucast (val AND 0xffffffff)) s
      in ioapic_write_reg a (ucast redir_entry_reg_hi) (ucast (drop_bit 32 val)) s1)"

partial_function (option) find_iso_loop :: "madt \<Rightarrow> u8 \<Rightarrow> u64 \<Rightarrow> u64 option" where
  "find_iso_loop md isa_irq iso_entries =
     (if iso_entries \<noteq> 0 then
        if is_source (iso_st md iso_entries) = isa_irq then Some iso_entries
        else find_iso_loop md isa_irq (is_next (iso_st md iso_entries))
      else Some 0)"

definition find_iso_by_isa_irq :: "madt \<Rightarrow> u8 \<Rightarrow> u64 option" where
  "find_iso_by_isa_irq md isa_irq = find_iso_loop md isa_irq (madt_get_ioapic_isos md)"

definition iso_redtbl_entry :: "u8 \<Rightarrow> u16 \<Rightarrow> u8 \<Rightarrow> u64" where
  "iso_redtbl_entry isa_irq_vec flags lapic_id =
     (let e1 = ucast isa_irq_vec;
          e2 = (if flags AND pin_polarity MADT_ACTIVE_HIGH = pin_polarity MADT_ACTIVE_HIGH then e1 OR redtbl_pin_polarity IOAPIC_ACTIVE_HIGH
                else if flags AND pin_polarity MADT_ACTIVE_LOW = pin_polarity MADT_ACTIVE_LOW then e1 OR redtbl_pin_polarity IOAPIC_ACTIVE_LOW else e1);
          e3 = (if flags AND trigger_mode MADT_TRIGGER_EDGE = trigger_mode MADT_TRIGGER_EDGE then e2 OR redtbl_trigger_mode IOAPIC_TRIGGER_EDGE
                else if flags AND trigger_mode MADT_TRIGGER_LEVEL = trigger_mode MADT_TRIGGER_LEVEL then e2 OR redtbl_trigger_mode IOAPIC_TRIGGER_LEVEL else e2)
      in e3 OR ioapic_dest lapic_id)"

definition ioapic_unmask_isa_irq :: "ioapic \<Rightarrow> madt \<Rightarrow> u8 \<Rightarrow> hw \<Rightarrow> hw run" where
  "ioapic_unmask_isa_irq a md isa_irq s =
     (case kassert (isa_irq < ISA_IRQ_COUNT) (''idk, isa_irq < '' @ [CHR 0x27] @ ''ISA_IRQ_COUNT'' @ [CHR 0x27]) of
        Inl e \<Rightarrow> Some (Inl e)
      | Inr _ \<Rightarrow>
          let lapic_id = la_lapic_id (lapic_st md (madt_get_lapics md));
              isa_irq_vec = interrupts_get_isa_irq_vec isa_irq
          in case find_iso_by_isa_irq md isa_irq of
               None \<Rightarrow> None
             | Some isop \<Rightarrow>
                 if isop \<noteq> 0 then
                   Some (Inr (write_redtbl a md (is_gsi (iso_st md isop)) (iso_redtbl_entry isa_irq_vec (is_flags (iso_st md isop)) lapic_id) s))
                 else
                   let e = ucast isa_irq_vec OR redtbl_deliv_mode IOAPIC_DELIV_MODE_FIXED OR redtbl_dest_mode IOAPIC_DEST_MODE_PHYSICAL OR redtbl_pin_polarity IOAPIC_ACTIVE_HIGH
                         OR redtbl_trigger_mode IOAPIC_TRIGGER_EDGE OR ioapic_dest lapic_id
                   in Some (Inr (write_redtbl a md (ucast isa_irq) e s)))"

definition ioapic_init :: "madt \<Rightarrow> u64 \<Rightarrow> vmm \<Rightarrow> ioapic \<times> vmm" where
  "ioapic_init md offset vm =
     (let io = madt_get_ioapics md;
          addr = ucast (ia_ioapic_addr (ioapic_st md io))
      in (\<lparr>io_hhdm_offset = offset, io_ioapic_addr = addr, io_ioapic = io\<rparr>,
          vmm_kmap (addr + offset) addr (VM_FLAG_WRITE OR VM_FLAG_NX) vm))"


section \<open>Properties\<close>

lemma hw_do_fields [simp]: "io (hw_do e s) = io s @ [e]" "dev (hw_do e s) = dev s"
  by (simp_all add: hw_do_def)

lemma and_eq_self: "m AND n = n \<Longrightarrow> w AND m = m \<Longrightarrow> w AND n = n" for w :: u16
  by (metis and.assoc)

lemma iso_redtbl_entry_flags: "iso_redtbl_entry vec flags lapic_id = ucast vec OR ioapic_dest lapic_id"
proof -
  have "flags AND 1 = 1" if "flags AND 3 = 3" by (rule and_eq_self [OF _ that]) simp
  moreover have "flags AND 4 = 4" if "flags AND 12 = 12" by (rule and_eq_self [OF _ that]) simp
  ultimately show ?thesis by (simp add: iso_redtbl_entry_def Let_def)
qed

lemma find_iso_loop_mlist:
  "mlist is_next (iso_st md) p as \<Longrightarrow>
   find_iso_loop md irq p = Some (case find (\<lambda>a. is_source (iso_st md a) = irq) as of None \<Rightarrow> 0 | Some a \<Rightarrow> a)"
  by (induction as arbitrary: p) (simp_all add: find_iso_loop.simps)

lemma write_redtbl_eq:
  "write_redtbl a md gsi val s = s\<lparr>io := io s @
     (let r = 0x10 + 2 * (gsi - ia_gsi_base (ioapic_st md (io_ioapic a))); base = io_ioapic_addr a + io_hhdm_offset a
      in [Mmio_W32 base (ucast (ucast r :: u8)), Mmio_W32 (base + 0x10) (ucast val),
          Mmio_W32 base (ucast (ucast (r + 1) :: u8)), Mmio_W32 (base + 0x10) (ucast (drop_bit 32 val))])\<rparr>"
proof -
  have "val AND 0xffffffff = take_bit 32 val" by (simp add: take_bit_eq_mask mask_eq_exp_minus_1)
  then have "ucast (val AND 0xffffffff) = (ucast val :: u32)"
    by (simp only:) (rule bit_eqI, auto simp: bit_simps)
  then show ?thesis by (simp add: write_redtbl_def ioapic_write_reg_def IOREGSEL_def IOWIN_def hw_do_def Let_def algebra_simps)
qed


lemma mrep_find:
  assumes "mrep nx dec h f p es" "\<And>e n. Q (dec e n) = R e"
  shows "\<exists>as. mlist nx f p as \<and>
    (case find R es of None \<Rightarrow> find (\<lambda>a. Q (f a)) as = None | Some e \<Rightarrow> (\<exists>a n. find (\<lambda>a. Q (f a)) as = Some a \<and> a \<noteq> 0 \<and> f a = dec e n))"
proof -
  obtain as where a: "mlist nx f p as" "list_all2 (\<lambda>a e. \<exists>n. f a = dec e n) as es"
    using assms(1) by (auto simp: mrep_def)
  have "mlist nx f q as \<Longrightarrow> case find R es of None \<Rightarrow> find (\<lambda>a. Q (f a)) as = None
      | Some e \<Rightarrow> (\<exists>a n. find (\<lambda>a. Q (f a)) as = Some a \<and> a \<noteq> 0 \<and> f a = dec e n)" for q
    using a(2) by (induction as es arbitrary: q rule: list_all2_induct) (fastforce simp: assms(2) split: option.splits)+
  then show ?thesis using a(1) by blast
qed

lemma mrep_head: "mrep nx dec h f p es \<Longrightarrow> es \<noteq> [] \<Longrightarrow> \<exists>n. f p = dec (hd es) n"
  by (clarsimp simp: mrep_def neq_Nil_conv list_all2_Cons2) blast

text \<open>The table entry that overrides an ISA interrupt: the last one for it in the table, which is first in the list.\<close>

definition override_entry :: "mem \<Rightarrow> u64 list \<Rightarrow> u8 \<Rightarrow> u64 option" where
  "override_entry m es isa_irq = find (\<lambda>e. rd8 m (e + 3) = isa_irq) (rev (of_type m 2 es))"

lemma find_iso_rep:
  assumes "madt_rep m md es"
  shows "case override_entry m es irq of
      None \<Rightarrow> find_iso_by_isa_irq md irq = Some 0
    | Some e \<Rightarrow> (\<exists>a n. find_iso_by_isa_irq md irq = Some a \<and> a \<noteq> 0 \<and> iso_st md a = acpi_madt_iso_at m e n)"
proof -
  have "mrep is_next (acpi_madt_iso_at m) (md_heap md) (iso_st md) (ioapic_isos md) (rev (of_type m 2 es))"
    using assms by (simp add: madt_rep_def)
  from mrep_find [OF this, of "\<lambda>i. is_source i = irq" "\<lambda>e. rd8 m (e + 3) = irq"]
  show ?thesis
    by (auto simp: acpi_madt_iso_at_def override_entry_def find_iso_by_isa_irq_def madt_get_ioapic_isos_def find_iso_loop_mlist split: option.splits)
qed

lemma redtbl_words:
  "ucast (ucast (vec :: u8) OR ioapic_dest i) = (ucast vec :: u32)"
  "ucast (drop_bit 32 (ucast (vec :: u8) OR ioapic_dest i)) = push_bit 24 (ucast i :: u32)"
  by (rule bit_eqI, auto simp: ioapic_dest_def bit_simps dest: bit_imp_le_length)+

text \<open>C18. Unmasking an ISA interrupt programs one redirection entry of the I/O APIC: the entry of the interrupt the MADT
  overrides it with, or of its own number, gets the interrupt's vector and the boot processor's APIC id, in two
  indexed register writes, low half first. Numbers above 15 fail the assertion and touch nothing.\<close>

theorem ioapic_unmask_routes:
  assumes "madt_rep m md es" "of_type m 0 es \<noteq> []" "of_type m 1 es \<noteq> []"
  shows "ioapic_unmask_isa_irq (fst (ioapic_init md offset vm)) md irq s =
    (if irq < 16 then
       let gsi = (case override_entry m es irq of None \<Rightarrow> ucast irq | Some e \<Rightarrow> rd32 m (e + 4));
           r = 0x10 + 2 * (gsi - rd32 m (last (of_type m 1 es) + 8));
           base = ucast (rd32 m (last (of_type m 1 es) + 4)) + offset
       in Some (Inr (s\<lparr>io := io s @
            [Mmio_W32 base (ucast (ucast r :: u8)), Mmio_W32 (base + 0x10) (ucast (0x30 + irq)),
             Mmio_W32 base (ucast (ucast (r + 1) :: u8)), Mmio_W32 (base + 0x10) (push_bit 24 (ucast (rd8 m (last (of_type m 0 es) + 3))))]\<rparr>))
     else Some (Inl (KAssert (''idk, isa_irq < '' @ [CHR 0x27] @ ''ISA_IRQ_COUNT'' @ [CHR 0x27]))))"
proof -
  obtain n0 where l: "lapic_st md (lapics md) = acpi_madt_lapic_at m (last (of_type m 0 es)) n0"
    using mrep_head [of la_next "acpi_madt_lapic_at m" "md_heap md" "lapic_st md" "lapics md" "rev (of_type m 0 es)"] assms
    by (auto simp: madt_rep_def hd_rev)
  obtain n1 where i: "ioapic_st md (ioapics md) = acpi_madt_ioapic_at m (last (of_type m 1 es)) n1"
    using mrep_head [of ia_next "acpi_madt_ioapic_at m" "md_heap md" "ioapic_st md" "ioapics md" "rev (of_type m 1 es)"] assms
    by (auto simp: madt_rep_def hd_rev)
  show ?thesis
    using find_iso_rep [OF assms(1), of irq]
    by (auto simp: ioapic_unmask_isa_irq_def kassert_def ISA_IRQ_COUNT_def ioapic_init_def madt_get_ioapics_def madt_get_lapics_def l i
        write_redtbl_eq redtbl_words iso_redtbl_entry_flags acpi_madt_lapic_at_def acpi_madt_ioapic_at_def acpi_madt_iso_at_def
        interrupts_get_isa_irq_vec_def ISA_IRQ_BASE_def Let_def simp del: drop_bit_or split: option.splits)
qed

definition routing_table :: mem where
  "routing_table = (\<lambda>_. 0)(0x1003 := 7, 0x1010 := 1, 0x1016 := 0xc0, 0x1017 := 0xfe)"

lemma routing_table_rep: "\<exists>md. madt_rep routing_table md [0x1000, 0x1010]"
proof -
  obtain h1 where h1: "heap_rep h1 [(4, False), (NCELLS - 4, True)] [4]" using boot_alloc [of 16] by auto
  have u: "units 18 = 4" by (simp add: units_def)
  have "spec_kmalloc 4 [(4, False), (NCELLS - 4, True)] [4] = Some (4, [(4, False), (4, False), (NCELLS - 8, True)], [8])"
    by (simp add: spec_kmalloc_def fits_def NCELLS_def)
  then obtain h2 where h2: "heap_rep h2 [(4, False), (4, False), (NCELLS - 8, True)] [8]"
    using kmalloc_refines_alloc [OF h1, of 18] u by auto
  have l: "fst ` live h2 = {A 0 + 8, A 4 + 8}" using live_rep [OF h2] by (auto simp: image_iff)
  let ?md = "empty_madt\<lparr>md_heap := h2, lapics := A 0 + 8, ioapics := A 4 + 8,
    lapic_st := \<lambda>_. acpi_madt_lapic_at routing_table 0x1000 0, ioapic_st := \<lambda>_. acpi_madt_ioapic_at routing_table 0x1010 0\<rparr>"
  have t: "rd8 routing_table 0x1000 = 0" "rd8 routing_table 0x1010 = 1" by (simp_all add: rd8_def routing_table_def)
  have ok: "heap_ok h2" using h2 by (auto simp: heap_ok_def)
  have nz: "A 0 + 8 \<noteq> 0" "A 4 + 8 \<noteq> 0" by (simp_all add: A_def HEAP_START_def)
  have e: "mrep nx dec h2 f 0 []" for nx :: "'a \<Rightarrow> u64" and dec f by (simp add: mrep_def)
  have "mrep la_next (acpi_madt_lapic_at routing_table) h2 (\<lambda>_. acpi_madt_lapic_at routing_table 0x1000 0) (A 0 + 8) [0x1000]"
    unfolding mrep_def by (rule exI [of _ "[A 0 + 8]"]) (use l nz in auto)
  moreover have "mrep ia_next (acpi_madt_ioapic_at routing_table) h2 (\<lambda>_. acpi_madt_ioapic_at routing_table 0x1010 0) (A 4 + 8) [0x1010]"
    unfolding mrep_def by (rule exI [of _ "[A 4 + 8]"]) (use l nz in auto)
  ultimately have "madt_rep routing_table ?md [0x1000, 0x1010]"
    using ok by (simp add: madt_rep_def of_type_def t empty_madt_def mrep_def [of is_next] mrep_def [of in_next] mrep_def [of ln_next])
  then show ?thesis by blast
qed

theorem ioapic_unmask_routes_witness:
  "\<exists>md. madt_rep routing_table md [0x1000, 0x1010] \<and>
    ioapic_unmask_isa_irq (fst (ioapic_init md 0 (pool_vmm sample_pmm))) md 4 silent_hw = Some (Inr (silent_hw\<lparr>io :=
      [Mmio_W32 0xfec00000 0x18, Mmio_W32 0xfec00010 0x34, Mmio_W32 0xfec00000 0x19, Mmio_W32 0xfec00010 0x07000000]\<rparr>))"
proof -
  obtain md where md: "madt_rep routing_table md [0x1000, 0x1010]" using routing_table_rep by blast
  have "of_type routing_table 0 [0x1000, 0x1010] = [0x1000]" "of_type routing_table 1 [0x1000, 0x1010] = [0x1010]"
    "of_type routing_table 2 [0x1000, 0x1010] = []"
    by (simp_all add: of_type_def rd8_def routing_table_def)
  then show ?thesis using md ioapic_unmask_routes [OF md, of 0 "pool_vmm sample_pmm" 4 silent_hw]
    by (intro exI [of _ md]) (simp add: override_entry_def Let_def rd32_def rd8_def ld_4 routing_table_def silent_hw_def)
qed

lemma calibrate_rounds_bound:
  "calibrate_rounds n timer l t s = Some (t', s') \<Longrightarrow> n \<le> 5 \<Longrightarrow> unat t + n * 0xffffffff < 0x8000000000000000 \<Longrightarrow> unat t' \<le> unat t + n * 0xffffffff"
proof (induction n arbitrary: t s)
  case (Suc n)
  let ?s1 = "lapic_write_reg l REG_TIMER_INIT_COUNT UINT32_MAX s"
  obtain s2 where s2: "timer_wait_ns timer 100000000 ?s1 = Some s2" using Suc.prems(1) by (auto simp: Let_def split: option.splits)
  obtain c s3 where c: "lapic_read_reg l REG_TIMER_CURR_COUNT s2 = (c, s3)" by fastforce
  let ?d = "ucast (UINT32_MAX - c) :: u64"
  have d: "unat ?d \<le> 0xffffffff" by (simp only: unat_widen)
  then have "unat (t + ?d) = unat t + unat ?d" using Suc.prems(3) by (intro unat_add64) (simp add: algebra_simps)
  then show ?case using Suc.IH [of "t + ?d" s3] Suc.prems d by (simp add: s2 c Let_def)
qed simp

lemma calibrate_timer_bound:
  assumes "calibrate_timer timer l s = Some (l', s')"
  shows "unat (lapic_calibration_ticks l') \<le> 0xffffffff"
proof -
  obtain t where t: "calibrate_rounds 5 timer l 0 (lapic_write_reg l REG_TIMER_DIV 3 s) = Some (t, s')" "lapic_calibration_ticks l' = t div 5"
    using assms by (auto simp: calibrate_timer_def Let_def split: option.splits)
  from calibrate_rounds_bound [OF t(1)] have "unat t \<le> 5 * 0xffffffff" by simp
  then show ?thesis by (simp add: t(2) unat_div_distrib)
qed

lemma unat_clamp: "unat mn \<le> unat mx \<Longrightarrow> unat (clamp v mn mx) = max (unat mn) (min (unat v) (unat mx))"
  by (auto simp: clamp_def word_less_nat_alt)


text \<open>A machine whose counter advances 100 ms between two readings and whose APIC timer counts a thousand ticks in that time.\<close>

definition ready_dev :: "hw_event list \<Rightarrow> hw_event \<Rightarrow> u64" where
  "ready_dev h e = (case e of Mmio_R64 _ \<Rightarrow> of_nat (length h) * 100000000 | _ \<Rightarrow> 0xfffffc17)"

definition bare_lapic :: lapic where
  "bare_lapic = \<lparr>lapic_hhdm_offset = 0, lapic_phys_base = 0, lapic_base = 0, lapic_calibration_ticks = 0\<rparr>"

lemma ready_elapsed:
  assumes "dev s = ready_dev"
  shows "timer_get_elapsed_ns \<lparr>hpet_regs = 0, hpet_period = 1000000\<rparr> s = (of_nat (length (io s)) * 100000000, s\<lparr>io := io s @ [Mmio_R64 0xf0]\<rparr>)"
proof -
  have "(1000000 :: u64) div 1000000 = 1" by simp
  then show ?thesis using assms
    by (simp add: timer_get_elapsed_ns_def hpet_get_elapsed_ns_def hw_ask_def ready_dev_def HPET_main_counter_def)
qed

lemma ready_wait:
  "dev s = ready_dev \<Longrightarrow> \<exists>s'. timer_wait_ns \<lparr>hpet_regs = 0, hpet_period = 1000000\<rparr> 100000000 s = Some s' \<and> dev s' = ready_dev"
  by (simp add: timer_wait_ns_def ready_elapsed timer_wait_loop.simps Let_def distrib_right add.commute)

lemma ready_rounds:
  "dev s = ready_dev \<Longrightarrow> \<exists>s'. calibrate_rounds n \<lparr>hpet_regs = 0, hpet_period = 1000000\<rparr> l t s = Some (t + of_nat n * 1000, s')"
proof (induction n arbitrary: t s)
  case (Suc n)
  obtain s2 where s2: "timer_wait_ns \<lparr>hpet_regs = 0, hpet_period = 1000000\<rparr> 100000000 (lapic_write_reg l REG_TIMER_INIT_COUNT UINT32_MAX s) = Some s2"
      "dev s2 = ready_dev"
    using ready_wait [of "lapic_write_reg l REG_TIMER_INIT_COUNT UINT32_MAX s"] Suc.prems by (auto simp: lapic_write_reg_def)
  obtain s3 where s3: "lapic_read_reg l REG_TIMER_CURR_COUNT s2 = (0xfffffc17, s3)" "dev s3 = ready_dev"
    using s2(2) by (simp add: lapic_read_reg_def hw_ask_def ready_dev_def)
  have d: "ucast (UINT32_MAX - 0xfffffc17) = (1000 :: u64)" by (simp add: UINT32_MAX_def)
  have "calibrate_rounds (Suc n) \<lparr>hpet_regs = 0, hpet_period = 1000000\<rparr> l t s = calibrate_rounds n \<lparr>hpet_regs = 0, hpet_period = 1000000\<rparr> l (t + 1000) s3"
    by (simp only: calibrate_rounds.simps Let_def s2(1) s3(1) option.case prod.case d)
  moreover have "t + 1000 + of_nat n * 1000 = t + of_nat (Suc n) * 1000" by (simp add: algebra_simps)
  ultimately show ?case using Suc.IH [OF s3(2), of "t + 1000"] by (simp only:)
qed simp


end
