(* ===== verification/Events.thy ===== *)
theory Events
  imports Kmalloc_Heap "HOL-Library.Tree"
begin

text \<open>
  \<open>kernel/multitasking/events.c\<close>: the timer event queue, a binary search tree of intrusive
  \<open>Event\<close> nodes ordered by time, with left, right and parent pointers. The events are a store
  from addresses to records with address 0 as the null pointer; \<open>event_create\<close> takes the
  address from \<open>kmalloc\<close>. A callback is one of the two functions the kernel installs. The
  second half relates the pointers to a functional tree and shows what insertion and deletion
  do to it.
\<close>

datatype event_callback = Callback_NULL | Callback_switch_thread | Callback_thread_wake

record event =
  ev_owner :: u64
  ev_time :: u64
  ev_enqueued :: bool
  ev_callback :: event_callback
  ev_kind :: string
  ev_callback_arg :: u64
  ev_left :: u64
  ev_right :: u64
  ev_parent :: u64

record evq =
  ev :: "u64 \<Rightarrow> event"
  event_root :: u64

definition set_left :: "u64 \<Rightarrow> u64 \<Rightarrow> evq \<Rightarrow> evq" where
  "set_left a v s = s\<lparr>ev := (ev s)(a := (ev s a)\<lparr>ev_left := v\<rparr>)\<rparr>"
definition set_right :: "u64 \<Rightarrow> u64 \<Rightarrow> evq \<Rightarrow> evq" where
  "set_right a v s = s\<lparr>ev := (ev s)(a := (ev s a)\<lparr>ev_right := v\<rparr>)\<rparr>"
definition set_parent :: "u64 \<Rightarrow> u64 \<Rightarrow> evq \<Rightarrow> evq" where
  "set_parent a v s = s\<lparr>ev := (ev s)(a := (ev s a)\<lparr>ev_parent := v\<rparr>)\<rparr>"
definition set_enqueued :: "u64 \<Rightarrow> bool \<Rightarrow> evq \<Rightarrow> evq" where
  "set_enqueued a b s = s\<lparr>ev := (ev s)(a := (ev s a)\<lparr>ev_enqueued := b\<rparr>)\<rparr>"

definition empty_event :: event where
  "empty_event = \<lparr>ev_owner = 0, ev_time = 0, ev_enqueued = False, ev_callback = Callback_NULL, ev_kind = ''NONE'',
     ev_callback_arg = 0, ev_left = 0, ev_right = 0, ev_parent = 0\<rparr>"

definition sizeof_Event :: u64 where "sizeof_Event = 72"

definition event_create :: "kheap \<Rightarrow> evq \<Rightarrow> (halt + u64 \<times> kheap \<times> evq) option" where
  "event_create h s =
     (case kmalloc h sizeof_Event of
        None \<Rightarrow> None
      | Some (Inl e) \<Rightarrow> Some (Inl e)
      | Some (Inr (new_event, h')) \<Rightarrow> Some (Inr (new_event, h', s\<lparr>ev := (ev s)(new_event := empty_event)\<rparr>)))"

definition event_destroy :: "kheap \<Rightarrow> u64 \<Rightarrow> halt + kheap" where
  "event_destroy h to_destroy = kfree h to_destroy"

partial_function (option) bst_insert_loop :: "(u64 \<Rightarrow> event) \<Rightarrow> u64 \<Rightarrow> u64 \<Rightarrow> u64 \<Rightarrow> u64 option" where
  "bst_insert_loop e node current parent =
     (if current \<noteq> 0 then
        if ev_time (e node) < ev_time (e current)
        then bst_insert_loop e node (ev_left (e current)) current
        else bst_insert_loop e node (ev_right (e current)) current
      else Some parent)"

definition event_bst_insert :: "u64 \<Rightarrow> evq \<Rightarrow> evq option" where
  "event_bst_insert node s =
     (if event_root s = 0 then Some (s\<lparr>event_root := node\<rparr>)
      else case bst_insert_loop (ev s) node (event_root s) 0 of
        None \<Rightarrow> None
      | Some parent \<Rightarrow>
          let s1 = set_parent node parent s
          in Some (if ev_time (ev s1 node) < ev_time (ev s1 parent)
                   then set_left parent node s1 else set_right parent node s1))"

definition bst_transplant :: "u64 \<Rightarrow> u64 \<Rightarrow> evq \<Rightarrow> evq" where
  "bst_transplant u v s =
     (let s1 = (if ev_parent (ev s u) = 0 then s\<lparr>event_root := v\<rparr>
                else if u = ev_left (ev s (ev_parent (ev s u)))
                then set_left (ev_parent (ev s u)) v s
                else set_right (ev_parent (ev s u)) v s)
      in if v \<noteq> 0 then set_parent v (ev_parent (ev s1 u)) s1 else s1)"

partial_function (option) bst_min_loop :: "(u64 \<Rightarrow> event) \<Rightarrow> u64 \<Rightarrow> u64 option" where
  "bst_min_loop e node = (if ev_left (e node) \<noteq> 0 then bst_min_loop e (ev_left (e node)) else Some node)"

definition bst_minimum :: "(u64 \<Rightarrow> event) \<Rightarrow> u64 \<Rightarrow> u64 option" where
  "bst_minimum e node = (if node = 0 then Some 0 else bst_min_loop e node)"

definition bst_delete :: "u64 \<Rightarrow> evq \<Rightarrow> evq option" where
  "bst_delete node s =
     (if ev_left (ev s node) = 0 then Some (bst_transplant node (ev_right (ev s node)) s)
      else if ev_right (ev s node) = 0 then Some (bst_transplant node (ev_left (ev s node)) s)
      else case bst_minimum (ev s) (ev_right (ev s node)) of
        None \<Rightarrow> None
      | Some y \<Rightarrow>
          let s1 = (if ev_parent (ev s y) \<noteq> node then
                      let sa = bst_transplant y (ev_right (ev s y)) s;
                          sb = set_right y (ev_right (ev sa node)) sa
                      in if ev_right (ev sb y) \<noteq> 0 then set_parent (ev_right (ev sb y)) y sb else sb
                    else s);
              s2 = bst_transplant node y s1;
              s3 = set_left y (ev_left (ev s2 node)) s2
          in Some (if ev_left (ev s3 y) \<noteq> 0 then set_parent (ev_left (ev s3 y)) y s3 else s3))"

definition clear_links :: "u64 \<Rightarrow> evq \<Rightarrow> evq" where
  "clear_links a s = set_left a 0 (set_right a 0 (set_parent a 0 s))"

definition event_remove :: "u64 \<Rightarrow> evq \<Rightarrow> evq option" where
  "event_remove to_remove s =
     (if event_root s = 0 \<or> to_remove = 0 then Some s
      else case bst_delete to_remove s of
        None \<Rightarrow> None
      | Some s1 \<Rightarrow> Some (set_enqueued to_remove False (clear_links to_remove s1)))"

definition event_enqueue :: "u64 \<Rightarrow> evq \<Rightarrow> (halt + evq) option" where
  "event_enqueue to_insert s =
     (if to_insert = 0 then Some (Inl (KAssert ''Event to be inserted is null''))
      else case (if ev_enqueued (ev s to_insert) then event_remove to_insert s else Some s) of
        None \<Rightarrow> None
      | Some s1 \<Rightarrow>
          (case event_bst_insert to_insert (clear_links to_insert s1) of
             None \<Rightarrow> None
           | Some s2 \<Rightarrow> Some (Inr (set_enqueued to_insert True s2))))"

definition event_peek_next :: "evq \<Rightarrow> u64 option" where
  "event_peek_next s = bst_minimum (ev s) (event_root s)"

definition event_dequeue :: "evq \<Rightarrow> (halt + u64 \<times> evq) option" where
  "event_dequeue s =
     (if event_root s = 0 then Some (Inl (KAssert ''event_dequeue(): event_queue is empty''))
      else case bst_minimum (ev s) (event_root s) of
        None \<Rightarrow> None
      | Some min_event \<Rightarrow>
          (case bst_delete min_event s of
             None \<Rightarrow> None
           | Some s1 \<Rightarrow> Some (Inr (min_event, s1))))"

text \<open>The lines logged by \<open>print_event_queue\<close> are the events it passes to \<open>logln\<close>, in order, with the
  owner, kind and time of each; the two lines without arguments are left out.\<close>

partial_function (option) print_event_bst_inorder :: "(u64 \<Rightarrow> event) \<Rightarrow> u64 \<Rightarrow> (u64 \<times> string \<times> u64) list option" where
  "print_event_bst_inorder e node =
     (if node = 0 then Some []
      else Option.bind (print_event_bst_inorder e (ev_left (e node))) (\<lambda>before.
           Option.bind (print_event_bst_inorder e (ev_right (e node))) (\<lambda>after.
             Some (before @ [(ev_owner (e node), ev_kind (e node), ev_time (e node))] @ after))))"

definition print_event_queue :: "evq \<Rightarrow> (u64 \<times> string \<times> u64) list option" where
  "print_event_queue s = (if event_root s = 0 then Some [] else print_event_bst_inorder (ev s) (event_root s))"

section \<open>The tree behind the pointers\<close>

fun et :: "(u64 \<Rightarrow> event) \<Rightarrow> u64 \<Rightarrow> u64 \<Rightarrow> u64 tree \<Rightarrow> bool" where
  "et e p x \<langle>\<rangle> = (x = 0)"
| "et e p x \<langle>l, a, r\<rangle> = (x = a \<and> a \<noteq> 0 \<and> ev_parent (e a) = p \<and> et e a (ev_left (e a)) l \<and> et e a (ev_right (e a)) r)"

fun repl :: "u64 \<Rightarrow> u64 tree \<Rightarrow> u64 tree \<Rightarrow> u64 tree" where
  "repl u tv \<langle>\<rangle> = \<langle>\<rangle>"
| "repl u tv \<langle>l, a, r\<rangle> = (if a = u then tv else \<langle>repl u tv l, a, repl u tv r\<rangle>)"

fun subt :: "u64 \<Rightarrow> u64 tree \<Rightarrow> u64 tree" where
  "subt u \<langle>\<rangle> = \<langle>\<rangle>"
| "subt u \<langle>l, a, r\<rangle> = (if a = u then \<langle>l, a, r\<rangle> else if u \<in> set_tree l then subt u l else subt u r)"

abbreviation dist :: "u64 tree \<Rightarrow> bool" where "dist t \<equiv> distinct (inorder t)"

lemma et_zero: "et e p x t \<Longrightarrow> 0 \<notin> set_tree t"
  by (induction e p x t rule: et.induct) auto

lemma et_root: "et e p x t \<Longrightarrow> x \<noteq> 0 \<Longrightarrow> x \<in> set_tree t"
  by (cases t) auto

lemma et_nil: "et e p x t \<Longrightarrow> t = \<langle>\<rangle> \<longleftrightarrow> x = 0"
  by (cases t) auto

lemma et_frame:
  "(\<And>a. a \<in> set_tree t \<Longrightarrow> ev_left (e' a) = ev_left (e a) \<and> ev_right (e' a) = ev_right (e a) \<and> ev_parent (e' a) = ev_parent (e a)) \<Longrightarrow>
   et e' p x t = et e p x t"
  by (induction e p x t rule: et.induct) auto

lemma et_child:
  "et e p x t \<Longrightarrow> a \<in> set_tree t \<Longrightarrow>
     (ev_left (e a) = 0 \<or> ev_left (e a) \<in> set_tree t) \<and> (ev_right (e a) = 0 \<or> ev_right (e a) \<in> set_tree t)"
proof (induction e p x t rule: et.induct)
  case (2 e p x l b r)
  then show ?case using et_root [of e b "ev_left (e b)" l] et_root [of e b "ev_right (e b)" r] by auto
qed simp

lemma subt_notin: "u \<notin> set_tree t \<Longrightarrow> subt u t = \<langle>\<rangle>"
  by (induction u t rule: subt.induct) auto

lemma repl_notin: "u \<notin> set_tree t \<Longrightarrow> repl u tv t = t"
  by (induction u tv t rule: repl.induct) auto

lemma subt_subset: "set_tree (subt u t) \<subseteq> set_tree t"
  by (induction u t rule: subt.induct) auto

definition relink :: "u64 \<Rightarrow> u64 \<Rightarrow> (u64 \<Rightarrow> event) \<Rightarrow> (u64 \<Rightarrow> event) \<Rightarrow> u64 set \<Rightarrow> bool" where
  "relink u v e e' S \<longleftrightarrow> (\<forall>a\<in>S. ev_left (e' a) = (if ev_left (e a) = u then v else ev_left (e a)) \<and>
     ev_right (e' a) = (if ev_right (e a) = u then v else ev_right (e a)) \<and> ev_parent (e' a) = ev_parent (e a))"

lemma relink_mono: "relink u v e e' S \<Longrightarrow> S' \<subseteq> S \<Longrightarrow> relink u v e e' S'"
  by (auto simp: relink_def)

lemma et_relink: "et e p x t \<Longrightarrow> relink u v e e' (set_tree t) \<Longrightarrow> u \<noteq> 0 \<Longrightarrow> u \<notin> set_tree t \<Longrightarrow> et e' p x t"
proof -
  assume et: "et e p x t" and re: "relink u v e e' (set_tree t)" and u: "u \<noteq> 0" "u \<notin> set_tree t"
  have "et e' p x t = et e p x t"
  proof (rule et_frame)
    fix a assume a: "a \<in> set_tree t"
    then have "ev_left (e a) \<noteq> u" "ev_right (e a) \<noteq> u" using et_child [OF et a] u by auto
    then show "ev_left (e' a) = ev_left (e a) \<and> ev_right (e' a) = ev_right (e a) \<and> ev_parent (e' a) = ev_parent (e a)"
      using re a by (simp add: relink_def)
  qed
  then show ?thesis using et by simp
qed

lemma et_replace:
  assumes "et e p x t" "dist t" "u \<in> set_tree t" "et e' (ev_parent (e u)) v tv"
    "relink u v e e' (set_tree t - set_tree (subt u t))"
  shows "et e' p (if x = u then v else x) (repl u tv t)"
  using assms
proof (induction e p x t rule: et.induct)
  case (2 e p x l b r)
  show ?case
  proof (cases "b = u")
    case False
    have d: "dist l" "dist r" "set_tree l \<inter> set_tree r = {}" "b \<notin> set_tree l" "b \<notin> set_tree r"
      using "2.prems"(2) by auto
    have et: "et e b (ev_left (e b)) l" "et e b (ev_right (e b)) r" "x = b" "b \<noteq> 0" "ev_parent (e b) = p"
      and u0: "u \<noteq> 0" using "2.prems"(1,3) et_zero [OF "2.prems"(1)] by auto
    have b: "b \<notin> set_tree (subt u \<langle>l, b, r\<rangle>)"
      using False d subt_subset [of u l] subt_subset [of u r] by auto
    have sub: "set_tree s - set_tree (subt u s) \<subseteq> set_tree \<langle>l, b, r\<rangle> - set_tree (subt u \<langle>l, b, r\<rangle>)" if "s \<in> {l, r}" for s
      using that d False subt_subset [of u l] subt_subset [of u r] by (auto simp: subt_notin)
    have side: "et e' b (if y = u then v else y) (repl u tv s)"
      if s: "s \<in> {l, r}" and es: "et e b y s" "dist s"
        and IH: "u \<in> set_tree s \<Longrightarrow> relink u v e e' (set_tree s - set_tree (subt u s)) \<Longrightarrow> et e' b (if y = u then v else y) (repl u tv s)"
      for s y
    proof (cases "u \<in> set_tree s")
      case True
      then show ?thesis using IH relink_mono [OF "2.prems"(5) sub [OF s]] by blast
    next
      case nin: False
      have "relink u v e e' (set_tree s)"
        using relink_mono [OF "2.prems"(5) sub [OF s]] subt_notin [OF nin] by simp
      then have "et e' b y s" by (rule et_relink [OF es(1) _ u0 nin])
      moreover have "y \<noteq> u" using es(1) nin u0 et_root by metis
      ultimately show ?thesis using nin by (simp add: repl_notin)
    qed
    have "et e' b (if ev_left (e b) = u then v else ev_left (e b)) (repl u tv l)"
      using side [OF _ et(1) d(1)] "2.IH"(1) [OF et(1) d(1) _ "2.prems"(4)] by blast
    moreover have "et e' b (if ev_right (e b) = u then v else ev_right (e b)) (repl u tv r)"
      using side [OF _ et(2) d(2)] "2.IH"(2) [OF et(2) d(2) _ "2.prems"(4)] by blast
    ultimately show ?thesis using "2.prems"(5) b et False by (simp add: relink_def)
  qed (use 2 in auto)
qed simp

lemma et_parent:
  "et e p x t \<Longrightarrow> dist t \<Longrightarrow> u \<in> set_tree t \<Longrightarrow> p \<notin> set_tree t \<Longrightarrow>
   (ev_parent (e u) = p \<longleftrightarrow> u = x) \<and> (u \<noteq> x \<longrightarrow> ev_parent (e u) \<in> set_tree t \<and>
      (ev_left (e (ev_parent (e u))) = u \<or> ev_right (e (ev_parent (e u))) = u))"
proof (induction e p x t rule: et.induct)
  case (2 e p x l b r)
  consider "u = b" | "u \<in> set_tree l" | "u \<in> set_tree r" using "2.prems"(3) by auto
  then show ?case
  proof cases
    case 2
    then show ?thesis using "2.prems" "2.IH"(1) by auto
  next
    case 3
    then show ?thesis using "2.prems" "2.IH"(2) by auto
  qed (use "2.prems" in auto)
qed simp

lemma et_child_parent:
  "et e p x t \<Longrightarrow> a \<in> set_tree t \<Longrightarrow> (ev_left (e a) \<noteq> 0 \<longrightarrow> ev_parent (e (ev_left (e a))) = a) \<and>
     (ev_right (e a) \<noteq> 0 \<longrightarrow> ev_parent (e (ev_right (e a))) = a)"
proof (induction e p x t rule: et.induct)
  case (2 e p x l b r)
  have "et e q y s \<Longrightarrow> y \<noteq> 0 \<Longrightarrow> ev_parent (e y) = q" for q y s by (cases s) auto
  then show ?case using 2 by (auto; metis)
qed simp

lemma et_children_differ: "et e p x t \<Longrightarrow> dist t \<Longrightarrow> a \<in> set_tree t \<Longrightarrow> ev_left (e a) = ev_right (e a) \<Longrightarrow> ev_left (e a) = 0"
proof (induction e p x t rule: et.induct)
  case (2 e p x l b r)
  have "ev_left (e b) = 0" if "ev_left (e b) = ev_right (e b)"
  proof (rule ccontr)
    assume "ev_left (e b) \<noteq> 0"
    then have "ev_left (e b) \<in> set_tree l" "ev_left (e b) \<in> set_tree r" using "2.prems"(1) that et_root by auto
    then show False using "2.prems"(2) by auto
  qed
  then show ?case using 2 by auto
qed simp

lemma subt_et: "et e p x t \<Longrightarrow> dist t \<Longrightarrow> u \<in> set_tree t \<Longrightarrow> et e (ev_parent (e u)) u (subt u t) \<and> dist (subt u t)"
proof (induction e p x t rule: et.induct)
  case (2 e p x l b r)
  then show ?case by (cases "b = u"; cases "u \<in> set_tree l") auto
qed simp


lemma set_fields [simp]:
  "ev_left (ev (set_left a v s) b) = (if b = a then v else ev_left (ev s b))"
  "ev_right (ev (set_left a v s) b) = ev_right (ev s b)"
  "ev_parent (ev (set_left a v s) b) = ev_parent (ev s b)"
  "ev_left (ev (set_right a v s) b) = ev_left (ev s b)"
  "ev_right (ev (set_right a v s) b) = (if b = a then v else ev_right (ev s b))"
  "ev_parent (ev (set_right a v s) b) = ev_parent (ev s b)"
  "ev_left (ev (set_parent a v s) b) = ev_left (ev s b)"
  "ev_right (ev (set_parent a v s) b) = ev_right (ev s b)"
  "ev_parent (ev (set_parent a v s) b) = (if b = a then v else ev_parent (ev s b))"
  "ev_left (ev (set_enqueued a w s) b) = ev_left (ev s b)"
  "ev_right (ev (set_enqueued a w s) b) = ev_right (ev s b)"
  "ev_parent (ev (set_enqueued a w s) b) = ev_parent (ev s b)"
  "event_root (set_left a v s) = event_root s" "event_root (set_right a v s) = event_root s"
  "event_root (set_parent a v s) = event_root s" "event_root (set_enqueued a w s) = event_root s"
  by (simp_all add: set_left_def set_right_def set_parent_def set_enqueued_def)

definition same_data :: "evq \<Rightarrow> evq \<Rightarrow> bool" where
  "same_data s s' \<longleftrightarrow> (\<forall>a. ev s' a = (ev s a)\<lparr>ev_left := ev_left (ev s' a), ev_right := ev_right (ev s' a),
     ev_parent := ev_parent (ev s' a)\<rparr>)"

lemma same_data_refl [simp]: "same_data s s"
  by (simp add: same_data_def)

lemma same_data_trans: "same_data s s' \<Longrightarrow> same_data s' s'' \<Longrightarrow> same_data s s''"
  unfolding same_data_def
proof (intro allI)
  fix a assume 1: "\<forall>a. ev s' a = (ev s a)\<lparr>ev_left := ev_left (ev s' a), ev_right := ev_right (ev s' a), ev_parent := ev_parent (ev s' a)\<rparr>"
    and 2: "\<forall>a. ev s'' a = (ev s' a)\<lparr>ev_left := ev_left (ev s'' a), ev_right := ev_right (ev s'' a), ev_parent := ev_parent (ev s'' a)\<rparr>"
  show "ev s'' a = (ev s a)\<lparr>ev_left := ev_left (ev s'' a), ev_right := ev_right (ev s'' a), ev_parent := ev_parent (ev s'' a)\<rparr>"
    using 1 [rule_format, of a] 2 [rule_format, of a] by (cases "ev s a"; cases "ev s' a"; cases "ev s'' a") simp
qed

lemma same_data_step [simp]:
  "same_data s s' \<Longrightarrow> same_data s (set_left a v s')"
  "same_data s s' \<Longrightarrow> same_data s (set_right a v s')"
  "same_data s s' \<Longrightarrow> same_data s (set_parent a v s')"
  "same_data s s' \<Longrightarrow> same_data s (s'\<lparr>event_root := x\<rparr>)"
  by (erule same_data_trans, simp add: same_data_def set_left_def set_right_def set_parent_def)+

lemma same_data_transplant [simp]: "same_data s s' \<Longrightarrow> same_data s (bst_transplant u v s')"
  by (simp add: bst_transplant_def Let_def)

lemma transplant_fields [simp]:
  fixes s u v
  defines "s' \<equiv> bst_transplant u v s" and "q \<equiv> ev_parent (ev s u)"
  shows "ev_left (ev s' a) = (if q \<noteq> 0 \<and> a = q \<and> ev_left (ev s q) = u then v else ev_left (ev s a))"
    "ev_right (ev s' a) = (if q \<noteq> 0 \<and> a = q \<and> ev_left (ev s q) \<noteq> u then v else ev_right (ev s a))"
    "ev_parent (ev s' a) = (if v \<noteq> 0 \<and> a = v then q else ev_parent (ev s a))"
    "event_root s' = (if q = 0 then v else event_root s)"
  by (auto simp: s'_def q_def bst_transplant_def Let_def)

fun del_min :: "u64 tree \<Rightarrow> u64 tree" where
  "del_min \<langle>\<rangle> = \<langle>\<rangle>"
| "del_min \<langle>l, a, r\<rangle> = (if l = \<langle>\<rangle> then r else \<langle>del_min l, a, r\<rangle>)"

definition join :: "u64 tree \<Rightarrow> u64 tree \<Rightarrow> u64 tree" where
  "join l r = (if l = \<langle>\<rangle> then r else if r = \<langle>\<rangle> then l else \<langle>l, hd (inorder r), del_min r\<rangle>)"

lemma inorder_ne [simp]: "inorder t = [] \<longleftrightarrow> t = \<langle>\<rangle>" by (cases t) auto

lemma inorder_del_min: "inorder (del_min t) = tl (inorder t)"
  by (induction t rule: del_min.induct) auto

lemma inorder_join: "inorder (join l r) = inorder l @ inorder r"
  by (auto simp: join_def inorder_del_min)

lemma subt_decomp: "u \<in> set_tree t \<Longrightarrow> \<exists>l r. subt u t = \<langle>l, u, r\<rangle>"
  by (induction u t rule: subt.induct) auto

lemma inorder_repl:
  "dist t \<Longrightarrow> subt u t = \<langle>l, u, r\<rangle> \<Longrightarrow>
   \<exists>xs ys. inorder t = xs @ (inorder l @ u # inorder r) @ ys \<and> (\<forall>tv. inorder (repl u tv t) = xs @ inorder tv @ ys)"
proof (induction t)
  case (Node tl a tr)
  have d: "dist tl" "dist tr" "set_tree tl \<inter> set_tree tr = {}" using Node.prems(1) by auto
  consider "a = u" | "a \<noteq> u" "u \<in> set_tree tl" | "a \<noteq> u" "u \<notin> set_tree tl" by blast
  then show ?case
  proof cases
    case 1
    then show ?thesis using Node.prems(2) by (intro exI [of _ "[]"]) auto
  next
    case 2
    then obtain xs ys where "inorder tl = xs @ (inorder l @ u # inorder r) @ ys" "\<forall>tv. inorder (repl u tv tl) = xs @ inorder tv @ ys"
      using Node.IH(1) [OF d(1)] Node.prems(2) by auto
    moreover have "repl u tv tr = tr" for tv using 2 d(3) by (intro repl_notin) auto
    ultimately show ?thesis using 2 by (intro exI [of _ xs] exI [of _ "ys @ a # inorder tr"]) auto
  next
    case 3
    then obtain xs ys where "inorder tr = xs @ (inorder l @ u # inorder r) @ ys" "\<forall>tv. inorder (repl u tv tr) = xs @ inorder tv @ ys"
      using Node.IH(2) [OF d(2)] Node.prems(2) by auto
    moreover have "repl u tv tl = tl" for tv using 3 by (intro repl_notin) auto
    ultimately show ?thesis using 3 by (intro exI [of _ "inorder tl @ a # xs"] exI [of _ ys]) auto
  qed
qed simp

lemma inorder_repl_join: "dist t \<Longrightarrow> subt u t = \<langle>l, u, r\<rangle> \<Longrightarrow> inorder (repl u (join l r) t) = remove1 u (inorder t)"
proof -
  assume d: "dist t" and s: "subt u t = \<langle>l, u, r\<rangle>"
  then obtain xs ys where i: "inorder t = xs @ (inorder l @ u # inorder r) @ ys" "\<forall>tv. inorder (repl u tv t) = xs @ inorder tv @ ys"
    using inorder_repl by blast
  have "u \<notin> set xs" "u \<notin> set_tree l" using d by (auto simp: i(1))
  then show ?thesis by (simp add: i inorder_join remove1_append)
qed

lemma min_loop: "et e p x t \<Longrightarrow> t \<noteq> \<langle>\<rangle> \<Longrightarrow> bst_min_loop e x = Some (hd (inorder t))"
proof (induction e p x t rule: et.induct)
  case (2 e p x l a r)
  then show ?case by (cases "l = \<langle>\<rangle>"; cases l) (auto simp: bst_min_loop.simps [of e a] hd_append)
qed simp

lemma min_props:
  assumes "et e p x t" "dist t" "t \<noteq> \<langle>\<rangle>"
  defines "y \<equiv> hd (inorder t)"
  shows "y \<in> set_tree t" "ev_left (e y) = 0" "\<exists>r. subt y t = \<langle>\<langle>\<rangle>, y, r\<rangle> \<and> repl y r t = del_min t"
  using assms(1-3) unfolding y_def
proof (induction e p x t rule: et.induct)
  case (2 e p x l a r)
  { case 1 then show ?case by (cases "l = \<langle>\<rangle>") (auto simp flip: set_inorder) }
  { case 2 then show ?case using "2.IH" by (cases "l = \<langle>\<rangle>") auto }
  { case 3
    show ?case
    proof (cases "l = \<langle>\<rangle>")
      case False
      have y: "hd (inorder l) \<in> set_tree l" using False hd_in_set [of "inorder l"] by (simp flip: set_inorder)
      then have "hd (inorder l) \<noteq> a" "hd (inorder l) \<notin> set_tree r" using 3 by auto
      then show ?thesis using "2.IH"(3) 3 False y by (auto simp: repl_notin)
    qed (use 3 in auto) }
qed simp_all


lemma et_reparent:
  assumes "et e p x t" "dist t"
    "\<And>a. a \<in> set_tree t \<Longrightarrow> ev_left (e' a) = ev_left (e a) \<and> ev_right (e' a) = ev_right (e a) \<and>
      ev_parent (e' a) = (if a = x then p' else ev_parent (e a))"
  shows "et e' p' x t"
proof (cases t)
  case (Node l b r)
  have "et e' b y s = et e b y s" if "s \<in> {l, r}" for y s
    using assms that Node by (intro et_frame) auto
  then show ?thesis using assms(1,3) Node by auto
qed (use assms in simp)

lemma transplant_relink:
  assumes "et (ev s) 0 (event_root s) t" "dist t" "u \<in> set_tree t" "v \<noteq> u"
  shows "relink u v (ev s) (ev (bst_transplant u v s)) (set_tree t - {v})"
    and "event_root (bst_transplant u v s) = (if event_root s = u then v else event_root s)"
proof -
  let ?e = "ev s" and ?q = "ev_parent (ev s u)"
  have 0: "0 \<notin> set_tree t" by (rule et_zero [OF assms(1)])
  note par = et_parent [OF assms(1-3) 0]
  have "ev_left (?e a) = u \<longleftrightarrow> ?q \<noteq> 0 \<and> a = ?q \<and> ev_left (?e ?q) = u"
    "ev_right (?e a) = u \<longleftrightarrow> ?q \<noteq> 0 \<and> a = ?q \<and> ev_left (?e ?q) \<noteq> u" if a: "a \<in> set_tree t" for a
    using et_child_parent [OF assms(1) a] par a 0 assms(3) et_children_differ [OF assms(1,2) a] by metis+
  then show "relink u v (ev s) (ev (bst_transplant u v s)) (set_tree t - {v})"
    by (auto simp: relink_def)
  show "event_root (bst_transplant u v s) = (if event_root s = u then v else event_root s)"
    using par by auto
qed

lemma subt_parent:
  "et e p x t \<Longrightarrow> dist t \<Longrightarrow> u \<in> set_tree t \<Longrightarrow> p \<notin> set_tree t \<Longrightarrow> ev_parent (e u) \<notin> set_tree (subt u t)"
proof (induction e p x t rule: et.induct)
  case (2 e p x l b r)
  then show ?case by (cases "b = u"; cases "u \<in> set_tree l") auto
qed simp

lemma et_reparent_relink:
  assumes "et e p v t" "dist t" "relink u w e e' (set_tree t - {v})" "u \<noteq> 0" "u \<notin> set_tree t"
    "v \<noteq> 0 \<Longrightarrow> ev_left (e' v) = ev_left (e v) \<and> ev_right (e' v) = ev_right (e v) \<and> ev_parent (e' v) = p'"
  shows "et e' p' v t"
proof (rule et_reparent [OF assms(1,2)])
  fix a assume a: "a \<in> set_tree t"
  then have "ev_left (e a) \<noteq> u" "ev_right (e a) \<noteq> u" "a \<noteq> 0"
    using et_child [OF assms(1) a] et_zero [OF assms(1)] assms(4,5) by auto
  then show "ev_left (e' a) = ev_left (e a) \<and> ev_right (e' a) = ev_right (e a) \<and>
      ev_parent (e' a) = (if a = v then p' else ev_parent (e a))"
    using assms(3,6) a by (cases "a = v") (auto simp: relink_def)
qed

lemma transplant_child:
  assumes et: "et (ev s) 0 (event_root s) t" "dist t" "u \<in> set_tree t" and su: "subt u t = \<langle>l, u, r\<rangle>"
    and v: "(v, tv) \<in> {(ev_left (ev s u), l), (ev_right (ev s u), r)}"
  defines "s' \<equiv> bst_transplant u v s"
  shows "et (ev s') 0 (event_root s') (repl u tv t)"
proof -
  have sub: "ev_parent (ev s u) = ev_parent (ev s u)" "et (ev s) u (ev_left (ev s u)) l" "et (ev s) u (ev_right (ev s u)) r"
      "dist l" "dist r" "u \<notin> set_tree l" "u \<notin> set_tree r" and u0: "u \<noteq> 0"
    using subt_et [OF et] su et_zero [OF et(1)] et(3) by auto
  have tv: "et (ev s) u v tv" "dist tv" "u \<notin> set_tree tv" "set_tree tv \<subseteq> set_tree (subt u t)" using v sub su by auto
  have vu: "v \<noteq> u" using tv et_root u0 by metis
  note re = transplant_relink [OF et vu, folded s'_def]
  have 0: "0 \<notin> set_tree t" by (rule et_zero [OF et(1)])
  have vin: "v = 0 \<or> v \<in> set_tree (subt u t)" using tv(1,4) et_root by blast
  have "v \<noteq> 0 \<Longrightarrow> v \<noteq> ev_parent (ev s u)" using subt_parent [OF et 0] vin by auto
  then have "et (ev s') (ev_parent (ev s u)) v tv"
    using tv(4) subt_subset [of u t] u0 tv(3)
    by (intro et_reparent_relink [OF tv(1,2) relink_mono [OF re(1)]]) (auto simp: s'_def)
  moreover have "relink u v (ev s) (ev s') (set_tree t - set_tree (subt u t))"
    using vin 0 by (intro relink_mono [OF re(1)]) auto
  ultimately show ?thesis unfolding re(2) by (rule et_replace [OF et])
qed

lemma child_iff:
  assumes "et e 0 x t" "dist t" "u \<in> set_tree t" "a \<in> set_tree t"
  defines "q \<equiv> ev_parent (e u)"
  shows "ev_left (e a) = u \<longleftrightarrow> q \<noteq> 0 \<and> a = q \<and> ev_left (e q) = u"
    and "ev_right (e a) = u \<longleftrightarrow> q \<noteq> 0 \<and> a = q \<and> ev_left (e q) \<noteq> u"
  using et_child_parent [OF assms(1,4)] et_parent [OF assms(1-3) et_zero [OF assms(1)]] et_zero [OF assms(1)] assms(3,4)
    et_children_differ [OF assms(1,2,4)] unfolding q_def by metis+

lemma set_del_min: "dist t \<Longrightarrow> set_tree (del_min t) = set_tree t - {hd (inorder t)}" "dist t \<Longrightarrow> dist (del_min t)"
proof -
  assume "dist t"
  then show "dist (del_min t)" by (simp add: inorder_del_min distinct_tl)
  show "set_tree (del_min t) = set_tree t - {hd (inorder t)}"
    using \<open>dist t\<close> by (cases "inorder t") (auto simp: inorder_del_min simp flip: set_inorder)
qed

lemma extract_min:
  assumes et: "et (ev s) 0 (event_root s) t" "dist t" "u \<in> set_tree t" and su: "subt u t = \<langle>l, u, r\<rangle>" and ne: "r \<noteq> \<langle>\<rangle>"
  defines "xr \<equiv> ev_right (ev s u)" and "y \<equiv> hd (inorder r)"
  defines "s1 \<equiv> (if ev_parent (ev s y) \<noteq> u then set_parent xr y (set_right y xr (bst_transplant y (ev_right (ev s y)) s)) else s)"
  shows "et (ev s1) y (ev_right (ev s1 y)) (del_min r)" "event_root s1 = event_root s"
    and "\<And>a. a \<notin> set_tree r \<Longrightarrow> ev_left (ev s1 a) = ev_left (ev s a) \<and> ev_right (ev s1 a) = ev_right (ev s a) \<and>
      ev_parent (ev s1 a) = ev_parent (ev s a)"
proof -
  let ?e = "ev s" and ?vy = "ev_right (ev s y)" and ?q = "ev_parent (ev s y)"
  have r: "et ?e u xr r" "dist r" "u \<notin> set_tree r" "set_tree r \<subseteq> set_tree t"
    using subt_et [OF et] su subt_subset [of u t] by (auto simp: xr_def)
  have 0: "0 \<notin> set_tree t" "0 \<notin> set_tree r" using et_zero [OF et(1)] r(4) by auto
  obtain ry where y: "y \<in> set_tree r" "ev_left (?e y) = 0" "subt y r = \<langle>\<langle>\<rangle>, y, ry\<rangle>" "repl y ry r = del_min r"
    using min_props [OF r(1,2) ne] by (auto simp: y_def)
  have yr: "et ?e y ?vy ry" "dist ry" "y \<notin> set_tree ry" "set_tree ry \<subseteq> set_tree r" "?q \<notin> set_tree (subt y r)" "y \<in> set_tree t" "y \<noteq> 0"
    using subt_et [OF r(1,2) y(1)] subt_parent [OF r(1,2) y(1) r(3)] subt_subset [of y r] y(1,3) r(4) 0 by auto
  have vy: "?vy = 0 \<or> ?vy \<in> set_tree ry" "?vy \<noteq> y" using et_root [OF yr(1)] yr(3,7) by auto
  note par = et_parent [OF r(1,2) y(1) r(3)]
  have q: "y \<noteq> xr \<Longrightarrow> ?q \<in> set_tree r" "?q \<noteq> u \<longleftrightarrow> y \<noteq> xr" using par by auto
  show "event_root s1 = event_root s" using q 0 by (auto simp: s1_def)
  show "ev_left (ev s1 a) = ev_left (ev s a) \<and> ev_right (ev s1 a) = ev_right (ev s a) \<and> ev_parent (ev s1 a) = ev_parent (ev s a)"
    if "a \<notin> set_tree r" for a
  proof -
    have "xr \<in> set_tree r" using r(1) ne by (cases r) auto
    then have "a \<noteq> y" "a \<noteq> xr" "a \<noteq> ?vy \<or> ?vy = 0" using that y(1) vy yr(4) by auto
    moreover have "y \<noteq> xr \<Longrightarrow> a \<noteq> ?q" using that q by auto
    ultimately show ?thesis using q by (auto simp: s1_def)
  qed
  show "et (ev s1) y (ev_right (ev s1 y)) (del_min r)"
  proof (cases "y = xr")
    case True
    obtain rl rr where rn: "r = \<langle>rl, y, rr\<rangle>" using r(1) ne True by (cases r) auto
    then have "del_min r = rr" using y(3) by auto
    then show ?thesis using rn r(1) True q by (auto simp: s1_def)
  next
    case False
    define sa where "sa = bst_transplant y ?vy s"
    have re: "relink y ?vy ?e (ev sa) (set_tree t - {?vy})"
      unfolding sa_def by (rule transplant_relink(1) [OF et(1,2) yr(6) vy(2)])
    have "?vy \<noteq> 0 \<Longrightarrow> ?vy \<noteq> ?q" using yr(5) y(3) vy by auto
    then have "et (ev sa) ?q ?vy ry"
      using yr r(4) by (intro et_reparent_relink [OF yr(1,2) relink_mono [OF re]]) (auto simp: sa_def)
    moreover have "relink y ?vy ?e (ev sa) (set_tree r - set_tree (subt y r))"
      using r(4) 0 vy y(3) by (intro relink_mono [OF re]) auto
    ultimately have "et (ev sa) u (if xr = y then ?vy else xr) (repl y ry r)"
      by (rule et_replace [OF r(1,2) y(1)])
    then have "et (ev sa) u xr (del_min r)" using False y(4) by auto
    then have "et (ev s1) y xr (del_min r)"
    proof (rule et_reparent)
      show "dist (del_min r)" by (rule set_del_min(2) [OF r(2)])
      fix a assume "a \<in> set_tree (del_min r)"
      then have "a \<noteq> y" using set_del_min(1) [OF r(2)] by (simp add: y_def)
      then show "ev_left (ev s1 a) = ev_left (ev sa a) \<and> ev_right (ev s1 a) = ev_right (ev sa a) \<and>
          ev_parent (ev s1 a) = (if a = xr then y else ev_parent (ev sa a))"
        using q(2) False by (simp add: s1_def sa_def [symmetric])
    qed
    moreover have "ev_right (ev s1 y) = xr" using q False by (auto simp: s1_def)
    ultimately show ?thesis by simp
  qed
qed

lemma bst_delete_both:
  assumes et: "et (ev s) 0 (event_root s) t" "dist t" "u \<in> set_tree t" and su: "subt u t = \<langle>l, u, r\<rangle>"
    and ne: "l \<noteq> \<langle>\<rangle>" "r \<noteq> \<langle>\<rangle>"
  shows "\<exists>s'. bst_delete u s = Some s' \<and> et (ev s') 0 (event_root s') (repl u \<langle>l, hd (inorder r), del_min r\<rangle> t)"
proof -
  let ?e = "ev s"
  define xl xr y pu where "xl = ev_left (?e u)" and "xr = ev_right (?e u)" and "y = hd (inorder r)" and "pu = ev_parent (?e u)"
  have sub: "et ?e u xl l" "et ?e u xr r" "dist l" "dist r" "u \<notin> set_tree l" "u \<notin> set_tree r" "set_tree l \<inter> set_tree r = {}"
    using subt_et [OF et] su by (auto simp: xl_def xr_def)
  have 0: "0 \<notin> set_tree t" by (rule et_zero [OF et(1)])
  have x0: "xl \<noteq> 0" "xr \<noteq> 0" "xl \<in> set_tree l" "xr \<in> set_tree r"
    using sub ne by (cases l; cases r; auto)+
  have y: "y \<in> set_tree r" using min_props(1) [OF sub(2,4) ne(2)] by (simp add: y_def)
  have ne2: "pu \<notin> set_tree l" "pu \<notin> set_tree r" "pu \<noteq> u" "y \<noteq> u" "y \<notin> set_tree l" "y \<noteq> 0" "u \<noteq> 0"
    using subt_parent [OF et 0] su y sub et(3) 0 subt_subset [of u t] by (auto simp: pu_def)
  define s1 where "s1 = (if ev_parent (?e y) \<noteq> u then set_parent xr y (set_right y xr (bst_transplant y (ev_right (?e y)) s)) else s)"
  note mn = extract_min [OF et su ne(2), folded xr_def y_def, folded s1_def]
  define s2 where "s2 = bst_transplant u y s1"
  define s' where "s' = set_parent xl y (set_left y xl s2)"
  have u1: "ev_left (ev s1 u) = xl" "ev_right (ev s1 u) = xr" "ev_parent (ev s1 u) = pu"
    using mn(3) [of u] sub(6) by (auto simp: xl_def xr_def pu_def)
  have "bst_minimum ?e xr = Some y" using min_loop [OF sub(2) ne(2)] x0 by (simp add: bst_minimum_def y_def)
  moreover have "ev_right (ev (bst_transplant y (ev_right (?e y)) s) u) = xr" if "ev_parent (?e y) \<noteq> u"
    using that by (simp add: xr_def)
  then have "(if ev_parent (?e y) \<noteq> u then
        let sa = bst_transplant y (ev_right (?e y)) s; sb = set_right y (ev_right (ev sa u)) sa
        in if ev_right (ev sb y) \<noteq> 0 then set_parent (ev_right (ev sb y)) y sb else sb
      else s) = s1"
    using x0 by (simp add: s1_def Let_def del: transplant_fields)
  moreover have "ev_left (ev s2 u) = xl" using u1 ne2 by (simp add: s2_def)
  ultimately have del: "bst_delete u s = Some s'"
    using x0 unfolding bst_delete_def xl_def [symmetric] xr_def [symmetric]
    by (simp add: s'_def s2_def del: transplant_fields)
  have out: "ev_left (ev s' a) = (if pu \<noteq> 0 \<and> a = pu \<and> ev_left (?e pu) = u then y else ev_left (?e a)) \<and>
      ev_right (ev s' a) = (if pu \<noteq> 0 \<and> a = pu \<and> ev_left (?e pu) \<noteq> u then y else ev_right (?e a)) \<and>
      ev_parent (ev s' a) = (if a = xl then y else ev_parent (?e a))" if "a \<notin> set_tree r" for a
    using that mn(3) [of a] mn(3) [of pu] ne2 y u1 by (auto simp: s'_def s2_def)
  have "et (ev s') y xl l"
  proof (rule et_reparent [OF sub(1,3)])
    fix a assume a: "a \<in> set_tree l"
    then have "a \<notin> set_tree r" "a \<noteq> pu" using sub(7) ne2 by auto
    then show "ev_left (ev s' a) = ev_left (?e a) \<and> ev_right (ev s' a) = ev_right (?e a) \<and>
        ev_parent (ev s' a) = (if a = xl then y else ev_parent (?e a))" using out [of a] by simp
  qed
  moreover have "et (ev s') y (ev_right (ev s1 y)) (del_min r) = et (ev s1) y (ev_right (ev s1 y)) (del_min r)"
    using set_del_min(1) [OF sub(4), folded y_def] ne2 x0 sub(7) u1 by (intro et_frame) (auto simp: s'_def s2_def)
  moreover have "ev_left (ev s' y) = xl" "ev_parent (ev s' y) = pu" "ev_right (ev s' y) = ev_right (ev s1 y)"
    using ne2 x0 sub(7) y u1 by (auto simp: s'_def s2_def)
  ultimately have tv: "et (ev s') (ev_parent (?e u)) y \<langle>l, y, del_min r\<rangle>"
    using mn(1) ne2 by (simp add: pu_def)
  have "relink u y ?e (ev s') (set_tree t - set_tree (subt u t))"
    unfolding relink_def
  proof
    fix a assume a: "a \<in> set_tree t - set_tree (subt u t)"
    then have "a \<in> set_tree t" "a \<notin> set_tree r" "a \<noteq> xl" using su x0 by auto
    then show "ev_left (ev s' a) = (if ev_left (?e a) = u then y else ev_left (?e a)) \<and>
       ev_right (ev s' a) = (if ev_right (?e a) = u then y else ev_right (?e a)) \<and> ev_parent (ev s' a) = ev_parent (?e a)"
      using out [of a] child_iff [OF et, of a] by (simp add: pu_def)
  qed
  note rp = et_replace [OF et tv this]
  moreover have "event_root s' = (if event_root s = u then y else event_root s)"
    using u1 mn(2) et_parent [OF et 0] by (auto simp: s'_def s2_def pu_def)
  ultimately show ?thesis using del by (auto simp: y_def)
qed

lemma bst_delete_data: "bst_delete u s = Some s' \<Longrightarrow> same_data s s'"
  unfolding bst_delete_def Let_def
  by (auto split: if_splits option.splits simp del: transplant_fields set_fields)

lemma bst_delete_tree:
  assumes et: "et (ev s) 0 (event_root s) t" "dist t" "u \<in> set_tree t"
  shows "\<exists>s' t'. bst_delete u s = Some s' \<and> et (ev s') 0 (event_root s') t' \<and> inorder t' = remove1 u (inorder t)"
proof -
  obtain l r where su: "subt u t = \<langle>l, u, r\<rangle>" using subt_decomp [OF et(3)] by blast
  have lr: "et (ev s) u (ev_left (ev s u)) l" "et (ev s) u (ev_right (ev s u)) r" using subt_et [OF et] su by auto
  then have nil: "l = \<langle>\<rangle> \<longleftrightarrow> ev_left (ev s u) = 0" "r = \<langle>\<rangle> \<longleftrightarrow> ev_right (ev s u) = 0"
    using et_nil by auto
  note io = inorder_repl_join [OF et(2) su]
  consider "l = \<langle>\<rangle>" | "l \<noteq> \<langle>\<rangle>" "r = \<langle>\<rangle>" | "l \<noteq> \<langle>\<rangle>" "r \<noteq> \<langle>\<rangle>" by blast
  then show ?thesis
  proof cases
    case 1
    then show ?thesis using transplant_child [OF et su, of "ev_right (ev s u)" r] io nil by (auto simp: bst_delete_def join_def)
  next
    case 2
    then show ?thesis using transplant_child [OF et su, of "ev_left (ev s u)" l] io nil by (auto simp: bst_delete_def join_def)
  next
    case 3
    then show ?thesis using bst_delete_both [OF et su 3] io by (auto simp: join_def)
  qed
qed

fun tins :: "(u64 \<Rightarrow> u64) \<Rightarrow> u64 \<Rightarrow> u64 tree \<Rightarrow> u64 tree" where
  "tins f a \<langle>\<rangle> = \<langle>\<langle>\<rangle>, a, \<langle>\<rangle>\<rangle>"
| "tins f a \<langle>l, b, r\<rangle> = (if f a < f b then \<langle>tins f a l, b, r\<rangle> else \<langle>l, b, tins f a r\<rangle>)"

fun ipar :: "(u64 \<Rightarrow> u64) \<Rightarrow> u64 \<Rightarrow> u64 tree \<Rightarrow> u64 \<Rightarrow> u64" where
  "ipar f a \<langle>\<rangle> q = q"
| "ipar f a \<langle>l, b, r\<rangle> q = (if f a < f b then ipar f a l b else ipar f a r b)"

definition ins_after :: "('a \<Rightarrow> u64) \<Rightarrow> 'a \<Rightarrow> 'a list \<Rightarrow> 'a list" where
  "ins_after f a xs = takeWhile (\<lambda>x. f x \<le> f a) xs @ a # dropWhile (\<lambda>x. f x \<le> f a) xs"

lemma insert_loop: "et e p x t \<Longrightarrow> bst_insert_loop e a x q = Some (ipar (\<lambda>c. ev_time (e c)) a t q)"
proof (induction e p x t arbitrary: q rule: et.induct)
  case (2 e p x l b r)
  then show ?case by (subst bst_insert_loop.simps) auto
qed (simp add: bst_insert_loop.simps)

lemma ipar_in: "t \<noteq> \<langle>\<rangle> \<Longrightarrow> ipar f a t q \<in> set_tree t"
proof (induction f a t q rule: ipar.induct)
  case (2 f a l b r q)
  then show ?case by (cases "f a < f b"; cases l; cases r) auto
qed simp

lemma et_insert:
  assumes "et e p x t" "dist t" "a \<notin> set_tree t" "a \<noteq> 0"
    "ev_left (e' a) = 0" "ev_right (e' a) = 0" "ev_parent (e' a) = ipar f a t p"
    "\<And>c. c \<in> set_tree t \<Longrightarrow> ev_left (e' c) = (if c = ipar f a t p \<and> f a < f c then a else ev_left (e c)) \<and>
       ev_right (e' c) = (if c = ipar f a t p \<and> \<not> f a < f c then a else ev_right (e c)) \<and> ev_parent (e' c) = ev_parent (e c)"
  shows "et e' p (if x = 0 then a else x) (tins f a t)"
  using assms
proof (induction e p x t rule: et.induct)
  case (2 e p x l b r)
  have d: "dist l" "dist r" "b \<notin> set_tree l" "b \<notin> set_tree r" "set_tree l \<inter> set_tree r = {}"
    and c: "et e b (ev_left (e b)) l" "et e b (ev_right (e b)) r" "x = b" "b \<noteq> 0" "ev_parent (e b) = p"
    using "2.prems"(1,2) by auto
  have z: "ev_left (e b) = 0 \<longleftrightarrow> l = \<langle>\<rangle>" "ev_right (e b) = 0 \<longleftrightarrow> r = \<langle>\<rangle>" using et_nil [OF c(1)] et_nil [OF c(2)] by auto
  note upd = "2.prems"(8)
  show ?case
  proof (cases "f a < f b")
    case True
    let ?i = "ipar f a l b"
    have i: "?i = b \<longleftrightarrow> l = \<langle>\<rangle>" "?i \<notin> set_tree r" using ipar_in [of l f a b] d by (cases "l = \<langle>\<rangle>"; auto)+
    have "et e' b (ev_right (e b)) r = et e b (ev_right (e b)) r"
      using upd i(2) True by (intro et_frame) auto
    moreover have "et e' b (if ev_left (e b) = 0 then a else ev_left (e b)) (tins f a l)"
      using "2.prems" True d by (intro "2.IH"(1)) auto
    ultimately show ?thesis using upd [of b] True c i z by auto
  next
    case False
    let ?i = "ipar f a r b"
    have i: "?i = b \<longleftrightarrow> r = \<langle>\<rangle>" "?i \<notin> set_tree l" using ipar_in [of r f a b] d by (cases "r = \<langle>\<rangle>"; auto)+
    have "et e' b (ev_left (e b)) l = et e b (ev_left (e b)) l"
      using upd i(2) False by (intro et_frame) auto
    moreover have "et e' b (if ev_right (e b) = 0 then a else ev_right (e b)) (tins f a r)"
      using "2.prems" False d by (intro "2.IH"(2)) auto
    ultimately show ?thesis using upd [of b] False c i z by auto
  qed
qed simp

lemma inorder_tins: "sorted (map f (inorder t)) \<Longrightarrow> inorder (tins f a t) = ins_after f a (inorder t)"
proof (induction f a t rule: tins.induct)
  case (2 f a l b r)
  have s: "sorted (map f (inorder l))" "sorted (map f (inorder r))" "\<forall>x\<in>set_tree l. f x \<le> f b" "\<forall>x\<in>set_tree r. f b \<le> f x"
    using 2(3) by (auto simp: sorted_append)
  show ?case
  proof (cases "f a < f b")
    case True
    then have "\<not> f b \<le> f a" by simp
    then show ?thesis using 2(1) [OF True s(1)] True by (simp add: ins_after_def takeWhile_append dropWhile_append)
  next
    case False
    then have "\<forall>x\<in>set_tree l. f x \<le> f a" using s(3) by force
    moreover have "f b \<le> f a" using False by simp
    ultimately show ?thesis using 2(2) [OF False s(2)] False by (simp add: ins_after_def takeWhile_append dropWhile_append)
  qed
qed (simp add: ins_after_def)

end
