(* ===== verification/Events_Queue.thy ===== *)
theory Events_Queue
  imports Events
begin

text \<open>
  The event queue as a time-ordered list: what each operation of \<open>events.c\<close> does to it, the
  interface the scheduler relies on with its interpretation, and the invariant of every history
  of the kernel's calls.
\<close>

definition ev_data :: "event \<Rightarrow> u64 \<times> u64 \<times> event_callback \<times> string \<times> u64" where
  "ev_data e = (ev_owner e, ev_time e, ev_callback e, ev_kind e, ev_callback_arg e)"

definition evq_rep :: "evq \<Rightarrow> u64 list \<Rightarrow> bool" where
  "evq_rep s xs \<longleftrightarrow> distinct xs \<and> (\<exists>t. et (ev s) 0 (event_root s) t \<and> inorder t = xs) \<and>
     (\<forall>a. ev_enqueued (ev s a) \<longleftrightarrow> a \<in> set xs)"

definition by_time :: "evq \<Rightarrow> u64 list \<Rightarrow> bool" where
  "by_time s xs \<longleftrightarrow> sorted (map (\<lambda>a. ev_time (ev s a)) xs)"

definition same_payload :: "evq \<Rightarrow> evq \<Rightarrow> bool" where
  "same_payload s s' \<longleftrightarrow> (\<forall>a. ev_data (ev s' a) = ev_data (ev s a))"

lemma payload_fields:
  assumes "same_payload s s'"
  shows "ev_time (ev s' a) = ev_time (ev s a)" "ev_callback (ev s' a) = ev_callback (ev s a)"
    "ev_callback_arg (ev s' a) = ev_callback_arg (ev s a)" "ev_owner (ev s' a) = ev_owner (ev s a)"
    "ev_kind (ev s' a) = ev_kind (ev s a)"
  using assms by (auto simp: same_payload_def ev_data_def)

lemma same_payload_simps [simp]:
  "same_payload s s" "same_payload s (set_left a v s') = same_payload s s'"
  "same_payload s (set_right a v s') = same_payload s s'" "same_payload s (set_parent a v s') = same_payload s s'"
  "same_payload s (set_enqueued a b s') = same_payload s s'" "same_payload s (clear_links a s') = same_payload s s'"
  "same_payload s (s'\<lparr>event_root := x\<rparr>) = same_payload s s'"
  by (auto simp: same_payload_def ev_data_def set_left_def set_right_def set_parent_def set_enqueued_def clear_links_def)

lemma same_payload_trans: "same_payload s s' \<Longrightarrow> same_payload s' s'' \<Longrightarrow> same_payload s s''"
  by (simp add: same_payload_def)

lemma same_data_payload:
  assumes "same_data s s'"
  shows "same_payload s s'" and "ev_enqueued (ev s' a) = ev_enqueued (ev s a)"
proof -
  have eq: "ev s' a = (ev s a)\<lparr>ev_left := ev_left (ev s' a), ev_right := ev_right (ev s' a), ev_parent := ev_parent (ev s' a)\<rparr>" for a
    using assms by (simp add: same_data_def)
  show "ev_enqueued (ev s' a) = ev_enqueued (ev s a)" by (subst eq) simp
  show "same_payload s s'" unfolding same_payload_def by (rule allI, subst eq) (simp add: ev_data_def)
qed

lemma enqueued_simps [simp]:
  "ev_enqueued (ev (set_left a v s) b) = ev_enqueued (ev s b)" "ev_enqueued (ev (set_right a v s) b) = ev_enqueued (ev s b)"
  "ev_enqueued (ev (set_parent a v s) b) = ev_enqueued (ev s b)"
  "ev_enqueued (ev (set_enqueued a w s) b) = (if b = a then w else ev_enqueued (ev s b))"
  by (simp_all add: set_left_def set_right_def set_parent_def set_enqueued_def)

lemma et_outside:
  assumes "a \<notin> set_tree t"
  shows "et (ev (clear_links a s)) p x t = et (ev s) p x t"
  by (rule et_frame) (use assms in \<open>auto simp: clear_links_def\<close>)

lemma et_set_enqueued [simp]: "et (ev (set_enqueued a b s)) p x t = et (ev s) p x t"
  by (rule et_frame) simp

lemma clear_links_simps [simp]:
  "event_root (clear_links a s) = event_root s" "ev_enqueued (ev (clear_links a s) b) = ev_enqueued (ev s b)"
  "ev_left (ev (clear_links a s) a) = 0" "ev_right (ev (clear_links a s) a) = 0" "ev_parent (ev (clear_links a s) a) = 0"
  "ev_time (ev (clear_links a s) b) = ev_time (ev s b)"
  by (simp_all add: clear_links_def) (simp add: set_left_def set_right_def set_parent_def)

lemma peek_spec: "evq_rep s xs \<Longrightarrow> event_peek_next s = Some (if xs = [] then 0 else hd xs)"
proof -
  assume "evq_rep s xs"
  then obtain t where t: "et (ev s) 0 (event_root s) t" "inorder t = xs" by (auto simp: evq_rep_def)
  show ?thesis
  proof (cases "xs = []")
    case True
    then show ?thesis using t by (auto simp: event_peek_next_def bst_minimum_def)
  next
    case False
    then have "t \<noteq> \<langle>\<rangle>" "event_root s \<noteq> 0" using t et_nil by auto
    then show ?thesis using min_loop [OF t(1)] t(2) False by (simp add: event_peek_next_def bst_minimum_def)
  qed
qed

lemma remove_spec:
  assumes rep: "evq_rep s xs" and a: "a \<in> set xs"
  shows "\<exists>s'. event_remove a s = Some s' \<and> evq_rep s' (remove1 a xs) \<and> same_payload s s' \<and>
    ev_left (ev s' a) = 0 \<and> ev_right (ev s' a) = 0 \<and> ev_parent (ev s' a) = 0"
proof -
  obtain t where t: "et (ev s) 0 (event_root s) t" "inorder t = xs" "dist t" using rep by (auto simp: evq_rep_def)
  have at: "a \<in> set_tree t" using a t(2) by (simp flip: set_inorder)
  then have nz: "a \<noteq> 0" "event_root s \<noteq> 0" using et_zero [OF t(1)] et_nil [OF t(1)] by auto
  obtain s1 t' where d: "bst_delete a s = Some s1" "et (ev s1) 0 (event_root s1) t'" "inorder t' = remove1 a xs"
    using bst_delete_tree [OF t(1,3) at] t(2) by auto
  note sd = same_data_payload [OF bst_delete_data [OF d(1)]]
  define s' where "s' = set_enqueued a False (clear_links a s1)"
  have "a \<notin> set_tree t'" using d(3) t by (simp flip: set_inorder)
  then have "et (ev s') 0 (event_root s') t'" using d(2) by (simp add: s'_def et_outside)
  moreover have "\<forall>b. ev_enqueued (ev s' b) \<longleftrightarrow> b \<in> set (remove1 a xs)"
    using rep sd(2) by (auto simp: s'_def evq_rep_def)
  ultimately have "evq_rep s' (remove1 a xs)" using d(3) rep by (auto simp: evq_rep_def)
  moreover have "event_remove a s = Some s'" using nz d(1) by (simp add: event_remove_def s'_def)
  ultimately show ?thesis using sd(1) by (auto simp: s'_def)
qed

lemma insert_spec:
  assumes t: "et (ev s) 0 (event_root s) t" "dist t" "a \<notin> set_tree t" "a \<noteq> 0"
    "ev_left (ev s a) = 0" "ev_right (ev s a) = 0" "ev_parent (ev s a) = 0"
  defines "f \<equiv> \<lambda>c. ev_time (ev s c)"
  shows "\<exists>s'. event_bst_insert a s = Some s' \<and> et (ev s') 0 (event_root s') (tins f a t) \<and> same_data s s'"
proof (cases "t = \<langle>\<rangle>")
  case True
  then show ?thesis using t by (auto simp: event_bst_insert_def)
next
  case False
  define p where "p = ipar f a t 0"
  have nz: "event_root s \<noteq> 0" using et_nil [OF t(1)] False by simp
  have p: "p \<in> set_tree t" "p \<noteq> a" "p \<noteq> 0" using ipar_in [OF False] t(3) et_zero [OF t(1)] unfolding p_def by metis+
  have loop: "bst_insert_loop (ev s) a (event_root s) 0 = Some p" using insert_loop [OF t(1)] by (simp add: p_def f_def)
  define s1 where "s1 = set_parent a p s"
  have f1: "ev_time (ev s1 c) = f c" for c by (simp add: s1_def set_parent_def f_def)
  define s' where "s' = (if f a < f p then set_left p a s1 else set_right p a s1)"
  have "event_bst_insert a s = Some s'" using nz loop by (simp add: event_bst_insert_def Let_def s1_def [symmetric] f1 s'_def)
  moreover have "same_data s s'" by (simp add: s'_def s1_def)
  moreover have "et (ev s') 0 (if event_root s = 0 then a else event_root s) (tins f a t)"
    using t p by (intro et_insert [OF t(1-4)]) (auto simp: s'_def s1_def p_def [symmetric])
  moreover have "event_root s' = event_root s" by (simp add: s'_def s1_def)
  ultimately show ?thesis using nz by auto
qed

lemma print_inorder:
  "et e p x t \<Longrightarrow> print_event_bst_inorder e x = Some (map (\<lambda>a. (ev_owner (e a), ev_kind (e a), ev_time (e a))) (inorder t))"
proof (induction e p x t rule: et.induct)
  case (1 e p x)
  then show ?case by (simp add: print_event_bst_inorder.simps)
next
  case (2 e p x l a r)
  then show ?case by (subst print_event_bst_inorder.simps) auto
qed

lemma print_spec:
  "evq_rep s xs \<Longrightarrow> print_event_queue s = Some (map (\<lambda>a. (ev_owner (ev s a), ev_kind (ev s a), ev_time (ev s a))) xs)"
  by (auto simp: evq_rep_def print_event_queue_def print_inorder et_nil)

lemma set_ins_after [simp]: "set (ins_after f a xs) = insert a (set xs)"
  unfolding ins_after_def by (metis Un_insert_right list.simps(15) set_append takeWhile_dropWhile_id)

lemma ins_after_simps [simp]:
  "ins_after f a [] = [a]" "ins_after f a (x # xs) = (if f x \<le> f a then x # ins_after f a xs else a # x # xs)"
  by (simp_all add: ins_after_def)

lemma sorted_ins_after: "sorted (map f xs) \<Longrightarrow> sorted (map f (ins_after f a xs))"
  by (induction xs) (auto intro: order.trans)

lemma distinct_ins_after: "distinct xs \<Longrightarrow> a \<notin> set xs \<Longrightarrow> distinct (ins_after f a xs)"
  by (induction xs) auto

lemma enqueue_spec:
  assumes rep: "evq_rep s xs" and a: "a \<noteq> 0" and srt: "by_time s (remove1 a xs)"
  defines "ys \<equiv> ins_after (\<lambda>c. ev_time (ev s c)) a (remove1 a xs)"
  shows "\<exists>s'. event_enqueue a s = Some (Inr s') \<and> evq_rep s' ys \<and> by_time s' ys \<and> same_payload s s'"
proof -
  obtain s1 where s1: "(if ev_enqueued (ev s a) then event_remove a s else Some s) = Some s1"
      "evq_rep s1 (remove1 a xs)" "same_payload s s1"
    using remove_spec [OF rep, of a] rep by (cases "a \<in> set xs") (auto simp: evq_rep_def remove1_idem)
  obtain t where t: "et (ev s1) 0 (event_root s1) t" "inorder t = remove1 a xs" "dist t" using s1(2) by (auto simp: evq_rep_def)
  have nin: "a \<notin> set_tree t" using t(2) rep by (simp add: evq_rep_def flip: set_inorder)
  let ?s2 = "clear_links a s1"
  obtain s3 where s3: "event_bst_insert a ?s2 = Some s3" "et (ev s3) 0 (event_root s3) (tins (\<lambda>c. ev_time (ev s c)) a t)" "same_data ?s2 s3"
    using insert_spec [of ?s2 t a] t nin a by (auto simp: et_outside payload_fields(1) [OF s1(3)])
  note sd = same_data_payload [OF s3(3)]
  define s' where "s' = set_enqueued a True s3"
  have io: "inorder (tins (\<lambda>c. ev_time (ev s c)) a t) = ys"
    using inorder_tins [of "\<lambda>c. ev_time (ev s c)" t a] srt t(2) by (simp add: ys_def by_time_def)
  have "a \<notin> set (remove1 a xs)" "distinct (remove1 a xs)" using rep by (auto simp: evq_rep_def)
  then have "distinct ys" by (simp add: ys_def distinct_ins_after)
  moreover have "\<forall>b. ev_enqueued (ev s' b) \<longleftrightarrow> b \<in> set ys"
    using s1(2) sd(2) by (auto simp: s'_def ys_def evq_rep_def)
  ultimately have "evq_rep s' ys" using s3(2) io by (auto simp: evq_rep_def s'_def)
  moreover have pl: "same_payload s s'" using same_payload_trans [OF _ sd(1), of s] s1(3) by (simp add: s'_def)
  then have "by_time s' ys"
    using srt sorted_ins_after by (simp add: by_time_def payload_fields(1) [OF pl] ys_def)
  moreover have "event_enqueue a s = Some (Inr s')" using a s1(1) s3(1) by (simp add: event_enqueue_def s'_def)
  ultimately show ?thesis using pl by blast
qed

lemma dequeue_spec:
  assumes rep: "evq_rep s (x # xs)"
  shows "\<exists>s'. event_dequeue s = Some (Inr (x, s')) \<and> same_data s s' \<and>
    (\<exists>t. et (ev s') 0 (event_root s') t \<and> inorder t = xs)"
proof -
  obtain t where t: "et (ev s) 0 (event_root s) t" "inorder t = x # xs" "dist t" using rep by (auto simp: evq_rep_def)
  then have nz: "event_root s \<noteq> 0" using et_nil [OF t(1)] by auto
  have "x \<in> set_tree t" using t(2) by (simp flip: set_inorder)
  then obtain s1 t' where d: "bst_delete x s = Some s1" "et (ev s1) 0 (event_root s1) t'" "inorder t' = xs"
    using bst_delete_tree [OF t(1,3)] t(2) by fastforce
  moreover have "bst_minimum (ev s) (event_root s) = Some x"
    using peek_spec [OF rep] by (simp add: event_peek_next_def)
  ultimately show ?thesis using nz bst_delete_data [OF d(1)] by (auto simp: event_dequeue_def)
qed

text \<open>
  The queue as the scheduler uses it: a list of events in the order they will fire, whose
  representation the operations keep.
\<close>

locale timer_queue =
  fixes enqueue :: "u64 \<Rightarrow> 'q \<Rightarrow> 'q run" and remove :: "u64 \<Rightarrow> 'q \<Rightarrow> 'q option" and peek :: "'q \<Rightarrow> u64 option"
    and rep :: "'q \<Rightarrow> u64 list \<Rightarrow> bool" and time :: "'q \<Rightarrow> u64 \<Rightarrow> u64" and same :: "'q \<Rightarrow> 'q \<Rightarrow> bool"
  assumes peek_law: "rep q xs \<Longrightarrow> peek q = Some (if xs = [] then 0 else hd xs)"
    and remove_law: "rep q xs \<Longrightarrow> a \<in> set xs \<Longrightarrow> \<exists>q'. remove a q = Some q' \<and> rep q' (remove1 a xs) \<and> same q q'"
    and enqueue_law: "rep q xs \<Longrightarrow> a \<noteq> 0 \<Longrightarrow> sorted (map (time q) (remove1 a xs)) \<Longrightarrow>
      \<exists>q'. enqueue a q = Some (Inr q') \<and> rep q' (ins_after (time q) a (remove1 a xs)) \<and> same q q'"
    and nonnull_law: "rep q xs \<Longrightarrow> 0 \<notin> set xs \<and> distinct xs"
    and same_law: "same q q' \<Longrightarrow> time q' = time q"
begin

lemma peek_earliest:
  assumes "rep q xs" "sorted (map (time q) xs)" "peek q = Some x" "x \<noteq> 0"
  shows "x \<in> set xs \<and> (\<forall>y\<in>set xs. time q x \<le> time q y)"
  using assms peek_law [OF assms(1)] by (cases xs) auto

lemma pop_law:
  assumes "rep q (x # xs)" "sorted (map (time q) (x # xs))"
  shows "peek q = Some x" "\<exists>q'. remove x q = Some q' \<and> rep q' xs \<and> same q q' \<and> sorted (map (time q') xs)"
  using peek_law [OF assms(1)] remove_law [OF assms(1), of x] assms(2) same_law by auto

lemma enqueue_keeps:
  assumes "rep q xs" "a \<noteq> 0" "sorted (map (time q) (remove1 a xs))"
  obtains q' where "enqueue a q = Some (Inr q')" "rep q' (ins_after (time q) a (remove1 a xs))" "same q q'"
    "sorted (map (time q') (ins_after (time q) a (remove1 a xs)))" "set (ins_after (time q) a (remove1 a xs)) = insert a (set xs)"
proof -
  obtain q' where q': "enqueue a q = Some (Inr q')" "rep q' (ins_after (time q) a (remove1 a xs))" "same q q'"
    using enqueue_law [OF assms] by blast
  moreover have "sorted (map (time q') (ins_after (time q) a (remove1 a xs)))"
    using sorted_ins_after [OF assms(3), of a] same_law [OF q'(3)] by simp
  moreover have "set (ins_after (time q) a (remove1 a xs)) = insert a (set xs)"
    using nonnull_law [OF assms(1)] by auto
  ultimately show thesis using that by blast
qed

end

interpretation tq: timer_queue event_enqueue event_remove event_peek_next
  "\<lambda>q xs. evq_rep q xs" "\<lambda>q a. ev_time (ev q a)" same_payload
proof unfold_locales
  fix q xs a assume "evq_rep q xs" "a \<noteq> 0" "sorted (map (\<lambda>a. ev_time (ev q a)) (remove1 a xs))"
  then show "\<exists>q'. event_enqueue a q = Some (Inr q') \<and> evq_rep q' (ins_after (\<lambda>a. ev_time (ev q a)) a (remove1 a xs)) \<and> same_payload q q'"
    using enqueue_spec [of q xs a] by (auto simp: by_time_def)
next
  fix q xs assume "evq_rep q xs"
  then show "0 \<notin> set xs \<and> distinct xs" using et_zero by (auto simp: evq_rep_def)
next
  fix q xs a assume "evq_rep q xs" "a \<in> set xs"
  then show "\<exists>q'. event_remove a q = Some q' \<and> evq_rep q' (remove1 a xs) \<and> same_payload q q'"
    using remove_spec by blast
qed (simp_all add: peek_spec payload_fields)

text \<open>
  The histories the kernel drives the queue through: it fills in an event's owner, time and
  callback and enqueues that event at once, whether or not it is still queued; and it removes
  the event it peeked at.
\<close>

inductive evq_run :: "evq \<Rightarrow> bool" where
  start: "\<forall>a. \<not> ev_enqueued (ev s a) \<Longrightarrow> event_root s = 0 \<Longrightarrow> evq_run s"
| arm: "evq_run s \<Longrightarrow> ev_left e = ev_left (ev s a) \<Longrightarrow> ev_right e = ev_right (ev s a) \<Longrightarrow>
    ev_parent e = ev_parent (ev s a) \<Longrightarrow> ev_enqueued e = ev_enqueued (ev s a) \<Longrightarrow>
    event_enqueue a (s\<lparr>ev := (ev s)(a := e)\<rparr>) = Some (Inr s') \<Longrightarrow> evq_run s'"
| fire: "evq_run s \<Longrightarrow> event_peek_next s = Some a \<Longrightarrow> event_remove a s = Some s' \<Longrightarrow> evq_run s'"

lemma evq_rep_payload:
  assumes "evq_rep s xs" "ev_left e = ev_left (ev s a)" "ev_right e = ev_right (ev s a)" "ev_parent e = ev_parent (ev s a)"
    "ev_enqueued e = ev_enqueued (ev s a)"
  shows "evq_rep (s\<lparr>ev := (ev s)(a := e)\<rparr>) xs"
proof -
  have "et ((ev s)(a := e)) p x t = et (ev s) p x t" for p x t by (rule et_frame) (use assms in auto)
  then show ?thesis using assms by (auto simp: evq_rep_def)
qed

lemma evq_run_rep: "evq_run s \<Longrightarrow> \<exists>xs. evq_rep s xs \<and> by_time s xs"
proof (induction rule: evq_run.induct)
  case (start s)
  then show ?case by (intro exI [of _ "[]"]) (auto simp: evq_rep_def by_time_def intro: exI [of _ "\<langle>\<rangle>"])
next
  case (arm s e a s')
  let ?s = "s\<lparr>ev := (ev s)(a := e)\<rparr>"
  obtain xs where xs: "evq_rep s xs" "by_time s xs" using arm by blast
  have rep: "evq_rep ?s xs" using evq_rep_payload [OF xs(1) arm.hyps(2-5)] .
  have a: "a \<noteq> 0" using arm.hyps(6) by (auto simp: event_enqueue_def)
  have "by_time ?s (remove1 a xs)"
  proof -
    have "map (\<lambda>b. ev_time (ev ?s b)) (remove1 a xs) = map (\<lambda>b. ev_time (ev s b)) (remove1 a xs)"
      using rep by (auto simp: evq_rep_def)
    then show ?thesis
      using sorted_map_remove1 [OF xs(2) [unfolded by_time_def]] unfolding by_time_def by (simp only:)
  qed
  then show ?case using enqueue_spec [OF rep a] arm.hyps(6) by auto
next
  case (fire s a s')
  then obtain xs where xs: "evq_rep s xs" "by_time s xs" by blast
  show ?case
  proof (cases xs)
    case Nil
    then show ?thesis using peek_spec [OF xs(1)] fire xs by (auto simp: event_remove_def)
  next
    case (Cons x ys)
    then have "a = x" using peek_spec [OF xs(1)] fire by simp
    then obtain q where "event_remove a s = Some q" "evq_rep q ys" "same_payload s q"
      using remove_spec [OF xs(1), of a] Cons by auto
    then show ?thesis using fire(3) xs(2) Cons by (auto simp: by_time_def payload_fields)
  qed
qed

section \<open>Properties\<close>

text \<open>C6. In every history of the kernel's uses of the queue, which may change the time of an
  event while it is queued, the pointers form a search tree of exactly the events whose
  \<open>enqueued\<close> flag is set, ordered by time, and peeking returns an earliest event.\<close>

theorem evq_run_ordered:
  assumes "evq_run s"
  shows "\<exists>xs. evq_rep s xs \<and> by_time s xs \<and>
    event_peek_next s = Some (if xs = [] then 0 else hd xs) \<and>
    (\<forall>a. ev_enqueued (ev s a) \<longrightarrow> ev_time (ev s (hd xs)) \<le> ev_time (ev s a))"
proof -
  obtain xs where xs: "evq_rep s xs" "by_time s xs" using evq_run_rep [OF assms] by blast
  moreover have "ev_time (ev s (hd xs)) \<le> ev_time (ev s a)" if "ev_enqueued (ev s a)" for a
    using xs that by (cases xs) (auto simp: evq_rep_def by_time_def)
  ultimately show ?thesis using tq.peek_law [OF xs(1)] by blast
qed

text \<open>C12. Enqueueing an event places it behind all queued events that fire no later (first come,
  first served among equal times), moving it when it was queued already; it returns, changes
  no event's data and keeps the queue ordered.\<close>

theorem event_enqueue_stable:
  assumes "evq_rep s xs" "a \<noteq> 0" "by_time s (remove1 a xs)"
  shows "\<exists>s'. event_enqueue a s = Some (Inr s') \<and>
    evq_rep s' (ins_after (\<lambda>c. ev_time (ev s c)) a (remove1 a xs)) \<and>
    by_time s' (ins_after (\<lambda>c. ev_time (ev s c)) a (remove1 a xs)) \<and> same_payload s s'"
  using enqueue_spec [OF assms] .

text \<open>C13. Removing a queued event, wherever it is in the tree, unlinks exactly it: the remaining
  events keep their order and data, and the removed event's pointers and flag are cleared.\<close>

theorem event_remove_unlinks:
  assumes "evq_rep s xs" "a \<in> set xs"
  shows "\<exists>s'. event_remove a s = Some s' \<and> evq_rep s' (remove1 a xs) \<and> same_payload s s' \<and>
    ev_left (ev s' a) = 0 \<and> ev_right (ev s' a) = 0 \<and> ev_parent (ev s' a) = 0 \<and> \<not> ev_enqueued (ev s' a)"
  using remove_spec [OF assms] assms by (auto simp: evq_rep_def)

definition no_events :: evq where
  "no_events = \<lparr>ev = \<lambda>_. empty_event, event_root = 0\<rparr>"

lemma no_events_rep: "evq_rep no_events []"
  by (auto simp: no_events_def evq_rep_def empty_event_def intro: exI [of _ "\<langle>\<rangle>"])

theorem evq_run_ordered_witness: "\<exists>xs. evq_rep no_events xs \<and> event_peek_next no_events = Some 0"
proof -
  have "evq_run no_events" by (rule evq_run.start) (simp_all add: no_events_def empty_event_def)
  then obtain xs where "evq_rep no_events xs" using evq_run_ordered by blast
  then show ?thesis using peek_spec [OF no_events_rep] by auto
qed

theorem event_enqueue_stable_witness:
  "\<exists>s'. event_enqueue 8 no_events = Some (Inr s') \<and> evq_rep s' [8]"
  using event_enqueue_stable [OF no_events_rep, of 8] by (auto simp: by_time_def)

definition one_event :: evq where
  "one_event = \<lparr>ev = (\<lambda>a. empty_event\<lparr>ev_enqueued := (a = 8)\<rparr>), event_root = 8\<rparr>"

lemma one_event_rep: "evq_rep one_event [8]"
  by (auto simp: one_event_def evq_rep_def empty_event_def intro: exI [of _ "\<langle>\<langle>\<rangle>, 8, \<langle>\<rangle>\<rangle>"])

theorem event_remove_unlinks_witness: "\<exists>s'. event_remove 8 one_event = Some s' \<and> evq_rep s' []"
  using event_remove_unlinks [OF one_event_rep, of 8] by auto

definition four_events :: evq where
  "four_events = \<lparr>ev = (\<lambda>a. empty_event)
     (1 := empty_event\<lparr>ev_enqueued := True, ev_time := 10, ev_right := 3, ev_parent := 2\<rparr>,
      2 := empty_event\<lparr>ev_enqueued := True, ev_time := 20, ev_left := 1, ev_right := 4\<rparr>,
      3 := empty_event\<lparr>ev_enqueued := True, ev_time := 15, ev_parent := 1\<rparr>,
      4 := empty_event\<lparr>ev_enqueued := True, ev_time := 30, ev_parent := 2\<rparr>), event_root = 2\<rparr>"

lemma four_events_rep: "evq_rep four_events [1, 3, 2, 4] \<and> by_time four_events [1, 3, 2, 4]"
proof -
  have "et (ev four_events) 0 (event_root four_events) \<langle>\<langle>\<langle>\<rangle>, 1, \<langle>\<langle>\<rangle>, 3, \<langle>\<rangle>\<rangle>\<rangle>, 2, \<langle>\<langle>\<rangle>, 4, \<langle>\<rangle>\<rangle>\<rangle>"
    by (simp add: four_events_def empty_event_def)
  moreover have "ev_enqueued (ev four_events a) \<longleftrightarrow> a \<in> set [1, 3, 2, 4]" for a
    by (simp add: four_events_def empty_event_def)
  moreover have "by_time four_events [1, 3, 2, 4]" by (simp add: by_time_def four_events_def empty_event_def)
  ultimately show ?thesis by (auto simp: evq_rep_def intro: exI [of _ "\<langle>\<langle>\<langle>\<rangle>, 1, \<langle>\<langle>\<rangle>, 3, \<langle>\<rangle>\<rangle>\<rangle>, 2, \<langle>\<langle>\<rangle>, 4, \<langle>\<rangle>\<rangle>\<rangle>"])
qed

lemma time_simps [simp]:
  "ev_time (ev (set_left a v s) b) = ev_time (ev s b)" "ev_time (ev (set_right a v s) b) = ev_time (ev s b)"
  "ev_time (ev (set_parent a v s) b) = ev_time (ev s b)" "ev_time (ev (set_enqueued a w s) b) = ev_time (ev s b)"
  by (simp_all add: set_left_def set_right_def set_parent_def set_enqueued_def)


end
