(* ===== verification/Sched.thy ===== *)
theory Sched
  imports Apic Events_Queue
begin

text \<open>
  \<open>kernel/multitasking/sched.c\<close>, \<open>thread.c\<close>, \<open>process.c\<close> and the context switch of \<open>sched.asm\<close>. Threads, processes
  and events are records at addresses the kernel heap handed out; the ready and finished lists live in the bytes of the heap. A
  saved stack is the place where its thread goes on (type \<open>resume\<close>), so one call of an operation runs on the stacks of all
  the threads it switches through and ends when thread code runs again. A timer interrupt is a call of \<open>handle_next_event\<close>
  between two such operations; one that arrives inside \<open>thread_yield\<close> is not modelled, and neither are log lines. Names are
  strings shorter than their 64-byte buffers.
\<close>

section \<open>Threads and processes\<close>

datatype ThreadStatus = THREAD_READY | THREAD_RUNNING | THREAD_SLEEPING | THREAD_BLOCKED | THREAD_DONE

datatype thread_entry = Entry_idle | Entry_one | Entry_two | Entry_reap

text \<open>What a thread that is switched out has on its stack: the frame \<open>thread_kcreate\<close> prepared, a call of \<open>switch_thread\<close>
  from the event loop of \<open>handle_next_event\<close>, or one from \<open>thread_yield\<close>.\<close>

datatype resume = Fresh thread_entry | InHandler | InYield

record Thread =
  th_rsp :: resume
  th_rsp_base :: u64
  th_tid :: u64
  th_process :: u64
  th_name :: string
  th_status :: ThreadStatus
  th_event :: u64

record Process =
  pr_pid :: u64
  pr_name :: string
  pr_pml4 :: u64

record sched =
  sc_heap :: kheap
  sc_evq :: evq
  sc_hw :: hw
  sc_lapic :: lapic
  sc_freq :: u64
  sc_thread :: "u64 \<Rightarrow> Thread"
  sc_process :: "u64 \<Rightarrow> Process"
  tid_counter :: u64
  pid_counter :: u64
  IRQ_disable_counter :: u32
  kernel_process :: u64
  ready_threads :: u64
  finished_threads :: u64
  idle_thread :: u64
  current_thread :: u64

definition STACK_SIZE :: u64 where "STACK_SIZE = 4096 * 4"
definition sizeof_Thread :: u64 where "sizeof_Thread = 136"
definition sizeof_Process :: u64 where "sizeof_Process = 96"

definition upd_thread :: "u64 \<Rightarrow> (Thread \<Rightarrow> Thread) \<Rightarrow> sched \<Rightarrow> sched" where
  "upd_thread t f s = s\<lparr>sc_thread := (sc_thread s)(t := f (sc_thread s t))\<rparr>"

definition upd_event :: "u64 \<Rightarrow> (event \<Rightarrow> event) \<Rightarrow> sched \<Rightarrow> sched" where
  "upd_event e f s = s\<lparr>sc_evq := (sc_evq s)\<lparr>ev := (ev (sc_evq s))(e := f (ev (sc_evq s) e))\<rparr>\<rparr>"

definition process_create :: "string \<Rightarrow> u64 \<Rightarrow> sched \<Rightarrow> (u64 \<times> sched) run" where
  "process_create name pml4 s =
     rbind (kmalloc (sc_heap s) sizeof_Process) (\<lambda>(process, h).
       Some (Inr (process, s\<lparr>sc_heap := h, pid_counter := pid_counter s + 1,
         sc_process := (sc_process s)(process := (sc_process s process)\<lparr>pr_pid := pid_counter s, pr_pml4 := pml4, pr_name := name\<rparr>)\<rparr>)))"

definition sched_event_create :: "sched \<Rightarrow> (u64 \<times> sched) run" where
  "sched_event_create s = rbind (event_create (sc_heap s) (sc_evq s)) (\<lambda>(e, h, q). Some (Inr (e, s\<lparr>sc_heap := h, sc_evq := q\<rparr>)))"

definition thread_kcreate :: "string \<Rightarrow> thread_entry \<Rightarrow> u64 \<Rightarrow> sched \<Rightarrow> (u64 \<times> sched) run" where
  "thread_kcreate name entry proc s =
     rbind (kmalloc (sc_heap s) sizeof_Thread) (\<lambda>(t, h1).
       let s1 = upd_thread t (\<lambda>th. th\<lparr>th_name := name, th_tid := tid_counter s, th_process := proc\<rparr>)
                  (s\<lparr>sc_heap := h1, tid_counter := tid_counter s + 1\<rparr>)
       in rbind (kmalloc (sc_heap s1) STACK_SIZE) (\<lambda>(base, h2).
            let s2 = upd_thread t (\<lambda>th. th\<lparr>th_rsp_base := base, th_rsp := Fresh entry\<rparr>) (s1\<lparr>sc_heap := h2\<rparr>)
            in rbind (sched_event_create s2) (\<lambda>(e, s3).
                 Some (Inr (t, upd_thread t (\<lambda>th. th\<lparr>th_event := e, th_status := THREAD_READY\<rparr>)
                   (upd_event e (\<lambda>v. v\<lparr>ev_owner := t\<rparr>) s3))))))"

section \<open>Scheduler\<close>

definition SCHED_THREAD_QUANTUM :: u64 where "SCHED_THREAD_QUANTUM = 3000000"

definition lock_scheduler :: "sched \<Rightarrow> sched" where
  "lock_scheduler s = s\<lparr>sc_hw := hw_do Cli (sc_hw s), IRQ_disable_counter := IRQ_disable_counter s + 1\<rparr>"

definition unlock_scheduler :: "sched \<Rightarrow> sched" where
  "unlock_scheduler s =
     (let s1 = s\<lparr>IRQ_disable_counter := IRQ_disable_counter s - 1\<rparr>
      in if IRQ_disable_counter s1 = 0 then s1\<lparr>sc_hw := hw_do Sti (sc_hw s1)\<rparr> else s1)"

definition sched_now :: "sched \<Rightarrow> u64 \<times> sched" where
  "sched_now s = (let (t, h) = tsc_read_ns (sc_freq s) (sc_hw s) in (t, s\<lparr>sc_hw := h\<rparr>))"

definition sched_enqueue :: "u64 \<Rightarrow> sched \<Rightarrow> sched run" where
  "sched_enqueue e s = rbind (event_enqueue e (sc_evq s)) (\<lambda>q. Some (Inr (s\<lparr>sc_evq := q\<rparr>)))"

definition make_ready :: "u64 \<Rightarrow> sched \<Rightarrow> sched run" where
  "make_ready t s =
     (let s1 = upd_thread t (\<lambda>th. th\<lparr>th_status := THREAD_READY\<rparr>) s
      in rbind (thread_list_add (sc_heap s1) (ready_threads s1) t) (\<lambda>h. Some (Inr (s1\<lparr>sc_heap := h\<rparr>))))"

definition queue_switch :: "string \<Rightarrow> sched \<Rightarrow> sched run" where
  "queue_switch kind s =
     (let (now, s1) = sched_now s;
          e = th_event (sc_thread s1 (current_thread s1));
          s2 = upd_event e (\<lambda>v. v\<lparr>ev_time := now + SCHED_THREAD_QUANTUM, ev_callback := Callback_switch_thread,
                 ev_callback_arg := 0, ev_kind := kind\<rparr>) s1
      in sched_enqueue e s2)"

definition maybe_reschedule_thread :: "u64 \<Rightarrow> sched \<Rightarrow> sched run" where
  "maybe_reschedule_thread thread s =
     (let s1 = lock_scheduler s
      in rbind (if thread \<noteq> idle_thread s1 \<and> th_status (sc_thread s1 thread) \<in> {THREAD_READY, THREAD_RUNNING}
                then make_ready thread s1 else Some (Inr s1)) (\<lambda>s2.
           rbind (queue_switch ''switch'' s2) (\<lambda>s3. Some (Inr (unlock_scheduler s3)))))"

definition get_next_thread :: "sched \<Rightarrow> (u64 \<times> sched) run" where
  "get_next_thread s =
     rbind (Some (thread_list_get_next (sc_heap s) (ready_threads s))) (\<lambda>(ready_t, h).
       let s1 = s\<lparr>sc_heap := h\<rparr>
       in if ready_t \<noteq> 0 then Some (Inr (ready_t, s1)) else Some (Inr (idle_thread s1, s1)))"

text \<open>\<open>switch_context\<close> saves where the old thread continues and yields where the new one does.\<close>

definition switch_context :: "resume \<Rightarrow> u64 \<Rightarrow> u64 \<Rightarrow> sched \<Rightarrow> resume \<times> sched" where
  "switch_context k old new s =
     (let s1 = upd_thread old (\<lambda>th. th\<lparr>th_rsp := k\<rparr>) s in (th_rsp (sc_thread s1 new), s1))"

text \<open>\<open>switch_thread\<close> called with continuation \<open>k\<close>. If it switches, what follows runs on the stack of the new thread: the rest
  of its own call of \<open>switch_thread\<close>, or \<open>init_thread\<close> if it is new. Both begin with \<open>maybe_reschedule_thread(old)\<close>; the
  result tells where the new thread goes on.\<close>

definition switch_thread :: "resume \<Rightarrow> sched \<Rightarrow> (resume \<times> sched) run" where
  "switch_thread k s =
     (let this = current_thread s
      in rbind (get_next_thread s) (\<lambda>(nxt, s1).
           if nxt = current_thread s1 then rbind (queue_switch ''switch same'' s1) (\<lambda>s2. Some (Inr (k, s2)))
           else
             let s2 = upd_thread nxt (\<lambda>th. th\<lparr>th_status := THREAD_RUNNING\<rparr>) (s1\<lparr>current_thread := nxt\<rparr>);
                 (k', s3) = switch_context k this nxt s2
             in rbind (maybe_reschedule_thread this s3) (\<lambda>s4. Some (Inr (k', s4)))))"

definition timer_fire_at :: "u64 \<Rightarrow> sched \<Rightarrow> sched" where
  "timer_fire_at time s =
     (let (now, s1) = sched_now s in s1\<lparr>sc_hw := lapic_timer_one_shot (sc_lapic s1) (time - now) 32 (sc_hw s1)\<rparr>)"

definition thread_wake :: "u64 \<Rightarrow> sched \<Rightarrow> sched run" where
  "thread_wake t s =
     rbind (Some (kassert (th_status (sc_thread s t) = THREAD_SLEEPING) ''trying to wake an already awake thread''))
       (\<lambda>_. make_ready t s)"

definition sched_eoi :: "sched \<Rightarrow> sched" where
  "sched_eoi s = s\<lparr>sc_hw := lapic_eoi (sc_lapic s) (sc_hw s)\<rparr>"

text \<open>The end of \<open>handle_next_event\<close>: arm the timer for the first event in the queue.\<close>

definition arm_next :: "sched \<Rightarrow> sched run" where
  "arm_next s =
     (case event_peek_next (sc_evq s) of
        None \<Rightarrow> None
      | Some nxt \<Rightarrow> Some (Inr (if nxt \<noteq> 0 then timer_fire_at (ev_time (ev (sc_evq s) nxt)) s else s)))"

text \<open>One pass of the loop of \<open>handle_next_event\<close>: \<open>None\<close> if the loop is left, otherwise where control goes on.\<close>

definition event_step :: "sched \<Rightarrow> (resume option \<times> sched) run" where
  "event_step s =
     (case event_peek_next (sc_evq s) of
        None \<Rightarrow> None
      | Some event \<Rightarrow>
          if event = 0 then Some (Inr (None, s))
          else
            let (now, s1) = sched_now s
            in if ev_time (ev (sc_evq s1) event) > now then Some (Inr (None, s1))
               else (case event_remove event (sc_evq s1) of
                  None \<Rightarrow> None
                | Some q \<Rightarrow>
                    let s2 = s1\<lparr>sc_evq := q\<rparr>
                    in case ev_callback (ev q event) of
                         Callback_switch_thread \<Rightarrow> rbind (switch_thread InHandler s2) (\<lambda>(k, s3). Some (Inr (Some k, s3)))
                       | Callback_thread_wake \<Rightarrow> rbind (thread_wake (ev_callback_arg (ev q event)) s2) (\<lambda>s3. Some (Inr (Some InHandler, s3)))
                       | Callback_NULL \<Rightarrow> Some (Inl (KPanic ''call through a null pointer''))))"

text \<open>A thread resumed in \<open>thread_yield\<close> leaves the loop without arming the timer; a new thread enters \<open>handle_next_event\<close> again.\<close>

partial_function (option) event_loop :: "sched \<Rightarrow> sched run" where
  "event_loop s =
     (case event_step s of
        None \<Rightarrow> None
      | Some (Inl e) \<Rightarrow> Some (Inl e)
      | Some (Inr (None, s1)) \<Rightarrow> arm_next s1
      | Some (Inr (Some InHandler, s1)) \<Rightarrow> event_loop s1
      | Some (Inr (Some (Fresh _), s1)) \<Rightarrow> event_loop (sched_eoi s1)
      | Some (Inr (Some InYield, s1)) \<Rightarrow> Some (Inr s1))"

definition handle_next_event :: "sched \<Rightarrow> sched run" where
  "handle_next_event s = event_loop (sched_eoi s)"

definition continue_at :: "resume \<Rightarrow> sched \<Rightarrow> sched run" where
  "continue_at k s = (case k of InYield \<Rightarrow> Some (Inr s) | InHandler \<Rightarrow> event_loop s | Fresh _ \<Rightarrow> handle_next_event s)"

definition thread_yield :: "sched \<Rightarrow> sched run" where
  "thread_yield s = rbind (switch_thread InYield s) (\<lambda>(k, s1). continue_at k s1)"

definition thread_sleep :: "u64 \<Rightarrow> sched \<Rightarrow> sched run" where
  "thread_sleep time s =
     (let s1 = lock_scheduler s;
          (now, s2) = sched_now s1;
          wake_time = now + time;
          t = current_thread s2;
          s3 = upd_thread t (\<lambda>th. th\<lparr>th_status := THREAD_SLEEPING\<rparr>) s2;
          e = th_event (sc_thread s3 t);
          s4 = upd_event e (\<lambda>v. v\<lparr>ev_time := wake_time, ev_callback := Callback_thread_wake, ev_callback_arg := t, ev_kind := ''wake''\<rparr>) s3
      in rbind (sched_enqueue e s4) (\<lambda>s5. thread_yield (unlock_scheduler s5)))"

text \<open>One round of the endless loop of each thread.\<close>

definition one :: "sched \<Rightarrow> sched run" where
  "one s = thread_sleep (from_ms 1000) s"

definition two :: "sched \<Rightarrow> sched run" where
  "two s = thread_sleep (from_ms 3000) s"

definition idle :: "sched \<Rightarrow> sched" where
  "idle s = s\<lparr>sc_hw := hw_do Pause (sc_hw s)\<rparr>"

definition reap :: "sched \<Rightarrow> (u64 list \<times> sched) run" where
  "reap s = rbind (reap_round (sc_heap s) (finished_threads s)) (\<lambda>(ts, h). Some (Inr (ts, s\<lparr>sc_heap := h\<rparr>)))"

definition sched_new_list :: "sched \<Rightarrow> (u64 \<times> sched) run" where
  "sched_new_list s = rbind (thread_list_new (sc_heap s)) (\<lambda>(l, h). Some (Inr (l, s\<lparr>sc_heap := h\<rparr>)))"

definition sched_add_ready :: "u64 \<Rightarrow> sched \<Rightarrow> sched run" where
  "sched_add_ready t s = rbind (thread_list_add (sc_heap s) (ready_threads s) t) (\<lambda>h. Some (Inr (s\<lparr>sc_heap := h\<rparr>)))"

text \<open>\<open>sched_init\<close>: the threads after the initial one, everything up to the call of \<open>handle_next_event\<close>, and the whole of it.\<close>

definition sched_start_threads :: "u64 \<Rightarrow> u64 \<Rightarrow> sched \<Rightarrow> sched run" where
  "sched_start_threads p init_thread s6 =
     rbind (thread_kcreate ''idle'' Entry_idle p s6) (\<lambda>(t_idle, s7).
     rbind (thread_kcreate ''one'' Entry_one p (s7\<lparr>idle_thread := t_idle\<rparr>)) (\<lambda>(t_one, s8).
     rbind (thread_kcreate ''two'' Entry_two p s8) (\<lambda>(t_two, s9).
     rbind (sched_add_ready t_one s9) (\<lambda>s10.
     rbind (sched_add_ready t_two s10) (\<lambda>s11.
     let s12 = upd_event (th_event (sc_thread s11 init_thread)) (\<lambda>v. v\<lparr>ev_callback := Callback_switch_thread\<rparr>)
                 (s11\<lparr>current_thread := init_thread\<rparr>)
     in sched_enqueue (th_event (sc_thread s12 init_thread)) s12)))))"

definition sched_setup :: "u64 \<Rightarrow> sched \<times> interrupts \<Rightarrow> (sched \<times> interrupts) run" where
  "sched_setup pml4 = (\<lambda>(s0, ints).
     rbind (sched_new_list s0) (\<lambda>(l1, s1).
     rbind (sched_new_list (s1\<lparr>ready_threads := l1\<rparr>)) (\<lambda>(l2, s2).
     rbind (process_create ''kernel'' pml4 (s2\<lparr>finished_threads := l2\<rparr>)) (\<lambda>(p, s3).
     rbind (kmalloc (sc_heap s3) sizeof_Thread) (\<lambda>(init_thread, h).
     let s4 = upd_thread init_thread (\<lambda>th. th\<lparr>th_name := ''init''\<rparr>) (s3\<lparr>kernel_process := p, sc_heap := h\<rparr>) in
     rbind (sched_event_create s4) (\<lambda>(e, s5).
     let s6 = upd_thread init_thread (\<lambda>th. th\<lparr>th_event := e, th_status := THREAD_DONE\<rparr>) s5 in
     rbind (sched_start_threads p init_thread s6) (\<lambda>s13.
     Some (Inr (s13, interrupts_set_handler 32 handle_next_event_handler ints)))))))))"

definition sched_init :: "u64 \<Rightarrow> sched \<times> interrupts \<Rightarrow> (sched \<times> interrupts) run" where
  "sched_init pml4 si =
     rbind (sched_setup pml4 si) (\<lambda>(s, ints). rbind (handle_next_event s) (\<lambda>s'. Some (Inr (s', ints))))"

end
