(* ===== verification/Sched_Inv.thy ===== *)
theory Sched_Inv
  imports Sched
begin

text \<open>
  The invariant of the scheduler: every thread is in exactly one place (current, in the ready list, or asleep with its wake event
  queued), and each operation of \<open>sched.c\<close> keeps it. The ready list enters through the interface \<open>thread_queue\<close>, the event queue
  through \<open>timer_queue\<close>.
\<close>

section \<open>The ready list as a queue\<close>

locale thread_queue =
  fixes add :: "'h \<Rightarrow> u64 \<Rightarrow> u64 \<Rightarrow> 'h run" and take_next :: "'h \<Rightarrow> u64 \<Rightarrow> halt + u64 \<times> 'h"
    and rep :: "'h \<Rightarrow> u64 \<Rightarrow> u64 list \<Rightarrow> bool"
  assumes add_law: "rep h l ts \<Longrightarrow> add h l t = Some (Inl oom) \<or> (\<exists>h'. add h l t = Some (Inr h') \<and> rep h' l (ts @ [t]))"
    and next_law: "rep h l (t # ts) \<Longrightarrow> \<exists>h'. take_next h l = Inr (t, h') \<and> rep h' l ts"
    and empty_law: "rep h l [] \<Longrightarrow> take_next h l = Inr (0, h)"
begin

lemma add_cases:
  assumes "rep h l ts"
  obtains "add h l t = Some (Inl oom)" | h' where "add h l t = Some (Inr h')" "rep h' l (ts @ [t])"
  using add_law [OF assms] by blast

text \<open>Taking from the queue yields the oldest entry, or the null pointer.\<close>

lemma next_oldest:
  assumes "rep h l ts"
  obtains h' where "take_next h l = Inr (if ts = [] then 0 else hd ts, h')" "rep h' l (tl ts)"
  using assms next_law [of h l "hd ts" "tl ts"] empty_law [of h l] by (cases ts) auto

end

definition rdy :: "kheap \<Rightarrow> u64 \<Rightarrow> u64 list \<Rightarrow> bool" where
  "rdy h l ts \<longleftrightarrow> (\<exists>ns. tl_rep h l ns ts)"

interpretation rq: thread_queue thread_list_add thread_list_get_next rdy
proof unfold_locales
  fix h l ts t assume "rdy h l ts"
  then show "thread_list_add h l t = Some (Inl oom) \<or> (\<exists>h'. thread_list_add h l t = Some (Inr h') \<and> rdy h' l (ts @ [t]))"
    using thread_list_add_spec [of h l _ ts t] unfolding rdy_def by blast
next
  fix h l t ts assume "rdy h l (t # ts)"
  then obtain ns where ns: "tl_rep h l ns (t # ts)" by (auto simp: rdy_def)
  then obtain p ns' where "ns = p # ns'" using tl_rep_length [OF ns] by (cases ns) auto
  then show "\<exists>h'. thread_list_get_next h l = Inr (t, h') \<and> rdy h' l ts"
    using thread_list_get_next_spec [of h l p ns' t ts] ns unfolding rdy_def by blast
next
  fix h l assume "rdy h l []"
  then obtain ns where ns: "tl_rep h l ns []" by (auto simp: rdy_def)
  then show "thread_list_get_next h l = Inr (0, h)" using tl_rep_length [OF ns] thread_list_get_next_empty by auto
qed

section \<open>Where threads are\<close>

definition waking :: "(u64 \<Rightarrow> event) \<Rightarrow> u64 list \<Rightarrow> u64 \<Rightarrow> bool" where
  "waking e xs a \<longleftrightarrow> a \<in> set xs \<and> ev_callback (e a) = Callback_thread_wake"

text \<open>Of the threads \<open>T\<close>, the ready ones other than the idle thread are exactly those in the ready list, each once; the sleeping
  ones exactly those with a wake event queued for them; a running one is the current thread, or one in \<open>L\<close> that is being switched
  away from. Every queued event is the event of a thread.\<close>

definition placed :: "u64 set \<Rightarrow> u64 set \<Rightarrow> u64 \<Rightarrow> u64 \<Rightarrow> (u64 \<Rightarrow> Thread) \<Rightarrow> (u64 \<Rightarrow> event) \<Rightarrow> u64 list \<Rightarrow> u64 list \<Rightarrow> bool" where
  "placed T L i c th e xs rs \<longleftrightarrow>
     0 \<notin> T \<and> i \<in> T \<and> c \<in> T \<and> inj_on (\<lambda>t. th_event (th t)) T \<and> (\<forall>t\<in>T. th_event (th t) \<noteq> 0) \<and>
     set xs \<subseteq> (\<lambda>t. th_event (th t)) ` T \<and> (\<forall>x\<in>set xs. ev_callback (e x) \<noteq> Callback_NULL) \<and>
     distinct rs \<and> set rs \<subseteq> T - {i, c} \<and> th_status (th i) \<in> {THREAD_READY, THREAD_RUNNING} \<and>
     (\<forall>t\<in>T - {i}. th_status (th t) = THREAD_READY \<longleftrightarrow> t \<in> set rs) \<and>
     (\<forall>t\<in>T - {i}. th_status (th t) = THREAD_RUNNING \<longrightarrow> t \<in> insert c L) \<and>
     (\<forall>t\<in>T. th_status (th t) = THREAD_SLEEPING \<longleftrightarrow> waking e xs (th_event (th t))) \<and>
     (\<forall>t\<in>T. waking e xs (th_event (th t)) \<longrightarrow> ev_callback_arg (e (th_event (th t))) = t)"

definition sched_ok :: "u64 set \<Rightarrow> u64 set \<Rightarrow> sched \<Rightarrow> u64 list \<Rightarrow> u64 list \<Rightarrow> bool" where
  "sched_ok T L s xs rs \<longleftrightarrow>
     rdy (sc_heap s) (ready_threads s) rs \<and> evq_rep (sc_evq s) xs \<and> by_time (sc_evq s) xs \<and>
     placed T L (idle_thread s) (current_thread s) (sc_thread s) (ev (sc_evq s)) xs rs"

text \<open>The invariant between operations: the current thread has its own switch event queued and the scheduler is unlocked.\<close>

abbreviation "cur s \<equiv> sc_thread s (current_thread s)"

definition sched_inv :: "u64 set \<Rightarrow> sched \<Rightarrow> bool" where
  "sched_inv T s \<longleftrightarrow> (\<exists>xs rs. sched_ok T {} s xs rs \<and> th_status (cur s) \<noteq> THREAD_SLEEPING \<and> th_event (cur s) \<in> set xs \<and>
     IRQ_disable_counter s = 0)"

text \<open>What every operation keeps, with at most \<open>n\<close> hardware operations in between, none of which touches a device.\<close>

definition later :: "nat \<Rightarrow> sched \<Rightarrow> sched \<Rightarrow> bool" where
  "later n s s' \<longleftrightarrow> sc_freq s' = sc_freq s \<and> sc_lapic s' = sc_lapic s \<and> idle_thread s' = idle_thread s \<and>
     ready_threads s' = ready_threads s \<and> dev (sc_hw s') = dev (sc_hw s) \<and>
     (\<exists>es. io (sc_hw s') = io (sc_hw s) @ es \<and> length es \<le> n \<and> set es \<subseteq> {Cli, Sti, Rdtsc}) \<and> (\<forall>t. th_event (sc_thread s' t) = th_event (sc_thread s t))"

lemma later_trans: "later m s s' \<Longrightarrow> later n s' s'' \<Longrightarrow> m + n \<le> k \<Longrightarrow> later k s s''"
  by (auto simp: later_def)

definition now :: "sched \<Rightarrow> u64" where
  "now s = tsc_ticks_to_ns (sc_freq s) (dev (sc_hw s) (io (sc_hw s)) Rdtsc)"

lemma sched_now_eq: "sched_now s = (now s, s\<lparr>sc_hw := hw_do Rdtsc (sc_hw s)\<rparr>)"
  by (simp add: sched_now_def tsc_read_ns_def tsc_read_def hw_ask_def now_def hw_do_def)

lemma upd_simps [simp]:
  "sc_heap (upd_thread t f s) = sc_heap s" "sc_evq (upd_thread t f s) = sc_evq s" "sc_hw (upd_thread t f s) = sc_hw s"
  "sc_thread (upd_thread t f s) = (sc_thread s)(t := f (sc_thread s t))" "idle_thread (upd_thread t f s) = idle_thread s"
  "ready_threads (upd_thread t f s) = ready_threads s" "current_thread (upd_thread t f s) = current_thread s"
  "IRQ_disable_counter (upd_thread t f s) = IRQ_disable_counter s" "sc_freq (upd_thread t f s) = sc_freq s" "sc_lapic (upd_thread t f s) = sc_lapic s"
  "sc_heap (upd_event a g s) = sc_heap s" "sc_thread (upd_event a g s) = sc_thread s" "sc_hw (upd_event a g s) = sc_hw s"
  "sc_evq (upd_event a g s) = (sc_evq s)\<lparr>ev := (ev (sc_evq s))(a := g (ev (sc_evq s) a))\<rparr>" "idle_thread (upd_event a g s) = idle_thread s"
  "ready_threads (upd_event a g s) = ready_threads s" "current_thread (upd_event a g s) = current_thread s"
  "IRQ_disable_counter (upd_event a g s) = IRQ_disable_counter s" "sc_freq (upd_event a g s) = sc_freq s" "sc_lapic (upd_event a g s) = sc_lapic s"
  by (simp_all add: upd_thread_def upd_event_def)

section \<open>The operations keep it\<close>

lemma requeue_spec:
  assumes rep: "evq_rep q xs" "by_time q xs" and a: "a \<noteq> 0"
    and e: "ev_left e = ev_left (ev q a)" "ev_right e = ev_right (ev q a)" "ev_parent e = ev_parent (ev q a)" "ev_enqueued e = ev_enqueued (ev q a)"
  obtains q' ys where "event_enqueue a (q\<lparr>ev := (ev q)(a := e)\<rparr>) = Some (Inr q')" "evq_rep q' ys" "by_time q' ys"
    "set ys = insert a (set xs)" "ev_data (ev q' a) = ev_data e" "\<And>b. b \<noteq> a \<Longrightarrow> ev_data (ev q' b) = ev_data (ev q b)"
proof -
  let ?q = "q\<lparr>ev := (ev q)(a := e)\<rparr>" and ?ys = "remove1 a xs"
  have d: "a \<notin> set ?ys" using rep(1) by (simp add: evq_rep_def)
  have r: "evq_rep ?q xs" using evq_rep_payload [OF rep(1) e] .
  have "sorted (map (\<lambda>b. ev_time (ev q b)) ?ys)" using rep(2) by (simp add: by_time_def sorted_map_remove1)
  moreover have "map (\<lambda>b. ev_time (ev ?q b)) ?ys = map (\<lambda>b. ev_time (ev q b)) ?ys" using d by (intro map_cong) auto
  ultimately have srt: "sorted (map (\<lambda>b. ev_time (ev ?q b)) ?ys)" by (simp only:)
  let ?f = "\<lambda>b. ev_time (ev ?q b)"
  show thesis
  proof (rule tq.enqueue_keeps [OF r a srt])
    fix q'
    assume q': "event_enqueue a ?q = Some (Inr q')" "evq_rep q' (ins_after ?f a ?ys)" "same_payload ?q q'"
      "sorted (map (\<lambda>a. ev_time (ev q' a)) (ins_after ?f a ?ys))" "set (ins_after ?f a ?ys) = insert a (set xs)"
    then show thesis using that [of q' "ins_after ?f a ?ys"] by (auto simp: by_time_def same_payload_def)
  qed
qed


lemma evd:
  assumes "ev_data d = ev_data e"
  shows "ev_callback d = ev_callback e" "ev_callback_arg d = ev_callback_arg e" "ev_time d = ev_time e"
  using assms by (auto simp: ev_data_def)

text \<open>The current thread's event becomes a switch event.\<close>

lemma placed_switch_event:
  assumes "placed T L i c th e xs rs" "th_status (th c) \<noteq> THREAD_SLEEPING" "set ys = insert a (set xs)" "a = th_event (th c)"
    "ev_callback (e' a) = Callback_switch_thread" "\<And>b. b \<noteq> a \<Longrightarrow> ev_callback (e' b) = ev_callback (e b) \<and> ev_callback_arg (e' b) = ev_callback_arg (e b)"
  shows "placed T L i c th e' ys rs"
proof -
  note p = assms(1) [unfolded placed_def]
  have c: "c \<in> T" "inj_on (\<lambda>t. th_event (th t)) T" using p by blast+
  have w: "waking e' ys (th_event (th t)) \<longleftrightarrow> waking e xs (th_event (th t))" if t: "t \<in> T" for t
  proof (cases "t = c")
    case True
    then show ?thesis using assms(2,4,5) c(1) p by (auto simp: waking_def)
  next
    case False
    then have "th_event (th t) \<noteq> a" using c t assms(4) by (auto dest: inj_onD)
    then show ?thesis using assms(3) assms(6) [of "th_event (th t)"] by (simp add: waking_def)
  qed
  have n: "ev_callback_arg (e' (th_event (th t))) = t" if "t \<in> T" "waking e xs (th_event (th t))" for t
  proof -
    have "th_event (th t) \<noteq> a" using w [OF that(1)] that(2) assms(5) by (auto simp: waking_def)
    then show ?thesis using assms(6) p that by simp
  qed
  have "set ys \<subseteq> (\<lambda>t. th_event (th t)) ` T" using p assms(3,4) by auto
  moreover have "ev_callback (e' x) \<noteq> Callback_NULL" if "x \<in> set ys" for x
    using that p assms(3,5) assms(6) [of x] by (cases "x = a") auto
  ultimately show ?thesis using p w n unfolding placed_def by auto
qed

lemma queue_switch_ok:
  assumes ok: "sched_ok T L s xs rs" and aw: "th_status (cur s) \<noteq> THREAD_SLEEPING"
  obtains s' ys where "queue_switch kind s = Some (Inr s')" "sched_ok T L s' ys rs" "set ys = insert (th_event (cur s)) (set xs)"
    "ev_time (ev (sc_evq s') (th_event (cur s))) = now s + SCHED_THREAD_QUANTUM"
    "\<forall>b. b \<noteq> th_event (cur s) \<longrightarrow> ev_time (ev (sc_evq s') b) = ev_time (ev (sc_evq s) b)"
    "current_thread s' = current_thread s" "sc_thread s' = sc_thread s" "IRQ_disable_counter s' = IRQ_disable_counter s" "later 1 s s'"
proof -
  let ?a = "th_event (cur s)"
  let ?e = "(ev (sc_evq s) ?a)\<lparr>ev_time := now s + SCHED_THREAD_QUANTUM, ev_callback := Callback_switch_thread, ev_callback_arg := 0, ev_kind := kind\<rparr>"
  note o = ok [unfolded sched_ok_def]
  have a: "?a \<noteq> 0" using o by (simp add: placed_def)
  obtain q' ys where q: "event_enqueue ?a ((sc_evq s)\<lparr>ev := (ev (sc_evq s))(?a := ?e)\<rparr>) = Some (Inr q')" "evq_rep q' ys" "by_time q' ys"
    "set ys = insert ?a (set xs)" "ev_data (ev q' ?a) = ev_data ?e" "\<And>b. b \<noteq> ?a \<Longrightarrow> ev_data (ev q' b) = ev_data (ev (sc_evq s) b)"
    using requeue_spec [of "sc_evq s" xs ?a ?e] o a by auto
  have p0: "placed T L (idle_thread s) (current_thread s) (sc_thread s) (ev (sc_evq s)) xs rs" using o by simp
  have pl: "placed T L (idle_thread s) (current_thread s) (sc_thread s) (ev q') ys rs"
    by (rule placed_switch_event [OF p0 aw q(4) refl]) (use evd [OF q(5)] evd [OF q(6)] in auto)
  let ?s = "s\<lparr>sc_hw := hw_do Rdtsc (sc_hw s), sc_evq := q'\<rparr>"
  have "queue_switch kind s = Some (Inr ?s)"
    using q(1) by (simp add: queue_switch_def sched_now_eq sched_enqueue_def upd_event_def)
  moreover have "sched_ok T L ?s ys rs" using o q pl by (simp add: sched_ok_def)
  moreover have "later 1 s ?s" by (simp add: later_def)
  ultimately show thesis using that [of ?s ys] q(4) evd [OF q(5)] evd [OF q(6)] by simp
qed


text \<open>A thread that is neither ready nor current, and has no wake event queued, becomes ready.\<close>

lemma placed_make_ready:
  assumes p: "placed T L i c th e xs rs" and t: "t \<in> T" "t \<noteq> i" "t \<noteq> c" "th_status (th t) \<notin> {THREAD_READY, THREAD_SLEEPING}"
  shows "placed T (L - {t}) i c (th(t := (th t)\<lparr>th_status := THREAD_READY\<rparr>)) e xs (rs @ [t])"
proof -
  let ?th = "th(t := (th t)\<lparr>th_status := THREAD_READY\<rparr>)"
  note q = p [unfolded placed_def]
  have ev: "th_event (?th u) = th_event (th u)" for u by simp
  have "t \<notin> set rs" using q t by auto
  moreover have "\<not> waking e xs (th_event (th t))" using q t by auto
  ultimately show ?thesis using q t unfolding placed_def ev by auto
qed

text \<open>The thread a due wake event belongs to becomes ready.\<close>

lemma placed_wake:
  assumes p: "placed T L i c th e (x # xs) rs" and x: "ev_callback (e x) = Callback_thread_wake" "distinct (x # xs)" "x \<notin> set xs"
    and c: "th_status (th c) \<noteq> THREAD_SLEEPING"
    and e': "\<And>b. ev_callback (e' b) = ev_callback (e b) \<and> ev_callback_arg (e' b) = ev_callback_arg (e b)"
  defines "t \<equiv> ev_callback_arg (e x)"
  shows "t \<in> T \<and> t \<noteq> i \<and> t \<noteq> c \<and> th_event (th t) = x \<and> th_status (th t) = THREAD_SLEEPING \<and>
    placed T L i c (th(t := (th t)\<lparr>th_status := THREAD_READY\<rparr>)) e' xs (rs @ [t])"
proof -
  let ?th = "th(t := (th t)\<lparr>th_status := THREAD_READY\<rparr>)"
  note q = p [unfolded placed_def]
  obtain u where u: "u \<in> T" "x = th_event (th u)" using q by auto
  have "waking e (x # xs) (th_event (th u))" using u x by (simp add: waking_def)
  then have ut: "u = t" "th_status (th t) = THREAD_SLEEPING" using q u by (auto simp: t_def)
  have ev: "th_event (?th v) = th_event (th v)" for v by simp
  have ti: "t \<noteq> i" using q ut(2) by auto
  have tc: "t \<noteq> c" using c ut(2) by auto
  have "th_status (th t) = THREAD_READY \<longleftrightarrow> t \<in> set rs" using q u(1) ut(1) ti by blast
  then have tr: "t \<notin> set rs" using ut(2) by simp
  have other: "th_event (th v) \<noteq> x" if "v \<in> T" "v \<noteq> t" for v
    using that u ut(1) q by (auto dest: inj_onD)
  have w: "waking e' xs (th_event (th v)) \<longleftrightarrow> waking e (x # xs) (th_event (th v)) \<and> v \<noteq> t" if "v \<in> T" for v
    using that other [OF that] e' x(3) u(2) ut(1) by (cases "v = t") (auto simp: waking_def)
  have "placed T L i c ?th e' xs (rs @ [t])"
    unfolding placed_def ev using q u ut ti tc tr w e' by (auto simp: w)
  then show ?thesis using u ut ti tc by simp
qed

lemma placed_drop_switch:
  assumes p: "placed T L i c th e (x # xs) rs" and x: "ev_callback (e x) \<noteq> Callback_thread_wake"
    and e': "\<And>b. ev_callback (e' b) = ev_callback (e b) \<and> ev_callback_arg (e' b) = ev_callback_arg (e b)"
  shows "placed T L i c th e' xs rs"
proof -
  have "waking e' xs a = waking e (x # xs) a" for a using x e' by (auto simp: waking_def)
  then show ?thesis using p e' unfolding placed_def by auto
qed

text \<open>The next thread becomes current.\<close>

lemma placed_switch:
  assumes p: "placed T {} i c th e xs rs" and n: "n = (if rs = [] then i else hd rs)" "n \<noteq> c"
  shows "placed T {c} i n (th(n := (th n)\<lparr>th_status := THREAD_RUNNING\<rparr>)) e xs (tl rs) \<and> n \<in> T \<and> th_status (th n) \<noteq> THREAD_SLEEPING"
proof -
  let ?th = "th(n := (th n)\<lparr>th_status := THREAD_RUNNING\<rparr>)"
  note q = p [unfolded placed_def]
  have ev: "th_event (?th v) = th_event (th v)" for v by simp
  have nT: "n \<in> T" using q n by (cases rs) auto
  have ns: "th_status (th n) \<in> {THREAD_READY, THREAD_RUNNING}" using q n by (cases rs) auto
  have "\<not> waking e xs (th_event (th n))" using q nT ns by auto
  then have "placed T {c} i n ?th e xs (tl rs)"
    unfolding placed_def ev using q n nT by (cases rs) auto
  then show ?thesis using nT ns by auto
qed


text \<open>What a queue of events and the clock look like after an operation queued the current thread's switch event: \<open>s1\<close> is where
  the clock was read.\<close>

definition requeued :: "sched \<Rightarrow> u64 list \<Rightarrow> sched \<Rightarrow> u64 list \<Rightarrow> bool" where
  "requeued s xs s' ys \<longleftrightarrow> th_status (cur s') \<noteq> THREAD_SLEEPING \<and> set ys = insert (th_event (cur s')) (set xs) \<and>
     (\<exists>s1. later 1 s s1 \<and> ev_time (ev (sc_evq s') (th_event (cur s'))) = now s1 + SCHED_THREAD_QUANTUM) \<and>
     (\<forall>b. b \<noteq> th_event (cur s') \<longrightarrow> ev_time (ev (sc_evq s') b) = ev_time (ev (sc_evq s) b)) \<and>
     IRQ_disable_counter s' = IRQ_disable_counter s"

lemma later_refl [simp]: "later n s s"
  by (simp add: later_def)

lemma make_ready_ok:
  assumes ok: "sched_ok T L s xs rs" and t: "t \<in> T" "t \<noteq> idle_thread s" "t \<noteq> current_thread s" "th_status (sc_thread s t) \<notin> {THREAD_READY, THREAD_SLEEPING}"
  obtains "make_ready t s = Some (Inl oom)"
    | s' where "make_ready t s = Some (Inr s')" "sched_ok T (L - {t}) s' xs (rs @ [t])"
      "\<And>u. u \<noteq> t \<Longrightarrow> sc_thread s' u = sc_thread s u" "current_thread s' = current_thread s" "sc_evq s' = sc_evq s"
      "IRQ_disable_counter s' = IRQ_disable_counter s" "later 0 s s'" "sc_hw s' = sc_hw s"
proof -
  let ?s1 = "upd_thread t (\<lambda>th. th\<lparr>th_status := THREAD_READY\<rparr>) s"
  note o = ok [unfolded sched_ok_def]
  have pl: "placed T (L - {t}) (idle_thread s) (current_thread s) (sc_thread ?s1) (ev (sc_evq s)) xs (rs @ [t])"
    using placed_make_ready [of T L _ _ _ _ xs rs t] o t by simp
  from o have "rdy (sc_heap s) (ready_threads s) rs" by simp
  then show thesis
  proof (cases rule: rq.add_cases [of _ _ _ t])
    case 1
    then show thesis by (intro that(1)) (simp add: make_ready_def)
  next
    case (2 h')
    show thesis
      by (rule that(2) [of "?s1\<lparr>sc_heap := h'\<rparr>"]) (use 2 o pl in \<open>simp_all add: make_ready_def sched_ok_def later_def\<close>)
  qed
qed

lemma lock_ok [simp]:
  "sched_ok T L (lock_scheduler s) xs rs = sched_ok T L s xs rs" "sched_ok T L (unlock_scheduler s) xs rs = sched_ok T L s xs rs"
  "sc_thread (lock_scheduler s) = sc_thread s" "sc_thread (unlock_scheduler s) = sc_thread s"
  "current_thread (lock_scheduler s) = current_thread s" "current_thread (unlock_scheduler s) = current_thread s"
  "idle_thread (lock_scheduler s) = idle_thread s" "sc_evq (lock_scheduler s) = sc_evq s" "sc_evq (unlock_scheduler s) = sc_evq s"
  "IRQ_disable_counter (lock_scheduler s) = IRQ_disable_counter s + 1" "IRQ_disable_counter (unlock_scheduler s) = IRQ_disable_counter s - 1"
  "later (Suc 0) s (lock_scheduler s)" "later (Suc 0) s (unlock_scheduler s)"
  by (simp_all add: sched_ok_def lock_scheduler_def unlock_scheduler_def later_def Let_def)

lemma maybe_reschedule_ok:
  assumes ok: "sched_ok T {old} s xs rs" and old: "old \<in> T" "old \<noteq> current_thread s" and aw: "th_status (cur s) \<noteq> THREAD_SLEEPING"
    and nr: "old \<noteq> idle_thread s \<Longrightarrow> th_status (sc_thread s old) \<noteq> THREAD_READY"
  obtains "maybe_reschedule_thread old s = Some (Inl oom)"
    | s' ys where "maybe_reschedule_thread old s = Some (Inr s')"
      "sched_ok T {} s' ys (if old \<noteq> idle_thread s \<and> th_status (sc_thread s old) = THREAD_RUNNING then rs @ [old] else rs)"
      "requeued s xs s' ys" "current_thread s' = current_thread s" "later 3 s s'"
proof -
  note result = that
  let ?l = "lock_scheduler s"
  let ?go = "old \<noteq> idle_thread s \<and> th_status (sc_thread s old) = THREAD_RUNNING"
  have cond: "(old \<noteq> idle_thread ?l \<and> th_status (sc_thread ?l old) \<in> {THREAD_READY, THREAD_RUNNING}) = ?go" using nr by auto
  have fin: thesis
    if s2: "(if ?go then make_ready old ?l else Some (Inr ?l)) = Some (Inr s2)" and o2: "sched_ok T {} s2 xs (if ?go then rs @ [old] else rs)"
      and k: "sc_thread s2 (current_thread s) = cur s" "current_thread s2 = current_thread s" "sc_evq s2 = sc_evq s"
        "IRQ_disable_counter s2 = IRQ_disable_counter s + 1" "later 1 s s2" for s2
  proof -
    have "th_status (cur s2) \<noteq> THREAD_SLEEPING" using aw k by simp
    then obtain s3 ys where s3: "queue_switch ''switch'' s2 = Some (Inr s3)" "sched_ok T {} s3 ys (if ?go then rs @ [old] else rs)"
      "set ys = insert (th_event (cur s2)) (set xs)" "ev_time (ev (sc_evq s3) (th_event (cur s2))) = now s2 + SCHED_THREAD_QUANTUM"
      "\<forall>b. b \<noteq> th_event (cur s2) \<longrightarrow> ev_time (ev (sc_evq s3) b) = ev_time (ev (sc_evq s2) b)"
      "current_thread s3 = current_thread s2" "sc_thread s3 = sc_thread s2" "IRQ_disable_counter s3 = IRQ_disable_counter s2" "later 1 s2 s3"
      using queue_switch_ok [OF o2, of "''switch''"] by metis
    have "maybe_reschedule_thread old s = Some (Inr (unlock_scheduler s3))"
      unfolding maybe_reschedule_thread_def Let_def cond using s2 s3(1) by simp
    moreover have "requeued s xs (unlock_scheduler s3) ys"
      using s3 k aw unfolding requeued_def by auto
    moreover have "later 3 s (unlock_scheduler s3)"
      using later_trans [OF later_trans [OF k(5) s3(9) order_refl] lock_ok(13)] by simp
    ultimately show thesis using result(2) [of "unlock_scheduler s3" ys] s3 k by simp
  qed
  show thesis
  proof (cases ?go)
    case True
    show thesis
    proof (rule make_ready_ok [of T "{old}" ?l xs rs old])
      fix s2
      assume "make_ready old ?l = Some (Inr s2)" "sched_ok T ({old} - {old}) s2 xs (rs @ [old])"
        "\<And>u. u \<noteq> old \<Longrightarrow> sc_thread s2 u = sc_thread ?l u" "current_thread s2 = current_thread ?l" "sc_evq s2 = sc_evq ?l"
        "IRQ_disable_counter s2 = IRQ_disable_counter ?l" "later 0 ?l s2"
      then show thesis using True old(2) later_trans [OF lock_ok(12) [of s], of 0 s2 1] by (intro fin [of s2]) simp_all
    next
      assume "make_ready old ?l = Some (Inl oom)"
      then show thesis using True by (intro that(1)) (simp only: maybe_reschedule_thread_def Let_def cond, simp)
    qed (use ok old True in simp_all)
  next
    case False
    have "sched_ok T {} s xs rs" using ok False nr old unfolding sched_ok_def placed_def by auto
    then show thesis using False by (intro fin [of ?l]) auto
  qed
qed


lemma get_next_ok:
  assumes "sched_ok T L s xs rs"
  obtains h where "get_next_thread s = Some (Inr (if rs = [] then idle_thread s else hd rs, s\<lparr>sc_heap := h\<rparr>))" "rdy h (ready_threads s) (tl rs)"
proof -
  note o = assms [unfolded sched_ok_def]
  obtain h where h: "thread_list_get_next (sc_heap s) (ready_threads s) = Inr (if rs = [] then 0 else hd rs, h)" "rdy h (ready_threads s) (tl rs)"
    by (rule rq.next_oldest [of "sc_heap s" "ready_threads s" rs]) (use o in simp_all)
  have "hd rs \<noteq> 0" if "rs \<noteq> []" using o that by (auto simp: placed_def neq_Nil_conv)
  then show thesis using that [of h] h by (simp add: get_next_thread_def)
qed

lemma switch_thread_ok:
  assumes ok: "sched_ok T {} s xs rs" and aw: "current_thread s = idle_thread s \<Longrightarrow> th_status (cur s) \<noteq> THREAD_SLEEPING"
  defines "n \<equiv> if rs = [] then idle_thread s else hd rs"
  obtains "switch_thread k s = Some (Inl oom)"
    | s' ys where "switch_thread k s = Some (Inr (if n = current_thread s then k else th_rsp (sc_thread s n), s'))"
      "sched_ok T {} s' ys (tl rs @ (if current_thread s \<noteq> idle_thread s \<and> th_status (cur s) = THREAD_RUNNING then [current_thread s] else []))"
      "requeued s xs s' ys" "current_thread s' = n" "later 3 s s'"
proof -
  note result = that
  obtain h where g: "get_next_thread s = Some (Inr (n, s\<lparr>sc_heap := h\<rparr>))" and h: "rdy h (ready_threads s) (tl rs)"
    unfolding n_def by (rule get_next_ok [OF ok])
  note o = ok [unfolded sched_ok_def]
  let ?c = "current_thread s" and ?s1 = "s\<lparr>sc_heap := h\<rparr>"
  show thesis
  proof (cases "n = ?c")
    case True
    have "?c \<notin> set rs" using o by (auto simp: placed_def)
    then have e: "rs = []" "?c = idle_thread s" using True hd_in_set [of rs] unfolding n_def by (cases "rs = []"; simp)+
    have o1: "sched_ok T {} ?s1 xs rs" using o h e by (simp add: sched_ok_def)
    have aw1: "th_status (cur ?s1) \<noteq> THREAD_SLEEPING" using aw e by simp
    obtain s2 ys where s2: "queue_switch ''switch same'' ?s1 = Some (Inr s2)" "sched_ok T {} s2 ys rs" "set ys = insert (th_event (cur ?s1)) (set xs)"
      "ev_time (ev (sc_evq s2) (th_event (cur ?s1))) = now ?s1 + SCHED_THREAD_QUANTUM"
      "\<forall>b. b \<noteq> th_event (cur ?s1) \<longrightarrow> ev_time (ev (sc_evq s2) b) = ev_time (ev (sc_evq ?s1) b)"
      "current_thread s2 = current_thread ?s1" "sc_thread s2 = sc_thread ?s1" "IRQ_disable_counter s2 = IRQ_disable_counter ?s1" "later 1 ?s1 s2"
      by (rule queue_switch_ok [OF o1 aw1, of "''switch same''"])
    have l: "later 0 s ?s1" by (simp add: later_def)
    have "requeued s xs s2 ys" unfolding requeued_def using s2 aw e later_trans [OF l later_refl [of 0 ?s1], of 1] by auto
    moreover have "switch_thread k s = Some (Inr (k, s2))" using g s2(1) True by (simp add: switch_thread_def)
    ultimately show thesis using result(2) [of s2 ys] s2 True e later_trans [OF l s2(9), of 3] by (simp add: n_def)
  next
    case False
    let ?s2 = "upd_thread n (\<lambda>th. th\<lparr>th_status := THREAD_RUNNING\<rparr>) (?s1\<lparr>current_thread := n\<rparr>)"
    let ?s3 = "upd_thread ?c (\<lambda>th. th\<lparr>th_rsp := k\<rparr>) ?s2"
    have p: "placed T {} (idle_thread s) ?c (sc_thread s) (ev (sc_evq s)) xs rs" using o by simp
    note q = placed_switch [OF p n_def [THEN meta_eq_to_obj_eq] False]
    have cT: "?c \<in> T" using p by (simp add: placed_def)
    have rsp: "placed T L i c (th(t := (th t)\<lparr>th_rsp := k\<rparr>)) e xs rs = placed T L i c th e xs rs" for L i c th e xs rs t
    proof -
      have "th_event ((th(t := (th t)\<lparr>th_rsp := k\<rparr>)) u) = th_event (th u)" "th_status ((th(t := (th t)\<lparr>th_rsp := k\<rparr>)) u) = th_status (th u)" for u by simp_all
      then show ?thesis unfolding placed_def by simp
    qed
    have o3: "sched_ok T {?c} ?s3 xs (tl rs)" 
      using o q h False rsp [of "{?c}" "idle_thread s" n "(sc_thread s)(n := (sc_thread s n)\<lparr>th_status := THREAD_RUNNING\<rparr>)" ?c "ev (sc_evq s)" xs "tl rs"]
      by (simp add: sched_ok_def)
    have nr: "th_status (sc_thread s ?c) \<noteq> THREAD_READY" if "?c \<noteq> idle_thread s" using p that cT unfolding placed_def by blast
    have l3: "later 0 s ?s3" by (simp add: later_def)
    have sw: "switch_thread k s = rbind (maybe_reschedule_thread ?c ?s3) (\<lambda>s4. Some (Inr (th_rsp (sc_thread s n), s4)))"
      using g False by (simp add: switch_thread_def switch_context_def Let_def)
    show thesis
    proof (rule maybe_reschedule_ok [OF o3 cT])
      show "?c \<noteq> current_thread ?s3" "th_status (cur ?s3) \<noteq> THREAD_SLEEPING" using False by simp_all
      show "th_status (sc_thread ?s3 ?c) \<noteq> THREAD_READY" if "?c \<noteq> idle_thread ?s3" using nr that False by simp
      show thesis if "maybe_reschedule_thread ?c ?s3 = Some (Inl oom)" using result(1) that sw by simp
      show thesis if r: "maybe_reschedule_thread ?c ?s3 = Some (Inr s')"
          "sched_ok T {} s' ys (if ?c \<noteq> idle_thread ?s3 \<and> th_status (sc_thread ?s3 ?c) = THREAD_RUNNING then tl rs @ [?c] else tl rs)"
          "requeued ?s3 xs s' ys" "current_thread s' = current_thread ?s3" "later 3 ?s3 s'" for s' ys
      proof -
        have "requeued s xs s' ys" using r(3) later_trans [OF l3, of 1] unfolding requeued_def by fastforce
        then show thesis using result(2) [of s' ys] r(1,2,4) sw False later_trans [OF l3 r(5), of 3] by (simp split: if_splits)
      qed
    qed
  qed
qed


definition due :: "nat \<Rightarrow> evq \<Rightarrow> nat" where
  "due D q = card {a. ev_enqueued (ev q a) \<and> unat (ev_time (ev q a)) < D}"

lemma due_set: "evq_rep q xs \<Longrightarrow> due D q = card {a \<in> set xs. unat (ev_time (ev q a)) < D}"
  by (simp add: due_def evq_rep_def)

lemma due_less:
  assumes "evq_rep q xs" "evq_rep q' ys" "x \<in> set xs" "unat (ev_time (ev q x)) < D"
    and "\<And>a. a \<in> set ys \<Longrightarrow> unat (ev_time (ev q' a)) < D \<Longrightarrow> a \<in> set xs \<and> a \<noteq> x \<and> ev_time (ev q' a) = ev_time (ev q a)"
  shows "due D q' < due D q"
  unfolding due_set [OF assms(1)] due_set [OF assms(2)]
  by (rule psubset_card_mono) (use assms(3-5) in \<open>auto simp: set_eq_iff\<close>)

text \<open>An event that is due before \<open>D\<close> is gone, if the clock is past \<open>D\<close> minus a quantum.\<close>

definition progress :: "sched \<Rightarrow> sched \<Rightarrow> bool" where
  "progress s s' \<longleftrightarrow> (\<forall>D. unat (now s) < D \<longrightarrow> (\<forall>s1. later 3 s s1 \<longrightarrow> D \<le> unat (now s1 + SCHED_THREAD_QUANTUM)) \<longrightarrow>
     due D (sc_evq s') < due D (sc_evq s))"

lemma ok_hw [simp]: "sched_ok T L (s\<lparr>sc_hw := h\<rparr>) xs rs = sched_ok T L s xs rs"
  by (simp add: sched_ok_def)

lemma inv_hw [simp]: "sched_inv T (s\<lparr>sc_hw := h\<rparr>) = sched_inv T s"
  by (simp add: sched_inv_def)

lemma sched_inv_requeued:
  "sched_ok T {} s' ys rs' \<Longrightarrow> requeued s xs s' ys \<Longrightarrow> IRQ_disable_counter s = 0 \<Longrightarrow> sched_inv T s'"
  unfolding sched_inv_def requeued_def by auto

lemma due_event:
  assumes inv: "sched_inv T s"
  obtains x xs rs where "sched_ok T {} s (x # xs) rs" "event_peek_next (sc_evq s) = Some x" "x \<noteq> 0" "x \<notin> set xs"
    "th_status (cur s) \<noteq> THREAD_SLEEPING" "th_event (cur s) \<in> set (x # xs)" "IRQ_disable_counter s = 0"
proof -
  obtain ys rs where i: "sched_ok T {} s ys rs" "th_status (cur s) \<noteq> THREAD_SLEEPING" "th_event (cur s) \<in> set ys" "IRQ_disable_counter s = 0"
    using inv by (auto simp: sched_inv_def)
  obtain x xs where x: "ys = x # xs" using i(3) by (cases ys) auto
  have r: "evq_rep (sc_evq s) (x # xs)" using i(1) x by (simp add: sched_ok_def)
  then have "x \<noteq> 0" "x \<notin> set xs" using tq.nonnull_law [OF r] by auto
  then show thesis using that [of x xs rs] i x peek_spec [OF r] by simp
qed

lemma remove_head:
  assumes "evq_rep q (x # xs)" "by_time q (x # xs)"
  obtains q' where "event_remove x q = Some q'" "evq_rep q' xs" "by_time q' xs" "\<And>a. ev_data (ev q' a) = ev_data (ev q a)"
proof -
  obtain q' where q: "event_remove x q = Some q'" "evq_rep q' xs" "same_payload q q'" "sorted (map (\<lambda>a. ev_time (ev q' a)) xs)"
    using tq.pop_law(2) [OF assms(1)] assms(2) by (auto simp: by_time_def)
  then show thesis using that by (simp add: by_time_def same_payload_def)
qed

lemma switch_event_step:
  assumes ok: "sched_ok T {} s (x # xs) rs" "x \<notin> set xs" "th_status (cur s) \<noteq> THREAD_SLEEPING" "IRQ_disable_counter s = 0"
    and q: "evq_rep q xs" "by_time q xs" "\<And>a. ev_data (ev q a) = ev_data (ev (sc_evq s) a)"
    and cb: "ev_callback (ev (sc_evq s) x) \<noteq> Callback_thread_wake" and t: "ev_time (ev (sc_evq s) x) \<le> now s"
  defines "s2 \<equiv> s\<lparr>sc_hw := hw_do Rdtsc (sc_hw s), sc_evq := q\<rparr>"
  shows "switch_thread InHandler s2 = Some (Inl oom) \<or>
    (\<exists>k s3. switch_thread InHandler s2 = Some (Inr (k, s3)) \<and> sched_inv T s3 \<and> later 4 s s3 \<and> progress s s3)"
proof -
  note o = ok(1) [unfolded sched_ok_def]
  have r: "evq_rep (sc_evq s) (x # xs)" using o by simp
  have p: "placed T {} (idle_thread s) (current_thread s) (sc_thread s) (ev (sc_evq s)) (x # xs) rs" using o by simp
  have "placed T {} (idle_thread s) (current_thread s) (sc_thread s) (ev q) xs rs"
    by (rule placed_drop_switch [OF p cb]) (use evd [OF q(3)] in simp)
  then have o2: "sched_ok T {} s2 xs rs" using o q by (simp add: sched_ok_def s2_def)
  have l2: "later 1 s s2" by (simp add: later_def s2_def)
  show ?thesis
  proof (rule switch_thread_ok [OF o2, of InHandler])
    fix s3 ys
    assume sw: "switch_thread InHandler s2 = Some (Inr (if (if rs = [] then idle_thread s2 else hd rs) = current_thread s2 then InHandler
          else th_rsp (sc_thread s2 (if rs = [] then idle_thread s2 else hd rs)), s3))"
      and o3: "sched_ok T {} s3 ys (tl rs @ (if current_thread s2 \<noteq> idle_thread s2 \<and> th_status (cur s2) = THREAD_RUNNING then [current_thread s2] else []))"
      and rq: "requeued s2 xs s3 ys" and l3: "later 3 s2 s3"
    have "sched_inv T s3" using sched_inv_requeued [OF o3 rq] ok(4) by (simp add: s2_def)
    moreover have "later 4 s s3" using later_trans [OF l2 l3] by simp
    moreover have "progress s s3" unfolding progress_def
    proof (intro allI impI)
      fix D assume D: "unat (now s) < D" "\<forall>s1. later 3 s s1 \<longrightarrow> D \<le> unat (now s1 + SCHED_THREAD_QUANTUM)"
      let ?c = "th_event (cur s3)"
      have R: "\<exists>s1. later 1 s2 s1 \<and> ev_time (ev (sc_evq s3) ?c) = now s1 + SCHED_THREAD_QUANTUM" "set ys = insert ?c (set xs)"
        "\<And>b. b \<noteq> ?c \<Longrightarrow> ev_time (ev (sc_evq s3) b) = ev_time (ev (sc_evq s2) b)"
        using rq unfolding requeued_def by blast+
      have q2: "ev_time (ev (sc_evq s2) b) = ev_time (ev (sc_evq s) b)" for b using evd(3) [OF q(3)] by (simp add: s2_def)
      obtain s1 where s1: "later 1 s2 s1" "ev_time (ev (sc_evq s3) ?c) = now s1 + SCHED_THREAD_QUANTUM" using R(1) by blast
      have far: "D \<le> unat (ev_time (ev (sc_evq s3) ?c))" using D(2) later_trans [OF l2 s1(1), of 3] s1(2) by simp
      have e3: "evq_rep (sc_evq s3) ys" using o3 by (simp add: sched_ok_def)
      show "due D (sc_evq s3) < due D (sc_evq s)"
      proof (rule due_less [OF r e3, of x])
        show "x \<in> set (x # xs)" by simp
        show "unat (ev_time (ev (sc_evq s) x)) < D" using t D(1) by (simp add: word_le_nat_alt)
        fix a assume a: "a \<in> set ys" "unat (ev_time (ev (sc_evq s3) a)) < D"
        then have "a \<noteq> ?c" using far by auto
        then show "a \<in> set (x # xs) \<and> a \<noteq> x \<and> ev_time (ev (sc_evq s3) a) = ev_time (ev (sc_evq s) a)"
          using a(1) R(2) R(3) [of a] q2 [of a] ok(2) by auto
      qed
    qed
    ultimately show ?thesis using sw by blast
  qed (use ok(3) in \<open>simp_all add: s2_def\<close>)
qed


lemma wake_event_step:
  assumes ok: "sched_ok T {} s (x # xs) rs" "x \<notin> set xs" "th_status (cur s) \<noteq> THREAD_SLEEPING" "th_event (cur s) \<in> set (x # xs)"
      "IRQ_disable_counter s = 0"
    and q: "evq_rep q xs" "by_time q xs" "\<And>a. ev_data (ev q a) = ev_data (ev (sc_evq s) a)"
    and cb: "ev_callback (ev (sc_evq s) x) = Callback_thread_wake" and t: "ev_time (ev (sc_evq s) x) \<le> now s"
  defines "s2 \<equiv> s\<lparr>sc_hw := hw_do Rdtsc (sc_hw s), sc_evq := q\<rparr>" and "w \<equiv> ev_callback_arg (ev (sc_evq s) x)"
  shows "thread_wake w s2 = Some (Inl oom) \<or>
    (\<exists>s3. thread_wake w s2 = Some (Inr s3) \<and> sched_inv T s3 \<and> later 4 s s3 \<and> progress s s3)"
proof -
  note o = ok(1) [unfolded sched_ok_def]
  have r: "evq_rep (sc_evq s) (x # xs)" using o by simp
  have p: "placed T {} (idle_thread s) (current_thread s) (sc_thread s) (ev (sc_evq s)) (x # xs) rs" using o by simp
  have w: "w \<in> T" "w \<noteq> current_thread s" "th_event (sc_thread s w) = x" "th_status (sc_thread s w) = THREAD_SLEEPING"
    "placed T {} (idle_thread s) (current_thread s) ((sc_thread s)(w := (sc_thread s w)\<lparr>th_status := THREAD_READY\<rparr>)) (ev q) xs (rs @ [w])"
    using placed_wake [OF p cb _ ok(2,3), of "ev q"] ok(2) tq.nonnull_law [OF r] evd [OF q(3)] unfolding w_def by auto
  have ct: "current_thread s \<in> T" "inj_on (\<lambda>t. th_event (sc_thread s t)) T" using p by (auto simp: placed_def)
  have cx: "th_event (cur s) \<in> set xs" using ok(4) w(1-3) ct by (auto dest: inj_onD)
  let ?s = "upd_thread w (\<lambda>th. th\<lparr>th_status := THREAD_READY\<rparr>) s2"
  have wk: "thread_wake w s2 = rbind (thread_list_add (sc_heap s) (ready_threads s) w) (\<lambda>h. Some (Inr (?s\<lparr>sc_heap := h\<rparr>)))"
    using w(4) by (simp add: thread_wake_def kassert_def make_ready_def s2_def Let_def)
  have "rdy (sc_heap s) (ready_threads s) rs" using o by simp
  then show ?thesis
  proof (cases rule: rq.add_cases [of _ _ _ w])
    case 1
    then show ?thesis by (simp add: wk)
  next
    case (2 h)
    let ?s3 = "?s\<lparr>sc_heap := h\<rparr>"
    have "sched_ok T {} ?s3 xs (rs @ [w])" using 2(2) q w(5) by (simp add: sched_ok_def s2_def)
    then have "sched_inv T ?s3" unfolding sched_inv_def
      by (intro exI [of _ xs] exI [of _ "rs @ [w]"]) (use ok(3,5) cx w(2) in \<open>auto simp: s2_def\<close>)
    moreover have "later 4 s ?s3" by (simp add: later_def s2_def)
    moreover have "progress s ?s3" unfolding progress_def
    proof (intro allI impI)
      fix D assume D: "unat (now s) < D"
      have e: "sc_evq ?s3 = q" by (simp add: s2_def)
      show "due D (sc_evq ?s3) < due D (sc_evq s)" unfolding e
        by (rule due_less [OF r q(1), of x]) (use t D ok(2) evd(3) [OF q(3)] in \<open>auto simp: word_le_nat_alt\<close>)
    qed
    ultimately show ?thesis using wk 2(1) by simp
  qed
qed

text \<open>One pass of the event loop either runs out of heap, or leaves the loop, or handles one due event.\<close>

lemma event_step_ok:
  assumes inv: "sched_inv T s"
  shows "event_step s = Some (Inl oom) \<or>
    (\<exists>s'. event_step s = Some (Inr (None, s')) \<and> sched_inv T s' \<and> later 1 s s') \<or>
    (\<exists>k s'. event_step s = Some (Inr (Some k, s')) \<and> sched_inv T s' \<and> later 4 s s' \<and> progress s s')"
proof (rule due_event [OF inv])
  fix x xs rs
  assume a: "sched_ok T {} s (x # xs) rs" "event_peek_next (sc_evq s) = Some x" "x \<noteq> 0" "x \<notin> set xs"
    "th_status (cur s) \<noteq> THREAD_SLEEPING" "th_event (cur s) \<in> set (x # xs)" "IRQ_disable_counter s = 0"
  note o = a(1) [unfolded sched_ok_def]
  let ?s1 = "s\<lparr>sc_hw := hw_do Rdtsc (sc_hw s)\<rparr>"
  obtain q where q: "event_remove x (sc_evq s) = Some q" "evq_rep q xs" "by_time q xs" "\<And>a. ev_data (ev q a) = ev_data (ev (sc_evq s) a)"
    using remove_head [of "sc_evq s" x xs] o by blast
  have nn: "ev_callback (ev (sc_evq s) x) \<noteq> Callback_NULL" using o by (simp add: placed_def)
  have st: "event_step s = (if now s < ev_time (ev (sc_evq s) x) then Some (Inr (None, ?s1))
      else if ev_callback (ev (sc_evq s) x) = Callback_thread_wake
      then rbind (thread_wake (ev_callback_arg (ev (sc_evq s) x)) (?s1\<lparr>sc_evq := q\<rparr>)) (\<lambda>s3. Some (Inr (Some InHandler, s3)))
      else rbind (switch_thread InHandler (?s1\<lparr>sc_evq := q\<rparr>)) (\<lambda>(k, s3). Some (Inr (Some k, s3))))"
    using a(2,3) q(1) nn evd [OF q(4), of x] by (cases "ev_callback (ev (sc_evq s) x)") (simp_all add: event_step_def sched_now_eq Let_def)
  consider "now s < ev_time (ev (sc_evq s) x)" | "ev_time (ev (sc_evq s) x) \<le> now s" "ev_callback (ev (sc_evq s) x) = Callback_thread_wake"
    | "ev_time (ev (sc_evq s) x) \<le> now s" "ev_callback (ev (sc_evq s) x) \<noteq> Callback_thread_wake" by fastforce
  then show ?thesis
  proof cases
    case 1
    then show ?thesis using inv by (simp add: st later_def)
  next
    case 2
    from wake_event_step [OF a(1,4,5,6,7) q(2-4) 2(2,1)] show ?thesis using 2 by (auto simp: st)
  next
    case 3
    from switch_event_step [OF a(1,4,5,7) q(2-4) 3(2,1)] show ?thesis using 3 by (auto simp: st)
  qed
qed

end
