(* ===== verification/Sched_Boot.thy ===== *)
theory Sched_Boot
  imports Sched_Inv
begin

text \<open>
  \<open>sched_init\<close> establishes the invariant of the scheduler. Each step of it either runs out of memory or adds fresh objects to the
  heap and keeps what is there.
\<close>

section \<open>Starting the scheduler\<close>

text \<open>While \<open>sched_init\<close> builds the threads: the objects \<open>N\<close> are allocated, the lists \<open>R\<close> are in the heap, no event is queued.\<close>

definition boot_ok :: "sched \<Rightarrow> u64 set \<Rightarrow> (u64 \<times> u64 list) set \<Rightarrow> bool" where
  "boot_ok s N R \<longleftrightarrow> heap_ok (sc_heap s) \<and> N \<subseteq> fst ` live (sc_heap s) \<and> (\<forall>(l, ts)\<in>R. rdy (sc_heap s) l ts) \<and>
     evq_rep (sc_evq s) [] \<and> IRQ_disable_counter s = 0"

definition same_globals :: "sched \<Rightarrow> sched \<Rightarrow> bool" where
  "same_globals s s' \<longleftrightarrow> ready_threads s' = ready_threads s \<and> idle_thread s' = idle_thread s"

lemma rdy_frame: "rdy h l ts \<Longrightarrow> frame {} h h' \<Longrightarrow> heap_ok h' \<Longrightarrow> rdy h' l ts"
  unfolding rdy_def using tl_rep_frame [of h l _ ts "{}" h'] by auto

lemma boot_alloc_ok:
  assumes "boot_ok s N R" "unat sz \<le> 2 ^ 64 - 64"
  obtains "kmalloc (sc_heap s) sz = Some (Inl oom)"
    | p h where "kmalloc (sc_heap s) sz = Some (Inr (p, h))" "p \<noteq> 0" "p \<notin> N" "boot_ok (s\<lparr>sc_heap := h\<rparr>) (insert p N) R"
proof -
  note b = assms(1) [unfolded boot_ok_def]
  show thesis
  proof (rule kh.alloc_cases [of "sc_heap s" sz])
    fix p n h
    assume a: "kmalloc (sc_heap s) sz = Some (Inr (p, h))" "heap_ok h" "live h = insert (p, n) (live (sc_heap s))" "p \<noteq> 0"
      "\<And>k. (p, k) \<notin> live (sc_heap s)" "\<And>q k j. (q, k) \<in> live (sc_heap s) \<Longrightarrow> 8 * j + 8 \<le> k \<Longrightarrow> wfld (kmem h) q j = wfld (kmem (sc_heap s)) q j"
    have "frame {} (sc_heap s) h" using a(3,6) by (auto simp: frame_def objs_def less_2_cases_iff)
    then have "boot_ok (s\<lparr>sc_heap := h\<rparr>) (insert p N) R" using b a(2,3) rdy_frame [of "sc_heap s" _ _ h] by (auto simp: boot_ok_def)
    moreover have "p \<notin> N" using b a(5) by force
    ultimately show thesis using that(2) a by blast
  qed (use b assms(2) that(1) in auto)
qed

lemma boot_upd [simp]: "boot_ok (upd_thread t f s) N R = boot_ok s N R" "same_globals s (upd_thread t f s')= same_globals s s'"
  "same_globals s (upd_event a g s')= same_globals s s'"
  by (simp_all add: boot_ok_def same_globals_def)

lemma empty_evq_upd:
  "evq_rep q [] \<Longrightarrow> \<not> ev_enqueued e \<Longrightarrow> evq_rep (q\<lparr>ev := (ev q)(a := e)\<rparr>) []"
  by (auto simp: evq_rep_def)

lemma boot_event:
  assumes "boot_ok s N R"
  obtains "sched_event_create s = Some (Inl oom)"
    | e s' where "sched_event_create s = Some (Inr (e, s'))" "e \<noteq> 0" "e \<notin> N" "boot_ok s' (insert e N) R" "sc_thread s' = sc_thread s" "same_globals s s'"
proof (rule boot_alloc_ok [OF assms, of sizeof_Event])
  fix e h assume a: "kmalloc (sc_heap s) sizeof_Event = Some (Inr (e, h))" "e \<noteq> 0" "e \<notin> N" "boot_ok (s\<lparr>sc_heap := h\<rparr>) (insert e N) R"
  let ?q = "(sc_evq s)\<lparr>ev := (ev (sc_evq s))(e := empty_event)\<rparr>"
  have "evq_rep ?q []" using a(4) by (intro empty_evq_upd) (simp_all add: boot_ok_def empty_event_def)
  then show thesis using a by (intro that(2) [of e "s\<lparr>sc_heap := h, sc_evq := ?q\<rparr>"]) (simp_all add: sched_event_create_def event_create_def boot_ok_def same_globals_def)
qed (use that(1) in \<open>simp_all add: sched_event_create_def event_create_def sizeof_Event_def\<close>)

lemma same_globals_trans: "same_globals s s' \<Longrightarrow> same_globals s' s'' \<Longrightarrow> same_globals s s''"
  by (simp add: same_globals_def)

lemma thread_kcreate_ok:
  assumes "boot_ok s N R"
  obtains "thread_kcreate name en p s = Some (Inl oom)"
    | t e s' where "thread_kcreate name en p s = Some (Inr (t, s'))" "distinct [0, t, e]" "{t, e} \<inter> N = {}" "boot_ok s' (N \<union> {t, e}) R"
      "th_event (sc_thread s' t) = e" "th_status (sc_thread s' t) = THREAD_READY" "\<forall>u. u \<noteq> t \<longrightarrow> sc_thread s' u = sc_thread s u" "same_globals s s'"
proof -
  note result = that
  show thesis
  proof (rule boot_alloc_ok [OF assms, of sizeof_Thread])
    fix t h1 assume a: "kmalloc (sc_heap s) sizeof_Thread = Some (Inr (t, h1))" "t \<noteq> 0" "t \<notin> N" "boot_ok (s\<lparr>sc_heap := h1\<rparr>) (insert t N) R"
    let ?s1 = "upd_thread t (\<lambda>th. th\<lparr>th_name := name, th_tid := tid_counter s, th_process := p\<rparr>) (s\<lparr>sc_heap := h1, tid_counter := tid_counter s + 1\<rparr>)"
    have b1: "boot_ok ?s1 (insert t N) R" using a(4) by (simp add: boot_ok_def)
    show thesis
    proof (rule boot_alloc_ok [OF b1, of STACK_SIZE])
      fix base h2 assume b: "kmalloc (sc_heap ?s1) STACK_SIZE = Some (Inr (base, h2))" "boot_ok (?s1\<lparr>sc_heap := h2\<rparr>) (insert base (insert t N)) R"
      let ?s2 = "upd_thread t (\<lambda>th. th\<lparr>th_rsp_base := base, th_rsp := Fresh en\<rparr>) (?s1\<lparr>sc_heap := h2\<rparr>)"
      have b2: "boot_ok ?s2 (insert t N) R" using b(2) by (simp add: boot_ok_def)
      show thesis
      proof (rule boot_event [OF b2])
        fix e s3 assume c: "sched_event_create ?s2 = Some (Inr (e, s3))" "e \<noteq> 0" "e \<notin> insert t N" "boot_ok s3 (insert e (insert t N)) R"
          "sc_thread s3 = sc_thread ?s2" "same_globals ?s2 s3"
        let ?s4 = "upd_event e (\<lambda>v. v\<lparr>ev_owner := t\<rparr>) s3"
        let ?s5 = "upd_thread t (\<lambda>th. th\<lparr>th_event := e, th_status := THREAD_READY\<rparr>) ?s4"
        have "\<not> ev_enqueued (ev (sc_evq s3) e)" using c(4) by (simp add: boot_ok_def evq_rep_def)
        then have "boot_ok ?s4 (N \<union> {t, e}) R" using c(4) empty_evq_upd [of "sc_evq s3"] by (simp add: boot_ok_def insert_commute)
        moreover have "thread_kcreate name en p s = Some (Inr (t, ?s5))" using a(1) b(1) c(1) by (simp add: thread_kcreate_def Let_def)
        moreover have "same_globals s ?s5" using c(6) by (simp add: same_globals_def)
        ultimately show thesis using c a by (intro result(2) [of t ?s5 e]) (auto simp del: upd_simps simp: upd_simps(4,12))
      qed (use a b in \<open>intro result(1), simp add: thread_kcreate_def Let_def\<close>)
    qed (use a in \<open>simp_all add: thread_kcreate_def Let_def STACK_SIZE_def result(1)\<close>)
  qed (simp_all add: thread_kcreate_def sizeof_Thread_def result(1))
qed

text \<open>A call that either runs out of memory or returns a value with a property.\<close>

definition fine :: "'a run \<Rightarrow> ('a \<Rightarrow> bool) \<Rightarrow> bool" where
  "fine x P \<longleftrightarrow> x = Some (Inl oom) \<or> (\<exists>v. x = Some (Inr v) \<and> P v)"

lemma fine_bind: "fine x P \<Longrightarrow> (\<And>v. P v \<Longrightarrow> fine (f v) Q) \<Longrightarrow> fine (rbind x f) Q"
  unfolding fine_def [of x P] by (elim disjE exE conjE) (simp_all add: fine_def [of "Some (Inl oom)"])

lemma fine_return: "P v \<Longrightarrow> fine (Some (Inr v)) P"
  by (simp add: fine_def)

definition grows :: "sched \<Rightarrow> u64 set \<Rightarrow> (u64 \<times> u64 list) set \<Rightarrow> sched \<Rightarrow> bool" where
  "grows s N R s' \<longleftrightarrow> boot_ok s' N R \<and> sc_thread s' = sc_thread s \<and> same_globals s s'"

lemma new_list_fine: "boot_ok s N R \<Longrightarrow> fine (sched_new_list s) (\<lambda>(l, s'). grows s N (insert (l, []) R) s')"
proof -
  assume b: "boot_ok s N R"
  note o = b [unfolded boot_ok_def]
  consider "thread_list_new (sc_heap s) = Some (Inl oom)" | l h k where "thread_list_new (sc_heap s) = Some (Inr (l, h))" "tl_rep h l [] []"
    "live h = insert (l, k) (live (sc_heap s))" "frame {} (sc_heap s) h"
    using thread_list_new_spec [of "sc_heap s"] o by blast
  then show ?thesis
  proof cases
    case (2 l h k)
    have hk: "heap_ok h" using 2(2) by (simp add: tl_rep_def)
    have r: "rdy h l []" using 2(2) unfolding rdy_def by blast
    have "boot_ok (s\<lparr>sc_heap := h\<rparr>) N (insert (l, []) R)"
      using o hk 2(3) r rdy_frame [OF _ 2(4) hk] by (auto simp: boot_ok_def)
    then show ?thesis using 2(1) by (simp add: sched_new_list_def fine_def grows_def same_globals_def)
  qed (simp add: sched_new_list_def fine_def)
qed

lemma add_ready_fine:
  "boot_ok s N {(l, ts)} \<Longrightarrow> ready_threads s = l \<Longrightarrow> fine (sched_add_ready t s) (\<lambda>s'. grows s N {(l, ts @ [t])} s')"
proof -
  assume b: "boot_ok s N {(l, ts)}" and l: "ready_threads s = l"
  note o = b [unfolded boot_ok_def]
  obtain ns where ns: "tl_rep (sc_heap s) l ns ts" using o by (auto simp: rdy_def)
  consider "thread_list_add (sc_heap s) l t = Some (Inl oom)" | a h k where "thread_list_add (sc_heap s) l t = Some (Inr h)"
    "tl_rep h l (ns @ [a]) (ts @ [t])" "live h = insert (a, k) (live (sc_heap s))"
    using thread_list_add_spec [OF ns, of t] by blast
  then show ?thesis
  proof cases
    case (2 a h k)
    have r: "rdy h l (ts @ [t])" using 2(2) unfolding rdy_def by blast
    have k: "heap_ok h" using 2(2) by (simp add: tl_rep_def)
    have "boot_ok (s\<lparr>sc_heap := h\<rparr>) N {(l, ts @ [t])}" using o 2(3) r k by (auto simp: boot_ok_def)
    then show ?thesis using 2(1) l by (simp add: sched_add_ready_def fine_def grows_def same_globals_def)
  qed (simp add: sched_add_ready_def fine_def l)
qed

lemma process_fine: "boot_ok s N R \<Longrightarrow> fine (process_create name pml4 s) (\<lambda>(p, s'). grows s N R s')"
  by (rule boot_alloc_ok [of s N R sizeof_Process])
    (auto simp: process_create_def fine_def grows_def same_globals_def boot_ok_def sizeof_Process_def)

lemma event_fine: "boot_ok s N R \<Longrightarrow> fine (sched_event_create s) (\<lambda>(e, s'). e \<noteq> 0 \<and> e \<notin> N \<and> grows s (insert e N) R s')"
  by (rule boot_event [of s N R]) (auto simp: fine_def grows_def)

lemma alloc_fine:
  "boot_ok s N R \<Longrightarrow> unat sz \<le> 2 ^ 64 - 64 \<Longrightarrow> fine (kmalloc (sc_heap s) sz) (\<lambda>(p, h). p \<noteq> 0 \<and> p \<notin> N \<and> boot_ok (s\<lparr>sc_heap := h\<rparr>) (insert p N) R)"
  by (rule boot_alloc_ok [of s N R sz]) (auto simp: fine_def)

lemma kcreate_fine:
  "boot_ok s N R \<Longrightarrow> fine (thread_kcreate name en p s) (\<lambda>(t, s'). \<exists>e. distinct [0, t, e] \<and> {t, e} \<inter> N = {} \<and> boot_ok s' (N \<union> {t, e}) R \<and>
     th_event (sc_thread s' t) = e \<and> th_status (sc_thread s' t) = THREAD_READY \<and> (\<forall>u. u \<noteq> t \<longrightarrow> sc_thread s' u = sc_thread s u) \<and> same_globals s s')"
  by (rule thread_kcreate_ok [of s N R name en p]) (auto simp: fine_def)

text \<open>The last step: the event of the initial thread is queued.\<close>

lemma first_event_fine:
  assumes b: "boot_ok s N {(ready_threads s, [t1, t2])}" and d: "distinct [0, ti, td, t1, t2]" "idle_thread s = td"
    and e: "distinct (0 # map (\<lambda>t. th_event (sc_thread s t)) [ti, td, t1, t2])"
    and st: "th_status (sc_thread s ti) = THREAD_DONE" "th_status (sc_thread s td) = THREAD_READY" "th_status (sc_thread s t1) = THREAD_READY"
      "th_status (sc_thread s t2) = THREAD_READY"
  defines "s0 \<equiv> upd_event (th_event (sc_thread s ti)) (\<lambda>v. v\<lparr>ev_callback := Callback_switch_thread\<rparr>) (s\<lparr>current_thread := ti\<rparr>)"
  shows "fine (sched_enqueue (th_event (sc_thread s0 ti)) s0) (\<lambda>s'. sched_inv {ti, td, t1, t2} s')"
proof -
  let ?a = "th_event (sc_thread s ti)"
  let ?e = "(ev (sc_evq s) ?a)\<lparr>ev_callback := Callback_switch_thread\<rparr>"
  have a: "?a \<noteq> 0" using e by auto
  obtain q' ys where q: "event_enqueue ?a ((sc_evq s)\<lparr>ev := (ev (sc_evq s))(?a := ?e)\<rparr>) = Some (Inr q')" "evq_rep q' ys" "by_time q' ys"
    "set ys = insert ?a (set [])" "ev_data (ev q' ?a) = ev_data ?e"
    by (rule requeue_spec [of "sc_evq s" "[]" ?a ?e]) (use b a in \<open>simp_all add: boot_ok_def by_time_def\<close>)
  have cb: "ev_callback (ev q' ?a) = Callback_switch_thread" using evd [OF q(5)] by simp
  let ?s = "s0\<lparr>sc_evq := q'\<rparr>"
  have "placed {ti, td, t1, t2} {} td ti (sc_thread s) (ev q') ys [t1, t2]"
    unfolding placed_def using d e st q(4) cb by (auto simp: waking_def)
  then have "sched_ok {ti, td, t1, t2} {} ?s ys [t1, t2]" using b q d by (simp add: sched_ok_def s0_def boot_ok_def)
  then have "sched_inv {ti, td, t1, t2} ?s" unfolding sched_inv_def using b st q(4) by (auto simp: s0_def boot_ok_def)
  moreover have "sched_enqueue (th_event (sc_thread s0 ti)) s0 = Some (Inr ?s)" using q(1) by (simp add: sched_enqueue_def s0_def)
  ultimately show ?thesis by (simp add: fine_def)
qed

lemma fine_bind2: "fine x (\<lambda>(a, b). P a b) \<Longrightarrow> (\<And>a b. P a b \<Longrightarrow> fine (f a b) Q) \<Longrightarrow> fine (rbind x (\<lambda>(a, b). f a b)) Q"
  by (rule fine_bind [of x "\<lambda>(a, b). P a b"]) auto

lemma boot_globals [simp]:
  "boot_ok (s\<lparr>ready_threads := l\<rparr>) N R = boot_ok s N R" "boot_ok (s\<lparr>finished_threads := l\<rparr>) N R = boot_ok s N R"
  "boot_ok (s\<lparr>kernel_process := p, sc_heap := h\<rparr>) N R = boot_ok (s\<lparr>sc_heap := h\<rparr>) N R"
  by (simp_all add: boot_ok_def)

text \<open>The threads made so far with their states, and the ready list.\<close>

definition made :: "sched \<Rightarrow> u64 list \<Rightarrow> (u64 \<times> ThreadStatus) list \<Rightarrow> bool" where
  "made s rs ts \<longleftrightarrow> (\<exists>N. boot_ok s N {(ready_threads s, rs)} \<and> set (map fst ts) \<subseteq> N \<and> set (map (\<lambda>t. th_event (sc_thread s (fst t))) ts) \<subseteq> N \<and>
     distinct (0 # map fst ts) \<and> distinct (0 # map (\<lambda>t. th_event (sc_thread s (fst t))) ts) \<and> (\<forall>(t, st)\<in>set ts. th_status (sc_thread s t) = st))"

lemma made_globals [simp]: "made (s\<lparr>idle_thread := t\<rparr>) rs ts = made s rs ts"
  by (simp add: made_def boot_ok_def)

lemma kcreate_made:
  assumes "made s rs ts"
  shows "fine (thread_kcreate name en p s) (\<lambda>(t, s'). made s' rs (ts @ [(t, THREAD_READY)]) \<and> idle_thread s' = idle_thread s)"
proof -
  obtain N where N: "boot_ok s N {(ready_threads s, rs)}" "set (map fst ts) \<subseteq> N" "set (map (\<lambda>t. th_event (sc_thread s (fst t))) ts) \<subseteq> N"
    "distinct (0 # map fst ts)" "distinct (0 # map (\<lambda>t. th_event (sc_thread s (fst t))) ts)" "\<forall>(t, st)\<in>set ts. th_status (sc_thread s t) = st"
    using assms by (auto simp: made_def)
  show ?thesis
  proof (rule thread_kcreate_ok [OF N(1), of name en p])
    fix t e s'
    assume k: "thread_kcreate name en p s = Some (Inr (t, s'))" "distinct [0, t, e]" "{t, e} \<inter> N = {}" "boot_ok s' (N \<union> {t, e}) {(ready_threads s, rs)}"
      "th_event (sc_thread s' t) = e" "th_status (sc_thread s' t) = THREAD_READY" "\<forall>u. u \<noteq> t \<longrightarrow> sc_thread s' u = sc_thread s u" "same_globals s s'"
    have same: "sc_thread s' (fst x) = sc_thread s (fst x)" if "x \<in> set ts" for x using that N(2) k(3,7) by auto
    then have m: "map (\<lambda>t. th_event (sc_thread s' (fst t))) ts = map (\<lambda>t. th_event (sc_thread s (fst t))) ts" by simp
    have d: "distinct (map (\<lambda>t. th_event (sc_thread s' (fst t))) ts)" using N(5) by (simp only: m distinct.simps)
    have "\<forall>(u, st)\<in>set ts. th_status (sc_thread s' u) = st" using same N(6) by fastforce
    then have "made s' rs (ts @ [(t, THREAD_READY)])"
      unfolding made_def using N k same d by (intro exI [of _ "N \<union> {t, e}"]) (auto simp: same_globals_def image_subset_iff)
    then show ?thesis using k(1,8) by (simp add: fine_def same_globals_def)
  qed (simp add: fine_def)
qed

lemma add_made:
  assumes "made s rs ts"
  shows "fine (sched_add_ready t s) (\<lambda>s'. made s' (rs @ [t]) ts \<and> idle_thread s' = idle_thread s)"
proof -
  obtain N where N: "boot_ok s N {(ready_threads s, rs)}" "set (map fst ts) \<subseteq> N" "set (map (\<lambda>t. th_event (sc_thread s (fst t))) ts) \<subseteq> N"
    "distinct (0 # map fst ts)" "distinct (0 # map (\<lambda>t. th_event (sc_thread s (fst t))) ts)" "\<forall>(t, st)\<in>set ts. th_status (sc_thread s t) = st"
    using assms by (auto simp: made_def)
  have "made s' (rs @ [t]) ts \<and> idle_thread s' = idle_thread s" if "grows s N {(ready_threads s, rs @ [t])} s'" for s'
    using that N unfolding made_def grows_def same_globals_def by (intro conjI exI [of _ N]) simp_all
  then show ?thesis using add_ready_fine [OF N(1) refl, of t] by (auto simp: fine_def)
qed

lemma first_event_made:
  assumes "made s [t1, t2] [(ti, THREAD_DONE), (td, THREAD_READY), (t1, THREAD_READY), (t2, THREAD_READY)]" "idle_thread s = td"
  defines "s0 \<equiv> upd_event (th_event (sc_thread s ti)) (\<lambda>v. v\<lparr>ev_callback := Callback_switch_thread\<rparr>) (s\<lparr>current_thread := ti\<rparr>)"
  shows "fine (sched_enqueue (th_event (sc_thread s0 ti)) s0) (\<lambda>s'. sched_inv {ti, td, t1, t2} s' \<and> card {ti, td, t1, t2} = 4)"
proof -
  obtain N where N: "boot_ok s N {(ready_threads s, [t1, t2])}" "distinct [0, ti, td, t1, t2]"
      "distinct (0 # map (\<lambda>t. th_event (sc_thread s t)) [ti, td, t1, t2])"
      "th_status (sc_thread s ti) = THREAD_DONE" "th_status (sc_thread s td) = THREAD_READY" "th_status (sc_thread s t1) = THREAD_READY"
      "th_status (sc_thread s t2) = THREAD_READY"
    using assms(1) by (auto simp: made_def)
  then show ?thesis using first_event_fine [OF N(1,2) assms(2) N(3-7)] by (auto simp: fine_def s0_def)
qed

lemma start_threads_fine:
  assumes "made s [] [(ti, THREAD_DONE)]"
  shows "fine (sched_start_threads p ti s) (\<lambda>s'. \<exists>T. sched_inv T s' \<and> card T = 4)"
  unfolding sched_start_threads_def
  apply (rule fine_bind2 [OF kcreate_made [OF assms]], elim conjE)
  apply (rule fine_bind2 [OF kcreate_made], subst made_globals, assumption, elim conjE)
  apply (rule fine_bind2 [OF kcreate_made], assumption, elim conjE)
  apply (rule fine_bind [OF add_made], assumption, elim conjE)
  apply (rule fine_bind [OF add_made], assumption, elim conjE)
  subgoal for td s7 t1 s8 t2 s9 s10 s11
    using first_event_made [of s11 t1 t2 ti td] by (auto simp: fine_def Let_def)
  done

lemma sched_setup_fine:
  assumes "heap_ok (sc_heap s)" "evq_rep (sc_evq s) []" "IRQ_disable_counter s = 0"
  shows "fine (sched_setup pml4 (s, ints)) (\<lambda>(s', ints'). ints' = interrupts_set_handler 32 handle_next_event_handler ints \<and> (\<exists>T. sched_inv T s' \<and> card T = 4))"
proof -
  have b: "boot_ok s {} {}" using assms by (simp add: boot_ok_def)
  show ?thesis
    unfolding sched_setup_def prod.case
    apply (rule fine_bind2 [OF new_list_fine [OF b]], unfold grows_def, elim conjE)
    apply (rule fine_bind2 [OF new_list_fine], subst boot_globals, assumption, unfold grows_def, elim conjE)
    apply (rule fine_bind2 [OF process_fine], subst boot_globals, assumption, unfold grows_def, elim conjE)
    apply (rule fine_bind2 [OF alloc_fine], assumption, simp add: sizeof_Thread_def, elim conjE, unfold Let_def)
    apply (rule fine_bind2 [OF event_fine], subst boot_upd, subst boot_globals, assumption, unfold grows_def, elim conjE)
    apply (rule fine_bind [OF start_threads_fine])
     subgoal premises a for l1 s1 l2 s2 p s3 ti h e s5
       using a unfolding made_def by (intro exI [of _ "{e, ti}"]) (auto simp: same_globals_def boot_ok_def)
    by (simp add: fine_def)
qed

end
