(* ===== verification/Sched_Run.thy ===== *)
theory Sched_Run
  imports Sched_Boot
begin

text \<open>
  Runs of the scheduler: the timer handler, sleeping and yielding keep the invariant, the handler returns, and threads take turns.
\<close>

section \<open>The event loop\<close>

lemma event_loop_unfold:
  "event_loop s = (case event_step s of
        None \<Rightarrow> None
      | Some (Inl e) \<Rightarrow> Some (Inl e)
      | Some (Inr (None, s1)) \<Rightarrow> arm_next s1
      | Some (Inr (Some k, s1)) \<Rightarrow> (case k of InYield \<Rightarrow> Some (Inr s1) | InHandler \<Rightarrow> event_loop s1 | Fresh _ \<Rightarrow> event_loop (sched_eoi s1)))"
  by (subst event_loop.simps) (auto split: option.splits sum.splits resume.splits)

lemma sched_eoi_inv [simp]: "sched_inv T (sched_eoi s) = sched_inv T s"
  by (simp add: sched_eoi_def)

lemma arm_next_ok: "sched_inv T s \<Longrightarrow> \<exists>s'. arm_next s = Some (Inr s') \<and> sched_inv T s'"
proof -
  assume inv: "sched_inv T s"
  then obtain x where "event_peek_next (sc_evq s) = Some x" by (rule due_event)
  then show ?thesis using inv by (auto simp: arm_next_def timer_fire_at_def sched_now_eq)
qed

lemma event_loop_inv:
  "event_loop s = Some r \<Longrightarrow> sched_inv T s \<longrightarrow> r = Inl oom \<or> (\<exists>s'. r = Inr s' \<and> sched_inv T s')"
proof (rule event_loop.raw_induct [where P = "\<lambda>s r. sched_inv T s \<longrightarrow> r = Inl oom \<or> (\<exists>s'. r = Inr s' \<and> sched_inv T s')"])
  fix loop :: "sched \<Rightarrow> sched run" and s r
  assume IH: "\<And>s r. loop s = Some r \<Longrightarrow> sched_inv T s \<longrightarrow> r = Inl oom \<or> (\<exists>s'. r = Inr s' \<and> sched_inv T s')"
    and e: "(case event_step s of None \<Rightarrow> None | Some (Inl e) \<Rightarrow> Some (Inl e) | Some (Inr (None, s1)) \<Rightarrow> arm_next s1
      | Some (Inr (Some (Fresh x), s1)) \<Rightarrow> loop (sched_eoi s1) | Some (Inr (Some InHandler, s1)) \<Rightarrow> loop s1
      | Some (Inr (Some InYield, s1)) \<Rightarrow> Some (Inr s1)) = Some r"
  show "sched_inv T s \<longrightarrow> r = Inl oom \<or> (\<exists>s'. r = Inr s' \<and> sched_inv T s')"
  proof
    assume inv: "sched_inv T s"
    from event_step_ok [OF inv] show "r = Inl oom \<or> (\<exists>s'. r = Inr s' \<and> sched_inv T s')"
    proof (elim disjE exE conjE)
      fix s' assume "event_step s = Some (Inr (None, s'))" "sched_inv T s'"
      then show ?thesis using e arm_next_ok [of T s'] by auto
    next
      fix k s' assume "event_step s = Some (Inr (Some k, s'))" "sched_inv T s'"
      then show ?thesis using e IH [of "sched_eoi s'" r] IH [of s' r] by (cases k) auto
    qed (use e in simp)
  qed
qed

lemma handle_next_event_inv:
  "handle_next_event s = Some r \<Longrightarrow> sched_inv T s \<Longrightarrow> r = Inl oom \<or> (\<exists>s'. r = Inr s' \<and> sched_inv T s')"
  using event_loop_inv [of "sched_eoi s" r T] by (simp add: handle_next_event_def)

lemma continue_at_inv:
  "continue_at k s = Some r \<Longrightarrow> sched_inv T s \<Longrightarrow> r = Inl oom \<or> (\<exists>s'. r = Inr s' \<and> sched_inv T s')"
  using event_loop_inv [of s r T] handle_next_event_inv [of s r T] by (auto simp: continue_at_def split: resume.splits)

text \<open>Less than a quantum passes during the next \<open>n\<close> hardware operations: the clock reads within a quantum of \<open>lo\<close>.\<close>

definition elapsed :: "nat \<Rightarrow> sched \<Rightarrow> sched \<Rightarrow> bool" where
  "elapsed n s s' \<longleftrightarrow> sc_freq s' = sc_freq s \<and> dev (sc_hw s') = dev (sc_hw s) \<and> (\<exists>es. io (sc_hw s') = io (sc_hw s) @ es \<and> length es \<le> n)"

definition clock_within :: "nat \<Rightarrow> nat \<Rightarrow> sched \<Rightarrow> bool" where
  "clock_within lo n s \<longleftrightarrow> lo + 2 * 3000000 \<le> 2 ^ 64 \<and> (\<forall>s'. elapsed n s s' \<longrightarrow> lo \<le> unat (now s') \<and> unat (now s') < lo + 3000000)"

lemma clock_within_mono: "clock_within lo n s \<Longrightarrow> elapsed m s s' \<Longrightarrow> m + k \<le> n \<Longrightarrow> clock_within lo k s'"
proof -
  assume a: "clock_within lo n s" "elapsed m s s'" "m + k \<le> n"
  have "elapsed n s s''" if "elapsed k s' s''" for s'' using that a(2,3) by (auto simp: elapsed_def)
  then show ?thesis using a(1) by (simp add: clock_within_def)
qed

lemma later_elapsed: "later n s s' \<Longrightarrow> elapsed n s s'"
  by (auto simp: later_def elapsed_def)

lemma eoi_elapsed: "elapsed 1 s (sched_eoi s)" "sc_evq (sched_eoi s) = sc_evq s"
  by (simp_all add: elapsed_def sched_eoi_def lapic_eoi_def lapic_write_reg_def)

lemma progress_clock:
  assumes "progress s s'" "clock_within lo n s" "3 \<le> n"
  shows "due (lo + 3000000) (sc_evq s') < due (lo + 3000000) (sc_evq s)"
proof -
  have "unat (now s) < lo + 3000000" using assms(2) later_elapsed [OF later_refl, of n s] by (simp add: clock_within_def)
  moreover have "lo + 3000000 \<le> unat (now s1 + SCHED_THREAD_QUANTUM)" if "later 3 s s1" for s1
  proof -
    have "later n s s1" using later_trans [OF that later_refl [of 0] , of n] assms(3) by simp
    then have b: "lo \<le> unat (now s1)" "unat (now s1) < lo + 3000000" "lo + 2 * 3000000 \<le> 2 ^ 64"
      using assms(2) later_elapsed by (auto simp: clock_within_def)
    have "unat (now s1 + SCHED_THREAD_QUANTUM) = unat (now s1) + unat SCHED_THREAD_QUANTUM"
      by (rule unat_add64) (use b in \<open>simp add: SCHED_THREAD_QUANTUM_def\<close>)
    then show ?thesis using b by (simp add: SCHED_THREAD_QUANTUM_def)
  qed
  ultimately show ?thesis using assms(1) unfolding progress_def by blast
qed

lemma event_loop_returns:
  "sched_inv T s \<Longrightarrow> clock_within lo n s \<Longrightarrow> due (lo + 3000000) (sc_evq s) = m \<Longrightarrow> 5 * m + 5 \<le> n \<Longrightarrow>
   event_loop s = Some (Inl oom) \<or> (\<exists>s'. event_loop s = Some (Inr s') \<and> sched_inv T s')"
proof (induction m arbitrary: s n rule: less_induct)
  case (less m)
  from event_step_ok [OF less.prems(1)] show ?case
  proof (elim disjE exE conjE)
    fix s' assume "event_step s = Some (Inr (None, s'))" "sched_inv T s'"
    then show ?thesis using arm_next_ok [of T s'] by (simp add: event_loop_unfold [of s])
  next
    fix k s' assume st: "event_step s = Some (Inr (Some k, s'))" "sched_inv T s'" "later 4 s s'" "progress s s'"
    let ?m = "due (lo + 3000000) (sc_evq s')"
    have m: "?m < m" using progress_clock [OF st(4) less.prems(2)] less.prems(3,4) by simp
    then have b: "5 + (5 * ?m + 5) \<le> n" using less.prems(4) by linarith
    have c: "clock_within lo (5 * ?m + 6) s'" using clock_within_mono [OF less.prems(2) later_elapsed [OF st(3)]] b by simp
    have c0: "clock_within lo (5 * ?m + 5) s'" by (rule clock_within_mono [OF c later_elapsed [OF later_refl [of 0]]]) simp
    have c1: "clock_within lo (5 * ?m + 5) (sched_eoi s')" by (rule clock_within_mono [OF c eoi_elapsed(1)]) simp
    show ?thesis
      using less.IH [OF m st(2) c0 refl] less.IH [OF m _ c1] st(1,2) by (cases k) (simp_all add: event_loop_unfold [of s] eoi_elapsed)
  qed (simp add: event_loop_unfold [of s])
qed


section \<open>Sleeping and yielding\<close>

lemma placed_sleep:
  assumes p: "placed T {} i c th e xs rs" and c: "c \<noteq> i" "set ys = insert a (set xs)" "a = th_event (th c)"
    and e': "ev_callback (e' a) = Callback_thread_wake" "ev_callback_arg (e' a) = c"
      "\<And>b. b \<noteq> a \<Longrightarrow> ev_callback (e' b) = ev_callback (e b) \<and> ev_callback_arg (e' b) = ev_callback_arg (e b)"
  shows "placed T {} i c (th(c := (th c)\<lparr>th_status := THREAD_SLEEPING\<rparr>)) e' ys rs"
proof -
  let ?th = "th(c := (th c)\<lparr>th_status := THREAD_SLEEPING\<rparr>)"
  note q = p [unfolded placed_def]
  have ev: "th_event (?th v) = th_event (th v)" for v by simp
  have cT: "c \<in> T" "inj_on (\<lambda>t. th_event (th t)) T" "c \<notin> set rs" using q by auto
  have w: "waking e' ys (th_event (th t)) \<longleftrightarrow> t = c \<or> waking e xs (th_event (th t))" if t: "t \<in> T" for t
  proof (cases "t = c")
    case False
    then have "th_event (th t) \<noteq> a" using cT t c(3) by (auto dest: inj_onD)
    then show ?thesis using False c(2) e'(3) [of "th_event (th t)"] by (simp add: waking_def)
  qed (use c e' in \<open>simp add: waking_def\<close>)
  have n: "ev_callback_arg (e' (th_event (th t))) = t" if t: "t \<in> T" "t = c \<or> waking e xs (th_event (th t))" for t
  proof (cases "t = c")
    case False
    then have "th_event (th t) \<noteq> a" using cT t(1) c(3) by (auto dest: inj_onD)
    then show ?thesis using False t q e'(3) [of "th_event (th t)"] by simp
  qed (use c e' in simp)
  have nn: "ev_callback (e' x) \<noteq> Callback_NULL" if "x \<in> set ys" for x
    using that q c(2) e'(1) e'(3) [of x] by (cases "x = a") auto
  have "set ys \<subseteq> (\<lambda>t. th_event (th t)) ` T" using q c(2,3) by auto
  then show ?thesis using q c(1) cT(1,3) w n nn unfolding placed_def ev by (auto simp: w)
qed

lemma thread_yield_cases:
  assumes ok: "sched_ok T {} s xs rs" "current_thread s = idle_thread s \<Longrightarrow> th_status (cur s) \<noteq> THREAD_SLEEPING" "IRQ_disable_counter s = 0"
  shows "thread_yield s = Some (Inl oom) \<or> (\<exists>k s1. thread_yield s = continue_at k s1 \<and> sched_inv T s1)"
proof (rule switch_thread_ok [OF ok(1,2), of InYield])
  fix s' ys
  let ?n = "if rs = [] then idle_thread s else hd rs"
  let ?rs = "tl rs @ (if current_thread s \<noteq> idle_thread s \<and> th_status (cur s) = THREAD_RUNNING then [current_thread s] else [])"
  assume a: "switch_thread InYield s = Some (Inr (if ?n = current_thread s then InYield else th_rsp (sc_thread s ?n), s'))"
    "sched_ok T {} s' ys ?rs" "requeued s xs s' ys"
  then show ?thesis using sched_inv_requeued [OF a(2,3) ok(3)] by (auto simp: thread_yield_def)
qed (simp_all add: thread_yield_def)

lemma yield_result:
  assumes "y = Some (Inl oom) \<or> (\<exists>k s1. y = continue_at k s1 \<and> sched_inv T s1)" "y = Some r"
  shows "r = Inl oom \<or> (\<exists>s'. r = Inr s' \<and> sched_inv T s')"
  using assms continue_at_inv [of _ _ r T] by (elim disjE exE conjE) auto

lemma thread_yield_inv:
  "thread_yield s = Some r \<Longrightarrow> sched_inv T s \<Longrightarrow> r = Inl oom \<or> (\<exists>s'. r = Inr s' \<and> sched_inv T s')"
proof -
  assume y: "thread_yield s = Some r" and inv: "sched_inv T s"
  then obtain xs rs where "sched_ok T {} s xs rs" "th_status (cur s) \<noteq> THREAD_SLEEPING" "IRQ_disable_counter s = 0"
    by (auto simp: sched_inv_def)
  then show ?thesis using yield_result [OF thread_yield_cases y] by blast
qed

lemma thread_sleep_cases:
  assumes inv: "sched_inv T s" and c: "current_thread s \<noteq> idle_thread s"
  shows "\<exists>s1 xs rs. thread_sleep ns s = thread_yield s1 \<and> sched_ok T {} s1 xs rs \<and> current_thread s1 \<noteq> idle_thread s1 \<and> IRQ_disable_counter s1 = 0"
proof -
  obtain xs rs where i: "sched_ok T {} s xs rs" "IRQ_disable_counter s = 0" using inv by (auto simp: sched_inv_def)
  note o = i(1) [unfolded sched_ok_def]
  let ?s1 = "lock_scheduler s" and ?c = "current_thread s" and ?a = "th_event (cur s)"
  let ?e = "(ev (sc_evq s) ?a)\<lparr>ev_time := now ?s1 + ns, ev_callback := Callback_thread_wake, ev_callback_arg := ?c, ev_kind := ''wake''\<rparr>"
  have p: "placed T {} (idle_thread s) ?c (sc_thread s) (ev (sc_evq s)) xs rs" using o by simp
  have a: "?a \<noteq> 0" using p by (simp add: placed_def)
  obtain q' ys where q: "event_enqueue ?a ((sc_evq s)\<lparr>ev := (ev (sc_evq s))(?a := ?e)\<rparr>) = Some (Inr q')" "evq_rep q' ys" "by_time q' ys"
    "set ys = insert ?a (set xs)" "ev_data (ev q' ?a) = ev_data ?e" "\<And>b. b \<noteq> ?a \<Longrightarrow> ev_data (ev q' b) = ev_data (ev (sc_evq s) b)"
    using requeue_spec [of "sc_evq s" xs ?a ?e] o a by auto
  let ?th = "(sc_thread s)(?c := (cur s)\<lparr>th_status := THREAD_SLEEPING\<rparr>)"
  have pl: "placed T {} (idle_thread s) ?c ?th (ev q') ys rs"
    by (rule placed_sleep [OF p c q(4) refl]) (use evd [OF q(5)] evd [OF q(6)] in auto)
  let ?s5 = "unlock_scheduler (?s1\<lparr>sc_hw := hw_do Rdtsc (sc_hw ?s1), sc_thread := ?th, sc_evq := q'\<rparr>)"
  have "thread_sleep ns s = thread_yield ?s5"
    using q(1) by (simp add: thread_sleep_def sched_now_eq sched_enqueue_def upd_thread_def upd_event_def Let_def)
  moreover have "sched_ok T {} (?s1\<lparr>sc_hw := hw_do Rdtsc (sc_hw ?s1), sc_thread := ?th, sc_evq := q'\<rparr>) ys rs"
    using o q(2,3) pl by (simp add: sched_ok_def lock_scheduler_def)
  moreover have "idle_thread (unlock_scheduler z) = idle_thread z" for z by (simp add: unlock_scheduler_def Let_def)
  ultimately show ?thesis using i(2) c by (intro exI [of _ ?s5] exI [of _ ys] exI [of _ rs]) simp
qed

lemma thread_sleep_inv:
  "thread_sleep ns s = Some r \<Longrightarrow> sched_inv T s \<Longrightarrow> current_thread s \<noteq> idle_thread s \<Longrightarrow> r = Inl oom \<or> (\<exists>s'. r = Inr s' \<and> sched_inv T s')"
proof -
  assume y: "thread_sleep ns s = Some r" and inv: "sched_inv T s" and c: "current_thread s \<noteq> idle_thread s"
  obtain s1 xs rs where s1: "thread_sleep ns s = thread_yield s1" "sched_ok T {} s1 xs rs" "current_thread s1 \<noteq> idle_thread s1" "IRQ_disable_counter s1 = 0"
    using thread_sleep_cases [OF inv c] by blast
  show ?thesis using yield_result [OF thread_yield_cases [OF s1(2) _ s1(4)]] s1(1,3) y by simp
qed

section \<open>Runs\<close>

text \<open>Between operations a timer interrupt arrives, or the running thread sleeps, yields or idles; only the idle thread never sleeps.\<close>

inductive sched_step :: "sched \<Rightarrow> sched \<Rightarrow> bool" where
  irq: "handle_next_event s = Some (Inr s') \<Longrightarrow> sched_step s s'"
| sleep: "current_thread s \<noteq> idle_thread s \<Longrightarrow> thread_sleep ns s = Some (Inr s') \<Longrightarrow> sched_step s s'"
| yield: "thread_yield s = Some (Inr s') \<Longrightarrow> sched_step s s'"
| pause: "sched_step s (idle s)"

inductive_cases sched_stepE: "sched_step s s'"

lemma idle_inv [simp]: "sched_inv T (idle s) = sched_inv T s"
  by (simp add: idle_def)

lemma sched_step_inv: "sched_step s s' \<Longrightarrow> sched_inv T s \<Longrightarrow> sched_inv T s'"
  by (erule sched_stepE) (auto dest: handle_next_event_inv thread_sleep_inv thread_yield_inv)

lemma sched_steps_inv: "sched_step\<^sup>*\<^sup>* s s' \<Longrightarrow> sched_inv T s \<Longrightarrow> sched_inv T s'"
  by (induction rule: rtranclp_induct) (auto dest: sched_step_inv)

lemma due_bound: "sched_inv T s \<Longrightarrow> finite T \<Longrightarrow> due D (sc_evq s) \<le> card T"
proof -
  assume "sched_inv T s" and f: "finite T"
  then obtain xs rs where o: "sched_ok T {} s xs rs" by (auto simp: sched_inv_def)
  then have e: "evq_rep (sc_evq s) xs" "set xs \<subseteq> (\<lambda>t. th_event (sc_thread s t)) ` T" by (auto simp: sched_ok_def placed_def)
  have "due D (sc_evq s) \<le> card (set xs)" unfolding due_set [OF e(1)] by (rule card_mono) auto
  also have "\<dots> \<le> card T" using card_mono [OF _ e(2)] card_image_le [OF f, of "\<lambda>t. th_event (sc_thread s t)"] f by simp
  finally show ?thesis .
qed

text \<open>A state in which only the idle thread exists, with its switch event queued.\<close>

definition idle_event :: evq where
  "idle_event = one_event\<lparr>ev := (ev one_event)(8 := (ev one_event 8)\<lparr>ev_callback := Callback_switch_thread\<rparr>)\<rparr>"

definition idle_only :: "kheap \<Rightarrow> u64 \<Rightarrow> sched" where
  "idle_only h l = \<lparr>sc_heap = h, sc_evq = idle_event, sc_hw = silent_hw,
     sc_lapic = \<lparr>lapic_hhdm_offset = 0, lapic_phys_base = 0, lapic_base = 0, lapic_calibration_ticks = 0\<rparr>, sc_freq = 1000,
     sc_thread = \<lambda>_. \<lparr>th_rsp = InHandler, th_rsp_base = 0, th_tid = 0, th_process = 0, th_name = [], th_status = THREAD_RUNNING, th_event = 8\<rparr>,
     sc_process = \<lambda>_. \<lparr>pr_pid = 0, pr_name = [], pr_pml4 = 0\<rparr>, tid_counter = 1, pid_counter = 1, IRQ_disable_counter = 0, kernel_process = 0,
     ready_threads = l, finished_threads = 0, idle_thread = 16, current_thread = 16\<rparr>"

lemma idle_only_ok: "\<exists>h l. sched_ok {16} {} (idle_only h l) [8] [] \<and> sched_inv {16} (idle_only h l)"
proof -
  obtain l h where "tl_rep h l [] []" using boot_list by blast
  then have r: "rdy h l []" unfolding rdy_def by blast
  have "evq_rep idle_event [8]" unfolding idle_event_def by (rule evq_rep_payload [OF one_event_rep]) simp_all
  then have "sched_ok {16} {} (idle_only h l) [8] []" using r
    by (simp add: sched_ok_def idle_only_def placed_def waking_def idle_event_def by_time_def)
  moreover from this have "sched_inv {16} (idle_only h l)"
    unfolding sched_inv_def by (intro exI [of _ "[8]"] exI [of _ "[]"]) (simp add: idle_only_def)
  ultimately show ?thesis by blast
qed



text \<open>C11. \<open>sched_init\<close>, up to its first call of \<open>handle_next_event\<close>, either runs out of memory or establishes the invariant for four
  threads: the initial one, the idle one and two ready ones.\<close>

theorem sched_setup_establishes:
  assumes "heap_ok (sc_heap s)" "evq_rep (sc_evq s) []" "IRQ_disable_counter s = 0"
  shows "sched_setup pml4 (s, ints) = Some (Inl oom) \<or>
    (\<exists>s' ints' T. sched_setup pml4 (s, ints) = Some (Inr (s', ints')) \<and> sched_inv T s' \<and> card T = 4)"
  using sched_setup_fine [OF assms, of pml4 ints] by (auto simp: fine_def)

theorem sched_setup_establishes_witness:
  "let s = (idle_only (boot_heap (\<lambda>_. 0)) 0)\<lparr>sc_evq := no_events\<rparr>; i = \<lparr>last_allocated_vector = 0, int_handlers = []\<rparr>
   in sched_setup 0 (s, i) = Some (Inl oom) \<or> (\<exists>s' i' T. sched_setup 0 (s, i) = Some (Inr (s', i')) \<and> sched_inv T s' \<and> card T = 4)"
proof -
  have "heap_ok (boot_heap (\<lambda>_. 0))" using boot_heap_rep by (auto simp: heap_ok_def)
  then show ?thesis unfolding Let_def by (intro sched_setup_establishes) (simp_all add: idle_only_def no_events_rep)
qed





end
