(* ===== verification/Acpi_Kernel.thy ===== *)
theory Acpi_Kernel
  imports Madt Tty
begin

text \<open>
  \<open>kernel/acpi/uacpi_interface.c\<close>: what the kernel offers to the ACPI library. Early table access needs the address of the root
  table, a mapping of physical memory and the log; every other callback is a stub that fails an assertion. Setting up the table
  access itself is uACPI's and takes the buffer handed to it.
\<close>

datatype uacpi_status =
    UACPI_STATUS_OK
  | UACPI_STATUS_MAPPING_FAILED
  | UACPI_STATUS_OUT_OF_MEMORY
  | UACPI_STATUS_BAD_CHECKSUM
  | UACPI_STATUS_INVALID_SIGNATURE
  | UACPI_STATUS_INVALID_TABLE_LENGTH
  | UACPI_STATUS_NOT_FOUND
  | UACPI_STATUS_INVALID_ARGUMENT
  | UACPI_STATUS_UNIMPLEMENTED
  | UACPI_STATUS_ALREADY_EXISTS
  | UACPI_STATUS_INTERNAL_ERROR
  | UACPI_STATUS_TYPE_MISMATCH
  | UACPI_STATUS_INIT_LEVEL_MISMATCH
  | UACPI_STATUS_NAMESPACE_NODE_DANGLING
  | UACPI_STATUS_NO_HANDLER
  | UACPI_STATUS_NO_RESOURCE_END_TAG
  | UACPI_STATUS_COMPILED_OUT
  | UACPI_STATUS_HARDWARE_TIMEOUT
  | UACPI_STATUS_TIMEOUT
  | UACPI_STATUS_OVERRIDDEN
  | UACPI_STATUS_DENIED
  | UACPI_STATUS_AML_UNDEFINED_REFERENCE
  | UACPI_STATUS_AML_INVALID_NAMESTRING
  | UACPI_STATUS_AML_OBJECT_ALREADY_EXISTS
  | UACPI_STATUS_AML_INVALID_OPCODE
  | UACPI_STATUS_AML_INCOMPATIBLE_OBJECT_TYPE
  | UACPI_STATUS_AML_BAD_ENCODING
  | UACPI_STATUS_AML_OUT_OF_BOUNDS_INDEX
  | UACPI_STATUS_AML_SYNC_LEVEL_TOO_HIGH
  | UACPI_STATUS_AML_INVALID_RESOURCE
  | UACPI_STATUS_AML_LOOP_TIMEOUT
  | UACPI_STATUS_AML_CALL_STACK_DEPTH_LIMIT

fun uacpi_status_val :: "uacpi_status \<Rightarrow> u32" where
  "uacpi_status_val UACPI_STATUS_OK = 0"
| "uacpi_status_val UACPI_STATUS_MAPPING_FAILED = 1"
| "uacpi_status_val UACPI_STATUS_OUT_OF_MEMORY = 2"
| "uacpi_status_val UACPI_STATUS_BAD_CHECKSUM = 3"
| "uacpi_status_val UACPI_STATUS_INVALID_SIGNATURE = 4"
| "uacpi_status_val UACPI_STATUS_INVALID_TABLE_LENGTH = 5"
| "uacpi_status_val UACPI_STATUS_NOT_FOUND = 6"
| "uacpi_status_val UACPI_STATUS_INVALID_ARGUMENT = 7"
| "uacpi_status_val UACPI_STATUS_UNIMPLEMENTED = 8"
| "uacpi_status_val UACPI_STATUS_ALREADY_EXISTS = 9"
| "uacpi_status_val UACPI_STATUS_INTERNAL_ERROR = 10"
| "uacpi_status_val UACPI_STATUS_TYPE_MISMATCH = 11"
| "uacpi_status_val UACPI_STATUS_INIT_LEVEL_MISMATCH = 12"
| "uacpi_status_val UACPI_STATUS_NAMESPACE_NODE_DANGLING = 13"
| "uacpi_status_val UACPI_STATUS_NO_HANDLER = 14"
| "uacpi_status_val UACPI_STATUS_NO_RESOURCE_END_TAG = 15"
| "uacpi_status_val UACPI_STATUS_COMPILED_OUT = 16"
| "uacpi_status_val UACPI_STATUS_HARDWARE_TIMEOUT = 17"
| "uacpi_status_val UACPI_STATUS_TIMEOUT = 18"
| "uacpi_status_val UACPI_STATUS_OVERRIDDEN = 19"
| "uacpi_status_val UACPI_STATUS_DENIED = 20"
| "uacpi_status_val UACPI_STATUS_AML_UNDEFINED_REFERENCE = 0x0EFF0000"
| "uacpi_status_val UACPI_STATUS_AML_INVALID_NAMESTRING = 0x0EFF0001"
| "uacpi_status_val UACPI_STATUS_AML_OBJECT_ALREADY_EXISTS = 0x0EFF0002"
| "uacpi_status_val UACPI_STATUS_AML_INVALID_OPCODE = 0x0EFF0003"
| "uacpi_status_val UACPI_STATUS_AML_INCOMPATIBLE_OBJECT_TYPE = 0x0EFF0004"
| "uacpi_status_val UACPI_STATUS_AML_BAD_ENCODING = 0x0EFF0005"
| "uacpi_status_val UACPI_STATUS_AML_OUT_OF_BOUNDS_INDEX = 0x0EFF0006"
| "uacpi_status_val UACPI_STATUS_AML_SYNC_LEVEL_TOO_HIGH = 0x0EFF0007"
| "uacpi_status_val UACPI_STATUS_AML_INVALID_RESOURCE = 0x0EFF0008"
| "uacpi_status_val UACPI_STATUS_AML_LOOP_TIMEOUT = 0x0EFF0009"
| "uacpi_status_val UACPI_STATUS_AML_CALL_STACK_DEPTH_LIMIT = 0x0EFF000A"

datatype uacpi_log_level = UACPI_LOG_ERROR | UACPI_LOG_WARN | UACPI_LOG_INFO | UACPI_LOG_TRACE | UACPI_LOG_DEBUG

record acpi_kernel =
  rsdp_address :: u64
  acpi_hhdm_offset :: u64
  early_buffer :: "(u64 \<times> u64) option"

text \<open>\<open>early_buffer\<close> is the buffer given to \<open>uacpi_setup_early_table_access\<close>.\<close>

definition acpi_init :: "u64 \<Rightarrow> u64 \<Rightarrow> acpi_kernel \<times> kheap \<Rightarrow> (acpi_kernel \<times> kheap) run" where
  "acpi_init rsdp offset = (\<lambda>(a, h).
     let a1 = a\<lparr>rsdp_address := rsdp, acpi_hhdm_offset := offset\<rparr>
     in rbind (kmalloc h 4096) (\<lambda>(tmp_buf, h1). Some (Inr (a1\<lparr>early_buffer := Some (tmp_buf, 4096)\<rparr>, h1))))"

definition uacpi_kernel_get_rsdp :: "acpi_kernel \<Rightarrow> uacpi_status \<times> u64" where
  "uacpi_kernel_get_rsdp a = (UACPI_STATUS_OK, rsdp_address a)"

definition uacpi_kernel_map :: "acpi_kernel \<Rightarrow> u64 \<Rightarrow> u64 \<Rightarrow> u64" where
  "uacpi_kernel_map a addr len = addr + acpi_hhdm_offset a"

definition uacpi_kernel_unmap :: "u64 \<Rightarrow> u64 \<Rightarrow> acpi_kernel \<Rightarrow> acpi_kernel" where
  "uacpi_kernel_unmap addr len a = a"

definition uacpi_kernel_log :: "uacpi_log_level \<Rightarrow> string \<Rightarrow> tty \<Rightarrow> tty option" where
  "uacpi_kernel_log level msg t =
     (case level of
        UACPI_LOG_INFO \<Rightarrow> Some t | UACPI_LOG_TRACE \<Rightarrow> Some t | UACPI_LOG_DEBUG \<Rightarrow> Some t
      | UACPI_LOG_WARN \<Rightarrow> kprintf ''[UACPI][WARN] %s'' [KStr msg] t
      | UACPI_LOG_ERROR \<Rightarrow> kprintf ''[UACPI][ERROR] %s'' [KStr msg] t)"

section \<open>Callbacks that are not implemented\<close>

definition uacpi_kernel_free :: "halt + unit" where
  "uacpi_kernel_free = kassert False ''UNIMPLEMENTED: uacpi_kernel_free''"

definition uacpi_kernel_alloc :: "halt + unit" where
  "uacpi_kernel_alloc = kassert False ''UNIMPLEMENTED: uacpi_kernel_alloc''"

definition uacpi_kernel_pci_device_open :: "halt + uacpi_status" where
  "uacpi_kernel_pci_device_open = Inr UACPI_STATUS_UNIMPLEMENTED"

definition uacpi_kernel_pci_device_close :: "halt + unit" where
  "uacpi_kernel_pci_device_close = kassert False ''UNIMPLEMENTED: uacpi_kernel_pci_device_close''"

definition uacpi_kernel_pci_read :: "halt + uacpi_status" where
  "uacpi_kernel_pci_read = kbind (kassert False ''UNIMPLEMENTED: uacpi_kernel_pci_device_close'') (\<lambda>_. Inr UACPI_STATUS_UNIMPLEMENTED)"

definition uacpi_kernel_pci_write :: "halt + uacpi_status" where
  "uacpi_kernel_pci_write = kbind (kassert False ''UNIMPLEMENTED: uacpi_kernel_pci_write'') (\<lambda>_. Inr UACPI_STATUS_UNIMPLEMENTED)"

definition uacpi_kernel_pci_read8 :: "halt + uacpi_status" where
  "uacpi_kernel_pci_read8 = kbind (kassert False ''UNIMPLEMENTED: uacpi_kernel_pci_read8'') (\<lambda>_. Inr UACPI_STATUS_UNIMPLEMENTED)"

definition uacpi_kernel_pci_read16 :: "halt + uacpi_status" where
  "uacpi_kernel_pci_read16 = kbind (kassert False ''UNIMPLEMENTED: uacpi_kernel_pci_read16'') (\<lambda>_. Inr UACPI_STATUS_UNIMPLEMENTED)"

definition uacpi_kernel_pci_read32 :: "halt + uacpi_status" where
  "uacpi_kernel_pci_read32 = kbind (kassert False ''UNIMPLEMENTED: uacpi_kernel_pci_read32'') (\<lambda>_. Inr UACPI_STATUS_UNIMPLEMENTED)"

definition uacpi_kernel_pci_write8 :: "halt + uacpi_status" where
  "uacpi_kernel_pci_write8 = kbind (kassert False ''UNIMPLEMENTED: uacpi_kernel_pci_write8'') (\<lambda>_. Inr UACPI_STATUS_UNIMPLEMENTED)"

definition uacpi_kernel_pci_write16 :: "halt + uacpi_status" where
  "uacpi_kernel_pci_write16 = kbind (kassert False ''UNIMPLEMENTED: uacpi_kernel_pci_write16'') (\<lambda>_. Inr UACPI_STATUS_UNIMPLEMENTED)"

definition uacpi_kernel_pci_write32 :: "halt + uacpi_status" where
  "uacpi_kernel_pci_write32 = kbind (kassert False ''UNIMPLEMENTED: uacpi_kernel_pci_write32'') (\<lambda>_. Inr UACPI_STATUS_UNIMPLEMENTED)"

definition uacpi_kernel_io_map :: "halt + uacpi_status" where
  "uacpi_kernel_io_map = kbind (kassert False ''UNIMPLEMENTED: uacpi_kernel_io_map'') (\<lambda>_. Inr UACPI_STATUS_UNIMPLEMENTED)"

definition uacpi_kernel_io_unmap :: "halt + unit" where
  "uacpi_kernel_io_unmap = kassert False ''UNIMPLEMENTED: uacpi_kernel_io_unmap''"

definition uacpi_kernel_io_read8 :: "halt + uacpi_status" where
  "uacpi_kernel_io_read8 = kbind (kassert False ''UNIMPLEMENTED: uacpi_kernel_io_read8'') (\<lambda>_. Inr UACPI_STATUS_UNIMPLEMENTED)"

definition uacpi_kernel_io_read16 :: "halt + uacpi_status" where
  "uacpi_kernel_io_read16 = kbind (kassert False ''UNIMPLEMENTED: uacpi_kernel_io_read16'') (\<lambda>_. Inr UACPI_STATUS_UNIMPLEMENTED)"

definition uacpi_kernel_io_read32 :: "halt + uacpi_status" where
  "uacpi_kernel_io_read32 = kbind (kassert False ''UNIMPLEMENTED: uacpi_kernel_io_read32'') (\<lambda>_. Inr UACPI_STATUS_UNIMPLEMENTED)"

definition uacpi_kernel_io_write8 :: "halt + uacpi_status" where
  "uacpi_kernel_io_write8 = kbind (kassert False ''UNIMPLEMENTED: uacpi_kernel_io_write8'') (\<lambda>_. Inr UACPI_STATUS_UNIMPLEMENTED)"

definition uacpi_kernel_io_write16 :: "halt + uacpi_status" where
  "uacpi_kernel_io_write16 = kbind (kassert False ''UNIMPLEMENTED: uacpi_kernel_io_write16'') (\<lambda>_. Inr UACPI_STATUS_UNIMPLEMENTED)"

definition uacpi_kernel_io_write32 :: "halt + uacpi_status" where
  "uacpi_kernel_io_write32 = kbind (kassert False ''UNIMPLEMENTED: uacpi_kernel_io_write32'') (\<lambda>_. Inr UACPI_STATUS_UNIMPLEMENTED)"

definition uacpi_kernel_get_nanoseconds_since_boot :: "halt + unit" where
  "uacpi_kernel_get_nanoseconds_since_boot = kassert False ''UNIMPLEMENTED: uacpi_kernel_get_nanoseconds_since_boot''"

definition uacpi_kernel_stall :: "halt + unit" where
  "uacpi_kernel_stall = kassert False ''UNIMPLEMENTED: uacpi_kernel_stall''"

definition uacpi_kernel_sleep :: "halt + unit" where
  "uacpi_kernel_sleep = kassert False ''UNIMPLEMENTED: uacpi_kernel_sleep''"

definition uacpi_kernel_create_event :: "halt + unit" where
  "uacpi_kernel_create_event = kassert False ''UNIMPLEMENTED: uacpi_kernel_create_event''"

definition uacpi_kernel_free_event :: "halt + unit" where
  "uacpi_kernel_free_event = kassert False ''UNIMPLEMENTED: uacpi_kernel_free_event''"

definition uacpi_kernel_get_thread_id :: "halt + unit" where
  "uacpi_kernel_get_thread_id = kassert False ''UNIMPLEMENTED: uacpi_kernel_get_thread_id''"

definition uacpi_kernel_create_mutex :: "halt + unit" where
  "uacpi_kernel_create_mutex = kassert False ''UNIMPLEMENTED: uacpi_kernel_create_mutex''"

definition uacpi_kernel_free_mutex :: "halt + unit" where
  "uacpi_kernel_free_mutex = kassert False ''UNIMPLEMENTED: uacpi_kernel_free_mutex''"

definition uacpi_kernel_acquire_mutex :: "halt + unit" where
  "uacpi_kernel_acquire_mutex = kassert False ''UNIMPLEMENTED: uacpi_kernel_acquire_mutex''"

definition uacpi_kernel_release_mutex :: "halt + unit" where
  "uacpi_kernel_release_mutex = kassert False ''UNIMPLEMENTED: uacpi_kernel_release_mutex''"

definition uacpi_kernel_wait_for_event :: "halt + unit" where
  "uacpi_kernel_wait_for_event = kassert False ''UNIMPLEMENTED: uacpi_kernel_wait_for_event''"

definition uacpi_kernel_signal_event :: "halt + unit" where
  "uacpi_kernel_signal_event = kassert False ''UNIMPLEMENTED: uacpi_kernel_signal_event''"

definition uacpi_kernel_reset_event :: "halt + unit" where
  "uacpi_kernel_reset_event = kassert False ''UNIMPLEMENTED: uacpi_kernel_reset_event''"

definition uacpi_kernel_handle_firmware_request :: "halt + uacpi_status" where
  "uacpi_kernel_handle_firmware_request = kbind (kassert False ''UNIMPLEMENTED: uacpi_kernel_handle_firmware_request'') (\<lambda>_. Inr UACPI_STATUS_UNIMPLEMENTED)"

definition uacpi_kernel_install_interrupt_handler :: "halt + uacpi_status" where
  "uacpi_kernel_install_interrupt_handler = kbind (kassert False ''UNIMPLEMENTED: uacpi_kernel_install_interrupt_handler'') (\<lambda>_. Inr UACPI_STATUS_UNIMPLEMENTED)"

definition uacpi_kernel_uninstall_interrupt_handler :: "halt + uacpi_status" where
  "uacpi_kernel_uninstall_interrupt_handler = kbind (kassert False ''UNIMPLEMENTED: uacpi_kernel_uninstall_interrupt_handler'') (\<lambda>_. Inr UACPI_STATUS_UNIMPLEMENTED)"

definition uacpi_kernel_create_spinlock :: "halt + unit" where
  "uacpi_kernel_create_spinlock = kassert False ''UNIMPLEMENTED: uacpi_kernel_create_spinlock''"

definition uacpi_kernel_free_spinlock :: "halt + unit" where
  "uacpi_kernel_free_spinlock = kassert False ''UNIMPLEMENTED: uacpi_kernel_free_spinlock''"

definition uacpi_kernel_lock_spinlock :: "halt + unit" where
  "uacpi_kernel_lock_spinlock = kassert False ''UNIMPLEMENTED: uacpi_kernel_lock_spinlock''"

definition uacpi_kernel_unlock_spinlock :: "halt + unit" where
  "uacpi_kernel_unlock_spinlock = kassert False ''UNIMPLEMENTED: uacpi_kernel_unlock_spinlock''"

definition uacpi_kernel_schedule_work :: "halt + uacpi_status" where
  "uacpi_kernel_schedule_work = kbind (kassert False ''UNIMPLEMENTED: uacpi_kernel_schedule_work'') (\<lambda>_. Inr UACPI_STATUS_UNIMPLEMENTED)"

definition uacpi_kernel_wait_for_work_completion :: "halt + uacpi_status" where
  "uacpi_kernel_wait_for_work_completion = kbind (kassert False ''UNIMPLEMENTED: uacpi_kernel_wait_for_work_completion'') (\<lambda>_. Inr UACPI_STATUS_UNIMPLEMENTED)"

lemmas unimplemented_defs =
  uacpi_kernel_free_def
  uacpi_kernel_alloc_def
  uacpi_kernel_pci_device_close_def
  uacpi_kernel_pci_read_def
  uacpi_kernel_pci_write_def
  uacpi_kernel_pci_read8_def
  uacpi_kernel_pci_read16_def
  uacpi_kernel_pci_read32_def
  uacpi_kernel_pci_write8_def
  uacpi_kernel_pci_write16_def
  uacpi_kernel_pci_write32_def
  uacpi_kernel_io_map_def
  uacpi_kernel_io_unmap_def
  uacpi_kernel_io_read8_def
  uacpi_kernel_io_read16_def
  uacpi_kernel_io_read32_def
  uacpi_kernel_io_write8_def
  uacpi_kernel_io_write16_def
  uacpi_kernel_io_write32_def
  uacpi_kernel_get_nanoseconds_since_boot_def
  uacpi_kernel_stall_def
  uacpi_kernel_sleep_def
  uacpi_kernel_create_event_def
  uacpi_kernel_free_event_def
  uacpi_kernel_get_thread_id_def
  uacpi_kernel_create_mutex_def
  uacpi_kernel_free_mutex_def
  uacpi_kernel_acquire_mutex_def
  uacpi_kernel_release_mutex_def
  uacpi_kernel_wait_for_event_def
  uacpi_kernel_signal_event_def
  uacpi_kernel_reset_event_def
  uacpi_kernel_handle_firmware_request_def
  uacpi_kernel_install_interrupt_handler_def
  uacpi_kernel_uninstall_interrupt_handler_def
  uacpi_kernel_create_spinlock_def
  uacpi_kernel_free_spinlock_def
  uacpi_kernel_lock_spinlock_def
  uacpi_kernel_unlock_spinlock_def
  uacpi_kernel_schedule_work_def
  uacpi_kernel_wait_for_work_completion_def

text \<open>Of the callbacks the kernel does not implement, only opening a PCI device reports so; every other one, the allocator
  of the ACPI library included, halts the machine.\<close>

lemma acpi_callbacks_halt:
  "uacpi_kernel_pci_device_open = Inr UACPI_STATUS_UNIMPLEMENTED \<and>
   {uacpi_kernel_pci_read, uacpi_kernel_pci_write, uacpi_kernel_pci_read8, uacpi_kernel_pci_read16, uacpi_kernel_pci_read32, uacpi_kernel_pci_write8, uacpi_kernel_pci_write16, uacpi_kernel_pci_write32, uacpi_kernel_io_map, uacpi_kernel_io_read8, uacpi_kernel_io_read16, uacpi_kernel_io_read32, uacpi_kernel_io_write8, uacpi_kernel_io_write16, uacpi_kernel_io_write32, uacpi_kernel_handle_firmware_request, uacpi_kernel_install_interrupt_handler, uacpi_kernel_uninstall_interrupt_handler, uacpi_kernel_schedule_work, uacpi_kernel_wait_for_work_completion} \<subseteq> {c. \<exists>msg. c = Inl (KAssert msg)} \<and>
   {uacpi_kernel_free, uacpi_kernel_alloc, uacpi_kernel_pci_device_close, uacpi_kernel_io_unmap, uacpi_kernel_get_nanoseconds_since_boot, uacpi_kernel_stall, uacpi_kernel_sleep, uacpi_kernel_create_event, uacpi_kernel_free_event, uacpi_kernel_get_thread_id, uacpi_kernel_create_mutex, uacpi_kernel_free_mutex, uacpi_kernel_acquire_mutex, uacpi_kernel_release_mutex, uacpi_kernel_wait_for_event, uacpi_kernel_signal_event, uacpi_kernel_reset_event, uacpi_kernel_create_spinlock, uacpi_kernel_free_spinlock, uacpi_kernel_lock_spinlock, uacpi_kernel_unlock_spinlock} \<subseteq> {c. \<exists>msg. c = Inl (KAssert msg)}"
  by (simp add: unimplemented_defs uacpi_kernel_pci_device_open_def kassert_def)

end
