(* ===== verification/Uacpi_Util.thy ===== *)
theory Uacpi_Util
  imports Acpi_Kernel
begin

text \<open>
  The part of \<open>uacpi/source/utilities.c\<close> that works on characters: the classification table, name segments, EISA identifiers and
  the conversion of strings to integers. A pointer together with the number of characters left is the list of those characters.
\<close>

section \<open>Character classes\<close>

definition CHAR_TYPE_CONTROL :: u8 where "CHAR_TYPE_CONTROL = 1"
definition CHAR_TYPE_SPACE :: u8 where "CHAR_TYPE_SPACE = 2"
definition CHAR_TYPE_BLANK :: u8 where "CHAR_TYPE_BLANK = 4"
definition CHAR_TYPE_PUNCTUATION :: u8 where "CHAR_TYPE_PUNCTUATION = 8"
definition CHAR_TYPE_LOWER :: u8 where "CHAR_TYPE_LOWER = 16"
definition CHAR_TYPE_UPPER :: u8 where "CHAR_TYPE_UPPER = 32"
definition CHAR_TYPE_DIGIT :: u8 where "CHAR_TYPE_DIGIT = 64"
definition CHAR_TYPE_HEX_DIGIT :: u8 where "CHAR_TYPE_HEX_DIGIT = 128"
definition CHAR_TYPE_ALPHA :: u8 where "CHAR_TYPE_ALPHA = CHAR_TYPE_LOWER OR CHAR_TYPE_UPPER"
definition CHAR_TYPE_ALHEX :: u8 where "CHAR_TYPE_ALHEX = CHAR_TYPE_ALPHA OR CHAR_TYPE_HEX_DIGIT"
definition CHAR_TYPE_ALNUM :: u8 where "CHAR_TYPE_ALNUM = CHAR_TYPE_ALPHA OR CHAR_TYPE_DIGIT"

lemmas char_types = CHAR_TYPE_CONTROL_def CHAR_TYPE_SPACE_def CHAR_TYPE_BLANK_def CHAR_TYPE_PUNCTUATION_def CHAR_TYPE_LOWER_def
  CHAR_TYPE_UPPER_def CHAR_TYPE_DIGIT_def CHAR_TYPE_HEX_DIGIT_def CHAR_TYPE_ALPHA_def CHAR_TYPE_ALHEX_def CHAR_TYPE_ALNUM_def

definition ascii_map :: "u8 list" where
  "ascii_map =
     [CHAR_TYPE_CONTROL,
      CHAR_TYPE_CONTROL,
      CHAR_TYPE_CONTROL,
      CHAR_TYPE_CONTROL,
      CHAR_TYPE_CONTROL,
      CHAR_TYPE_CONTROL,
      CHAR_TYPE_CONTROL,
      CHAR_TYPE_CONTROL,
      CHAR_TYPE_CONTROL,
      CHAR_TYPE_CONTROL OR CHAR_TYPE_SPACE OR CHAR_TYPE_BLANK,
      CHAR_TYPE_CONTROL OR CHAR_TYPE_SPACE,
      CHAR_TYPE_CONTROL OR CHAR_TYPE_SPACE,
      CHAR_TYPE_CONTROL OR CHAR_TYPE_SPACE,
      CHAR_TYPE_CONTROL OR CHAR_TYPE_SPACE,
      CHAR_TYPE_CONTROL,
      CHAR_TYPE_CONTROL,
      CHAR_TYPE_CONTROL,
      CHAR_TYPE_CONTROL,
      CHAR_TYPE_CONTROL,
      CHAR_TYPE_CONTROL,
      CHAR_TYPE_CONTROL,
      CHAR_TYPE_CONTROL,
      CHAR_TYPE_CONTROL,
      CHAR_TYPE_CONTROL,
      CHAR_TYPE_CONTROL,
      CHAR_TYPE_CONTROL,
      CHAR_TYPE_CONTROL,
      CHAR_TYPE_CONTROL,
      CHAR_TYPE_CONTROL,
      CHAR_TYPE_CONTROL,
      CHAR_TYPE_CONTROL,
      CHAR_TYPE_CONTROL,
      CHAR_TYPE_SPACE OR CHAR_TYPE_BLANK,
      CHAR_TYPE_PUNCTUATION,
      CHAR_TYPE_PUNCTUATION,
      CHAR_TYPE_PUNCTUATION,
      CHAR_TYPE_PUNCTUATION,
      CHAR_TYPE_PUNCTUATION,
      CHAR_TYPE_PUNCTUATION,
      CHAR_TYPE_PUNCTUATION,
      CHAR_TYPE_PUNCTUATION,
      CHAR_TYPE_PUNCTUATION,
      CHAR_TYPE_PUNCTUATION,
      CHAR_TYPE_PUNCTUATION,
      CHAR_TYPE_PUNCTUATION,
      CHAR_TYPE_PUNCTUATION,
      CHAR_TYPE_PUNCTUATION,
      CHAR_TYPE_PUNCTUATION,
      CHAR_TYPE_DIGIT OR CHAR_TYPE_HEX_DIGIT,
      CHAR_TYPE_DIGIT OR CHAR_TYPE_HEX_DIGIT,
      CHAR_TYPE_DIGIT OR CHAR_TYPE_HEX_DIGIT,
      CHAR_TYPE_DIGIT OR CHAR_TYPE_HEX_DIGIT,
      CHAR_TYPE_DIGIT OR CHAR_TYPE_HEX_DIGIT,
      CHAR_TYPE_DIGIT OR CHAR_TYPE_HEX_DIGIT,
      CHAR_TYPE_DIGIT OR CHAR_TYPE_HEX_DIGIT,
      CHAR_TYPE_DIGIT OR CHAR_TYPE_HEX_DIGIT,
      CHAR_TYPE_DIGIT OR CHAR_TYPE_HEX_DIGIT,
      CHAR_TYPE_DIGIT OR CHAR_TYPE_HEX_DIGIT,
      CHAR_TYPE_PUNCTUATION,
      CHAR_TYPE_PUNCTUATION,
      CHAR_TYPE_PUNCTUATION,
      CHAR_TYPE_PUNCTUATION,
      CHAR_TYPE_PUNCTUATION,
      CHAR_TYPE_PUNCTUATION,
      CHAR_TYPE_PUNCTUATION,
      CHAR_TYPE_UPPER OR CHAR_TYPE_HEX_DIGIT,
      CHAR_TYPE_UPPER OR CHAR_TYPE_HEX_DIGIT,
      CHAR_TYPE_UPPER OR CHAR_TYPE_HEX_DIGIT,
      CHAR_TYPE_UPPER OR CHAR_TYPE_HEX_DIGIT,
      CHAR_TYPE_UPPER OR CHAR_TYPE_HEX_DIGIT,
      CHAR_TYPE_UPPER OR CHAR_TYPE_HEX_DIGIT,
      CHAR_TYPE_UPPER,
      CHAR_TYPE_UPPER,
      CHAR_TYPE_UPPER,
      CHAR_TYPE_UPPER,
      CHAR_TYPE_UPPER,
      CHAR_TYPE_UPPER,
      CHAR_TYPE_UPPER,
      CHAR_TYPE_UPPER,
      CHAR_TYPE_UPPER,
      CHAR_TYPE_UPPER,
      CHAR_TYPE_UPPER,
      CHAR_TYPE_UPPER,
      CHAR_TYPE_UPPER,
      CHAR_TYPE_UPPER,
      CHAR_TYPE_UPPER,
      CHAR_TYPE_UPPER,
      CHAR_TYPE_UPPER,
      CHAR_TYPE_UPPER,
      CHAR_TYPE_UPPER,
      CHAR_TYPE_UPPER,
      CHAR_TYPE_PUNCTUATION,
      CHAR_TYPE_PUNCTUATION,
      CHAR_TYPE_PUNCTUATION,
      CHAR_TYPE_PUNCTUATION,
      CHAR_TYPE_PUNCTUATION,
      CHAR_TYPE_PUNCTUATION,
      CHAR_TYPE_LOWER OR CHAR_TYPE_HEX_DIGIT,
      CHAR_TYPE_LOWER OR CHAR_TYPE_HEX_DIGIT,
      CHAR_TYPE_LOWER OR CHAR_TYPE_HEX_DIGIT,
      CHAR_TYPE_LOWER OR CHAR_TYPE_HEX_DIGIT,
      CHAR_TYPE_LOWER OR CHAR_TYPE_HEX_DIGIT,
      CHAR_TYPE_LOWER OR CHAR_TYPE_HEX_DIGIT,
      CHAR_TYPE_LOWER,
      CHAR_TYPE_LOWER,
      CHAR_TYPE_LOWER,
      CHAR_TYPE_LOWER,
      CHAR_TYPE_LOWER,
      CHAR_TYPE_LOWER,
      CHAR_TYPE_LOWER,
      CHAR_TYPE_LOWER,
      CHAR_TYPE_LOWER,
      CHAR_TYPE_LOWER,
      CHAR_TYPE_LOWER,
      CHAR_TYPE_LOWER,
      CHAR_TYPE_LOWER,
      CHAR_TYPE_LOWER,
      CHAR_TYPE_LOWER,
      CHAR_TYPE_LOWER,
      CHAR_TYPE_LOWER,
      CHAR_TYPE_LOWER,
      CHAR_TYPE_LOWER,
      CHAR_TYPE_LOWER,
      CHAR_TYPE_PUNCTUATION,
      CHAR_TYPE_PUNCTUATION,
      CHAR_TYPE_PUNCTUATION,
      CHAR_TYPE_PUNCTUATION,
      CHAR_TYPE_CONTROL] @ replicate 128 0"

definition char_class :: "nat \<Rightarrow> u8" where
  "char_class c = ascii_map ! c"

section \<open>Names and identifiers\<close>

definition is_valid_name_byte :: "u8 \<Rightarrow> bool" where
  "is_valid_name_byte c = (c = 0x5F \<or> char_class (unat c) AND (CHAR_TYPE_DIGIT OR CHAR_TYPE_UPPER) \<noteq> 0)"

definition uacpi_is_valid_nameseg :: "u8 list \<Rightarrow> bool" where
  "uacpi_is_valid_nameseg nameseg =
     (is_valid_name_byte (nameseg ! 0) \<and> is_valid_name_byte (nameseg ! 1) \<and> is_valid_name_byte (nameseg ! 2) \<and> is_valid_name_byte (nameseg ! 3))"

definition hex_to_ascii :: string where "hex_to_ascii = ''0123456789ABCDEF''"

definition eisa_swapped :: "u32 \<Rightarrow> u32" where
  "eisa_swapped v =
     push_bit 24 (take_bit 8 v) OR push_bit 16 (take_bit 8 (drop_bit 8 v)) OR push_bit 8 (take_bit 8 (drop_bit 16 v)) OR drop_bit 24 v"

definition uacpi_eisa_id_to_string :: "u32 \<Rightarrow> string" where
  "uacpi_eisa_id_to_string v =
     (let dword = eisa_swapped v
      in [char_of (0x40 + unat (drop_bit 26 dword AND 0x1F)), char_of (0x40 + unat (drop_bit 21 dword AND 0x1F)),
          char_of (0x40 + unat (drop_bit 16 dword AND 0x1F)),
          hex_to_ascii ! unat (drop_bit 12 dword AND 0x0F), hex_to_ascii ! unat (drop_bit 8 dword AND 0x0F),
          hex_to_ascii ! unat (drop_bit 4 dword AND 0x0F), hex_to_ascii ! unat (drop_bit 0 dword AND 0x0F), CHR 0x00])"

section \<open>Integers\<close>

datatype uacpi_base = UACPI_BASE_AUTO | UACPI_BASE_OCT | UACPI_BASE_DEC | UACPI_BASE_HEX

fun base_val :: "uacpi_base \<Rightarrow> u64" where
  "base_val UACPI_BASE_AUTO = 0"
| "base_val UACPI_BASE_OCT = 8"
| "base_val UACPI_BASE_DEC = 10"
| "base_val UACPI_BASE_HEX = 16"

definition is_char :: "char \<Rightarrow> u8 \<Rightarrow> bool" where
  "is_char c type = (char_class (of_char c) AND type = type)"

definition to_lower :: "char \<Rightarrow> char" where
  "to_lower c = (if is_char c CHAR_TYPE_UPPER then char_of (of_char c + (97 - 65) :: nat) else c)"

fun peek_one :: "string \<Rightarrow> char option" where
  "peek_one [] = None"
| "peek_one (c # str) = Some c"

fun consume_one :: "string \<Rightarrow> (char \<times> string) option" where
  "consume_one [] = None"
| "consume_one (c # str) = Some (c, str)"

definition consume_if :: "string \<Rightarrow> u8 \<Rightarrow> string option" where
  "consume_if str type = (case peek_one str of None \<Rightarrow> None | Some c \<Rightarrow> if \<not> is_char c type then None else Some (tl str))"

definition consume_if_equals :: "string \<Rightarrow> char \<Rightarrow> string option" where
  "consume_if_equals str c = (case peek_one str of None \<Rightarrow> None | Some c1 \<Rightarrow> if to_lower c1 \<noteq> c then None else Some (tl str))"

fun skip_spaces :: "string \<Rightarrow> string" where
  "skip_spaces [] = []"
| "skip_spaces (c # str) = (if is_char c CHAR_TYPE_SPACE then skip_spaces str else c # str)"

definition next_digit :: "uacpi_base \<Rightarrow> char \<Rightarrow> u64 option" where
  "next_digit base c =
     (let k = char_class (of_char c) AND (CHAR_TYPE_DIGIT OR CHAR_TYPE_ALHEX)
      in if k = CHAR_TYPE_DIGIT OR CHAR_TYPE_HEX_DIGIT then
           let d = of_nat (of_char c) - 48 in if base = UACPI_BASE_OCT \<and> d > 7 then None else Some d
         else if k = CHAR_TYPE_LOWER OR CHAR_TYPE_HEX_DIGIT \<or> k = CHAR_TYPE_UPPER OR CHAR_TYPE_HEX_DIGIT then
           if base \<noteq> UACPI_BASE_HEX then None else Some (10 + (of_nat (of_char (to_lower c)) - 97))
         else None)"

text \<open>The loop over the digits; the result is the value, the last character taken and what is left.\<close>

fun digits_loop :: "uacpi_base \<Rightarrow> u64 \<Rightarrow> char \<Rightarrow> string \<Rightarrow> u64 \<times> char \<times> string" where
  "digits_loop base value c0 [] = (value, c0, [])"
| "digits_loop base value c0 (c # str) =
     (case next_digit base c of
        None \<Rightarrow> (value, c, str)
      | Some d \<Rightarrow>
          let n = value * base_val base + d
          in if n div base_val base \<noteq> value then (0xFFFFFFFFFFFFFFFF, c, str)
             else digits_loop base n c str)"

definition uacpi_string_to_integer :: "string \<Rightarrow> uacpi_base \<Rightarrow> uacpi_status \<times> u64" where
  "uacpi_string_to_integer str base =
     (let s1 = skip_spaces str;
          (negative, s2) = (case consume_if_equals s1 (CHR ''-'') of
              Some s \<Rightarrow> (True, s)
            | None \<Rightarrow> (False, case consume_if_equals s1 (CHR ''+'') of Some s \<Rightarrow> s | None \<Rightarrow> s1));
          (b, s3) = (if base = UACPI_BASE_AUTO then
              (case consume_if_equals s2 (CHR ''0'') of
                 Some s \<Rightarrow> (case consume_if_equals s (CHR ''x'') of Some t \<Rightarrow> (UACPI_BASE_HEX, t) | None \<Rightarrow> (UACPI_BASE_OCT, s))
               | None \<Rightarrow> (UACPI_BASE_DEC, s2))
            else (base, s2));
          (value, c, rest) = digits_loop b 0 (CHR 0x00) s3;
          v = (if negative then - value else value)
      in (if rest = [] \<or> c = CHR 0x00 then UACPI_STATUS_OK else UACPI_STATUS_INVALID_ARGUMENT, v))"

section \<open>Properties\<close>

definition hex_value :: "nat \<Rightarrow> nat" where
  "hex_value n = (if 48 \<le> n \<and> n \<le> 57 then n - 48 else if 65 \<le> n \<and> n \<le> 70 then n - 55 else if 97 \<le> n \<and> n \<le> 102 then n - 87 else 16)"

definition word_class :: "nat \<Rightarrow> u8" where
  "word_class n = (if 48 \<le> n \<and> n \<le> 57 then 0xC0 else if 65 \<le> n \<and> n \<le> 70 then 0xA0 else if 71 \<le> n \<and> n \<le> 90 then 0x20
     else if 97 \<le> n \<and> n \<le> 102 then 0x90 else if 103 \<le> n \<and> n \<le> 122 then 0x10 else 0)"

lemma class_table: "list_all (\<lambda>n. char_class n AND 0xF0 = word_class n \<and> (char_class n AND 2 = 2) = (9 \<le> n \<and> n \<le> 13 \<or> n = 32)) [0..<256]"
  by code_simp

lemma char_class_word: "n < 256 \<Longrightarrow> char_class n AND 0xF0 = word_class n"
  using class_table by (simp add: list_all_iff)

lemma char_class_space: "n < 256 \<Longrightarrow> (char_class n AND 2 = 2) = (9 \<le> n \<and> n \<le> 13 \<or> n = 32)"
  using class_table by (simp add: list_all_iff)

lemma class_bits:
  assumes "n < 256" "m AND 0xF0 = m"
  shows "char_class n AND m = word_class n AND m"
  using char_class_word [OF assms(1)] assms(2) by (metis and.assoc and.commute)

lemma is_char_upper: "is_char c CHAR_TYPE_UPPER = (65 \<le> (of_char c :: nat) \<and> (of_char c :: nat) \<le> 90)"
  using class_bits [of "of_char c" "0x20"] nat_of_char_less_256 [of c] by (auto simp: is_char_def char_types word_class_def)

lemma is_char_space: "is_char c CHAR_TYPE_SPACE = (9 \<le> (of_char c :: nat) \<and> (of_char c :: nat) \<le> 13 \<or> (of_char c :: nat) = 32)"
  using char_class_space [of "of_char c"] nat_of_char_less_256 [of c] by (simp add: is_char_def char_types)

text \<open>The digit of a character in a base, by its value.\<close>

lemma next_digit_cases:
  obtains (digit) "48 \<le> (of_char c :: nat)" "(of_char c :: nat) \<le> 57" "word_class (of_char c) = 0xC0" "hex_value (of_char c) = of_char c - 48"
  | (letter) "word_class (of_char c) = 0xA0 \<or> word_class (of_char c) = 0x90" "10 \<le> hex_value (of_char c)" "hex_value (of_char c) < 16"
      "10 + (of_nat (of_char (to_lower c)) - 97) = (of_nat (hex_value (of_char c)) :: u64)"
  | (other) "hex_value (of_char c) = 16" "word_class (of_char c) \<in> {0, 0x10, 0x20}"
proof -
  let ?n = "of_char c :: nat"
  have low: "of_char (to_lower c) = (if 65 \<le> ?n \<and> ?n \<le> 90 then ?n + 32 else ?n)"
    by (auto simp: to_lower_def is_char_upper of_char_of)
  consider "48 \<le> ?n \<and> ?n \<le> 57" | "65 \<le> ?n \<and> ?n \<le> 70" | "97 \<le> ?n \<and> ?n \<le> 102"
    | "\<not> (48 \<le> ?n \<and> ?n \<le> 57) \<and> \<not> (65 \<le> ?n \<and> ?n \<le> 70) \<and> \<not> (97 \<le> ?n \<and> ?n \<le> 102)" by blast
  then show ?thesis
  proof cases
    case 1
    then show ?thesis by (intro digit) (auto simp: word_class_def hex_value_def)
  next
    case 2
    then have "10 + (of_nat (of_char (to_lower c)) - 97) = (of_nat (?n - 55) :: u64)" by (simp add: low of_nat_diff)
    with 2 show ?thesis by (intro letter) (auto simp: word_class_def hex_value_def)
  next
    case 3
    then have "10 + (of_nat (of_char (to_lower c)) - 97) = (of_nat (?n - 87) :: u64)" by (simp add: low of_nat_diff)
    with 3 show ?thesis by (intro letter) (auto simp: word_class_def hex_value_def)
  next
    case 4
    then show ?thesis by (intro other) (auto simp: word_class_def hex_value_def)
  qed
qed

lemma next_digit_value:
  assumes "b \<noteq> UACPI_BASE_AUTO"
  shows "next_digit b c = (if hex_value (of_char c) < unat (base_val b) then Some (of_nat (hex_value (of_char c))) else None)"
proof -
  have k: "char_class (of_char c) AND (CHAR_TYPE_DIGIT OR CHAR_TYPE_ALHEX) = word_class (of_char c)"
    using char_class_word [OF nat_of_char_less_256, of c] by (simp add: char_types)
  show ?thesis
  proof (cases rule: next_digit_cases [of c])
    case digit
    define m where "m = (of_char c - 48 :: nat)"
    have m: "m < 10" using digit(2) by (simp add: m_def)
    have d: "(of_nat (of_char c) - 48 :: u64) = of_nat m" using digit(1) by (simp add: m_def of_nat_diff)
    have gt: "of_nat m > (7 :: u64) \<longleftrightarrow> m > 7" using unat_of_nat64 [of m] m by (simp add: word_less_nat_alt del: unat_of_nat)
    have hv: "hex_value (of_char c) = m" using digit(4) by (simp add: m_def)
    have "next_digit b c = (if b = UACPI_BASE_OCT \<and> m > 7 then None else Some (of_nat m))"
      by (simp only: next_digit_def k digit(3) d gt Let_def) (simp add: char_types)
    then show ?thesis unfolding hv using assms m by (cases b) auto
  next
    case letter
    then have "next_digit b c = (if b \<noteq> UACPI_BASE_HEX then None else Some (of_nat (hex_value (of_char c))))"
      unfolding next_digit_def k Let_def letter(4) by (auto simp: char_types)
    then show ?thesis using assms letter(2,3) by (cases b) auto
  next
    case other
    then have "next_digit b c = None" unfolding next_digit_def k Let_def by (auto simp: char_types)
    then show ?thesis using assms other(1) by (cases b) auto
  qed
qed

definition numeral_in :: "nat \<Rightarrow> string \<Rightarrow> nat \<Rightarrow> nat" where
  "numeral_in b str v = fold (\<lambda>c n. n * b + hex_value (of_char c)) str v"

lemma numeral_in_ge: "0 < b \<Longrightarrow> v \<le> numeral_in b str v"
proof (induction str arbitrary: v)
  case (Cons c str)
  have "v \<le> v * b + hex_value (of_char c)" using Cons.prems by (cases b) auto
  also have "\<dots> \<le> numeral_in b (c # str) v" using Cons.IH [OF Cons.prems] by (simp add: numeral_in_def)
  finally show ?case .
qed (simp add: numeral_in_def)

text \<open>The overflow test of the loop is exact.\<close>

lemma mod_wrap_div:
  fixes v b d m :: nat
  assumes "0 < b" "d < b" "d < m"
  shows "(v * b + d) mod m div b = v \<longleftrightarrow> v * b + d < m"
proof
  assume e: "(v * b + d) mod m div b = v"
  have "v * b \<le> (v * b + d) mod m" using e by (metis div_times_less_eq_dividend)
  moreover have "(v * b + d) mod m + m \<le> v * b + d" if "\<not> v * b + d < m"
    using that by (metis add_le_cancel_left le_add_diff_inverse2 le_mod_geq mod_less_eq_dividend not_less add.commute)
  ultimately show "v * b + d < m" using assms(3) by linarith
qed (use assms in simp)

lemma overflow_exact:
  fixes v b :: u64
  assumes "d < unat b" "d < 2 ^ 64"
  shows "(v * b + of_nat d) div b = v \<longleftrightarrow> unat v * unat b + d < 2 ^ 64"
    and "unat v * unat b + d < 2 ^ 64 \<Longrightarrow> unat (v * b + of_nat d) = unat v * unat b + d"
proof -
  have w: "unat (v * b + of_nat d) = (unat v * unat b + d) mod 2 ^ 64"
    using unat_of_nat64 [OF assms(2)] unat_word_ariths(1) [of "v * b" "of_nat d"] unat_word_ariths(2) [of v b]
    by (simp add: mod_add_left_eq del: unat_of_nat)
  then show "unat v * unat b + d < 2 ^ 64 \<Longrightarrow> unat (v * b + of_nat d) = unat v * unat b + d"
    by (simp only: mod_less)
  have "0 < unat b" using assms(1) by linarith
  from mod_wrap_div [OF this assms, of "unat v"]
  show "(v * b + of_nat d) div b = v \<longleftrightarrow> unat v * unat b + d < 2 ^ 64"
    by (simp only: word_unat_eq_iff unat_div_distrib w)
qed

lemma digits_loop_value:
  assumes "b \<noteq> UACPI_BASE_AUTO" "\<forall>c\<in>set str. hex_value (of_char c) < unat (base_val b)"
  shows "\<exists>w c' rest. digits_loop b v c str = (w, c', rest) \<and> unat w = min (numeral_in (unat (base_val b)) str (unat v)) (2 ^ 64 - 1) \<and>
    (numeral_in (unat (base_val b)) str (unat v) < 2 ^ 64 \<longrightarrow> rest = [])"
  using assms(2)
proof (induction str arbitrary: v c)
  case Nil
  then show ?case using unat_less64 [of v] by (simp add: numeral_in_def)
next
  case (Cons x str)
  let ?b = "base_val b" and ?d = "hex_value (of_char x)"
  have b: "0 < unat ?b" using assms(1) by (cases b) simp_all
  have d: "?d < unat ?b" "?d < 2 ^ 64" using Cons.prems by (auto simp: hex_value_def)
  have nd: "next_digit b x = Some (of_nat ?d)" using d(1) by (simp add: next_digit_value [OF assms(1)])
  note ov = overflow_exact [OF d, of v]
  have st: "numeral_in (unat ?b) (x # str) (unat v) = numeral_in (unat ?b) str (unat v * unat ?b + ?d)" by (simp add: numeral_in_def)
  show ?case
  proof (cases "unat v * unat ?b + ?d < 2 ^ 64")
    case True
    then show ?thesis using Cons.IH [of "v * ?b + of_nat ?d" x] Cons.prems ov nd by (simp add: st)
  next
    case False
    then have "2 ^ 64 \<le> numeral_in (unat ?b) (x # str) (unat v)" unfolding st using numeral_in_ge [OF b, of "unat v * unat ?b + ?d" str] by linarith
    then show ?thesis using False ov nd by simp
  qed
qed

lemma skip_spaces_digit:
  assumes "hex_value (of_char c) < 16"
  shows "skip_spaces (c # str) = c # str" "consume_if_equals (c # str) (CHR ''-'') = None" "consume_if_equals (c # str) (CHR ''+'') = None"
proof -
  show "skip_spaces (c # str) = c # str" using assms by (auto simp: is_char_space hex_value_def split: if_splits)
  have "of_char (to_lower c) \<noteq> (45 :: nat)" "of_char (to_lower c) \<noteq> (43 :: nat)"
    using assms by (auto simp: to_lower_def is_char_upper hex_value_def of_char_of split: if_splits)
  then have "to_lower c \<noteq> CHR ''-''" "to_lower c \<noteq> CHR ''+''" by auto
  then show "consume_if_equals (c # str) (CHR ''-'') = None" "consume_if_equals (c # str) (CHR ''+'') = None"
    by (simp_all add: consume_if_equals_def)
qed

lemma string_to_integer_loop:
  assumes "base \<noteq> UACPI_BASE_AUTO" "\<forall>c\<in>set str. hex_value (of_char c) < unat (base_val base)"
  shows "\<exists>w c rest. uacpi_string_to_integer str base = (if rest = [] \<or> c = CHR 0x00 then UACPI_STATUS_OK else UACPI_STATUS_INVALID_ARGUMENT, w) \<and>
    unat w = min (numeral_in (unat (base_val base)) str 0) (2 ^ 64 - 1) \<and> (numeral_in (unat (base_val base)) str 0 < 2 ^ 64 \<longrightarrow> rest = [])"
proof -
  have le: "unat (base_val base) \<le> 16" by (cases base) simp_all
  have sk: "skip_spaces str = str" "consume_if_equals str (CHR ''-'') = None" "consume_if_equals str (CHR ''+'') = None"
    using assms(2) le skip_spaces_digit by (cases str; force simp: consume_if_equals_def)+
  obtain w c rest where d: "digits_loop base 0 (CHR 0x00) str = (w, c, rest)"
    "unat w = min (numeral_in (unat (base_val base)) str 0) (2 ^ 64 - 1)"
    "numeral_in (unat (base_val base)) str 0 < 2 ^ 64 \<longrightarrow> rest = []"
    using digits_loop_value [OF assms, of 0 "CHR 0x00"] by auto
  then show ?thesis unfolding uacpi_string_to_integer_def Let_def sk using assms(1) by auto
qed

lemma string_to_integer_fits:
  assumes "base \<noteq> UACPI_BASE_AUTO" "\<forall>c\<in>set str. hex_value (of_char c) < unat (base_val base)"
    "numeral_in (unat (base_val base)) str 0 = unat v"
  shows "uacpi_string_to_integer str base = (UACPI_STATUS_OK, v)"
  using string_to_integer_loop [OF assms(1,2)] unat_less64 [of v] assms(3) by (auto simp: word_unat_eq_iff)

text \<open>C25. On a string of digits of an explicit base the conversion computes the number the digits denote, saturated at the
  largest 64-bit value, and reports success when the number fits.\<close>

theorem string_to_integer_value:
  assumes "base \<noteq> UACPI_BASE_AUTO" "\<forall>c\<in>set str. hex_value (of_char c) < unat (base_val base)"
  shows "unat (snd (uacpi_string_to_integer str base)) = min (numeral_in (unat (base_val base)) str 0) (2 ^ 64 - 1) \<and>
    (numeral_in (unat (base_val base)) str 0 < 2 ^ 64 \<longrightarrow> fst (uacpi_string_to_integer str base) = UACPI_STATUS_OK)"
proof -
  obtain w c rest where r: "uacpi_string_to_integer str base = (if rest = [] \<or> c = CHR 0x00 then UACPI_STATUS_OK else UACPI_STATUS_INVALID_ARGUMENT, w)"
    "unat w = min (numeral_in (unat (base_val base)) str 0) (2 ^ 64 - 1)" "numeral_in (unat (base_val base)) str 0 < 2 ^ 64 \<longrightarrow> rest = []"
    using string_to_integer_loop [OF assms] by blast
  show ?thesis unfolding r(1) fst_conv snd_conv r(2) using r(3) by simp
qed

theorem string_to_integer_value_witness:
  "unat (snd (uacpi_string_to_integer ''fF1'' UACPI_BASE_HEX)) = 4081 \<and> fst (uacpi_string_to_integer ''fF1'' UACPI_BASE_HEX) = UACPI_STATUS_OK"
  using string_to_integer_value [of UACPI_BASE_HEX "''fF1''"] by (simp add: numeral_in_def hex_value_def)

end
