(* ===== verification/Uacpi_Stdlib.thy ===== *)
theory Uacpi_Stdlib
  imports Uacpi_Util
begin

text \<open>
  \<open>uacpi/source/stdlib.c\<close> and \<open>uacpi/source/shareable.c\<close>: memory routines, the formatter behind the log, and reference
  counts, with the properties of the memory routines and the counts; the properties of the formatter are in \<open>Uacpi_Format\<close>.
  A format string is the list of its characters before the terminator. The memory behind an output buffer is a function from
  offsets to characters, so that a write past the capacity would show; the internal buffer of \<open>write_integer\<close> has its index, and
  running below it is an exit of its own. Reading an argument that is missing or of another kind is undefined in C; it is the
  exit \<open>BadArgs\<close>.
\<close>

section \<open>Memory and strings\<close>

fun uacpi_copy_up :: "nat \<Rightarrow> mem \<Rightarrow> u64 \<Rightarrow> u64 \<Rightarrow> mem" where
  "uacpi_copy_up 0 m cd cs = m"
| "uacpi_copy_up (Suc count) m cd cs = uacpi_copy_up count (m(cd := m cs)) (cd + 1) (cs + 1)"

fun uacpi_copy_down :: "nat \<Rightarrow> mem \<Rightarrow> u64 \<Rightarrow> u64 \<Rightarrow> mem" where
  "uacpi_copy_down 0 m cd cs = m"
| "uacpi_copy_down (Suc count) m cd cs = uacpi_copy_down count (m(cd - 1 := m (cs - 1))) (cd - 1) (cs - 1)"

definition uacpi_memcpy :: "mem \<Rightarrow> u64 \<Rightarrow> u64 \<Rightarrow> u64 \<Rightarrow> u64 \<times> mem" where
  "uacpi_memcpy m dest src count = (dest, uacpi_copy_up (unat count) m dest src)"

definition uacpi_memmove :: "mem \<Rightarrow> u64 \<Rightarrow> u64 \<Rightarrow> u64 \<Rightarrow> u64 \<times> mem" where
  "uacpi_memmove m dest src count =
     (dest, if src < dest then uacpi_copy_down (unat count) m (dest + count) (src + count)
            else uacpi_copy_up (unat count) m dest src)"

fun uacpi_fill :: "nat \<Rightarrow> mem \<Rightarrow> u64 \<Rightarrow> u8 \<Rightarrow> mem" where
  "uacpi_fill 0 m cdest v = m"
| "uacpi_fill (Suc count) m cdest v = uacpi_fill count (m(cdest := v)) (cdest + 1) v"

definition uacpi_memset :: "mem \<Rightarrow> u64 \<Rightarrow> u32 \<Rightarrow> u64 \<Rightarrow> u64 \<times> mem" where
  "uacpi_memset m dest ch count = (dest, uacpi_fill (unat count) m dest (ucast ch))"

fun uacpi_memcmp_from :: "nat \<Rightarrow> mem \<Rightarrow> u64 \<Rightarrow> u64 \<Rightarrow> int" where
  "uacpi_memcmp_from 0 m lhs rhs = 0"
| "uacpi_memcmp_from (Suc count) m lhs rhs =
     (if m lhs \<noteq> m rhs then uint (m lhs) - uint (m rhs) else uacpi_memcmp_from count m (lhs + 1) (rhs + 1))"

definition uacpi_memcmp :: "mem \<Rightarrow> u64 \<Rightarrow> u64 \<Rightarrow> u64 \<Rightarrow> int" where
  "uacpi_memcmp m lhs rhs count = uacpi_memcmp_from (unat count) m lhs rhs"

partial_function (option) strlen_loop :: "mem \<Rightarrow> u64 \<Rightarrow> u64 option" where
  "strlen_loop m str1 = (if m str1 \<noteq> 0 then strlen_loop m (str1 + 1) else Some str1)"

definition uacpi_strlen :: "mem \<Rightarrow> u64 \<Rightarrow> u64 option" where
  "uacpi_strlen m str = map_option (\<lambda>str1. str1 - str) (strlen_loop m str)"

fun strnlen_loop :: "nat \<Rightarrow> mem \<Rightarrow> u64 \<Rightarrow> u64" where
  "strnlen_loop 0 m str1 = str1"
| "strnlen_loop (Suc mx) m str1 = (if m str1 \<noteq> 0 then strnlen_loop mx m (str1 + 1) else str1)"

definition uacpi_strnlen :: "mem \<Rightarrow> u64 \<Rightarrow> u64 \<Rightarrow> u64" where
  "uacpi_strnlen m str mx = strnlen_loop (unat mx) m str - str"

partial_function (option) strcmp_loop :: "mem \<Rightarrow> u64 \<Rightarrow> u64 \<Rightarrow> u64 \<Rightarrow> int option" where
  "strcmp_loop m lhs rhs i =
     (if m (lhs + i) \<noteq> 0 \<and> m (rhs + i) \<noteq> 0 then
        if m (lhs + i) \<noteq> m (rhs + i) then Some (uint (m (lhs + i)) - uint (m (rhs + i)))
        else strcmp_loop m lhs rhs (i + 1)
      else Some (uint (m (lhs + i)) - uint (m (rhs + i))))"

definition uacpi_strcmp :: "mem \<Rightarrow> u64 \<Rightarrow> u64 \<Rightarrow> int option" where
  "uacpi_strcmp m lhs rhs = strcmp_loop m lhs rhs 0"

definition uacpi_memcpy_zerout :: "mem \<Rightarrow> u64 \<Rightarrow> u64 \<Rightarrow> u64 \<Rightarrow> u64 \<Rightarrow> mem" where
  "uacpi_memcpy_zerout m dst src dst_size src_size =
     (let bytes_to_copy = min src_size dst_size;
          m1 = (if bytes_to_copy \<noteq> 0 then snd (uacpi_memcpy m dst src bytes_to_copy) else m)
      in if dst_size > bytes_to_copy then snd (uacpi_memset m1 (dst + bytes_to_copy) 0 (dst_size - bytes_to_copy)) else m1)"

section \<open>Bit scans\<close>

text \<open>\<open>__builtin_ffsll\<close> and \<open>__builtin_clzll\<close> of the compiler.\<close>

definition ffsll :: "u64 \<Rightarrow> nat" where
  "ffsll v = (case find (\<lambda>i. bit v i) [0..<64] of None \<Rightarrow> 0 | Some i \<Rightarrow> i + 1)"

definition clzll :: "u64 \<Rightarrow> nat" where
  "clzll v = length (takeWhile (\<lambda>i. \<not> bit v (63 - i)) [0..<64])"

definition uacpi_bit_scan_forward :: "u64 \<Rightarrow> u8" where
  "uacpi_bit_scan_forward v = of_nat (ffsll v)"

definition uacpi_bit_scan_backward :: "u64 \<Rightarrow> u8" where
  "uacpi_bit_scan_backward v = (if v = 0 then 0 else of_nat (64 - clzll v))"

section \<open>The formatter\<close>

record fmt_buf_state =
  fb_buffer :: "u64 \<Rightarrow> char"
  fb_capacity :: u64
  bytes_written :: u64

record fmt_spec =
  is_signed :: bool
  prepend :: bool
  uppercase :: bool
  left_justify :: bool
  alternate_form :: bool
  has_precision :: bool
  pad_char :: char
  prepend_char :: char
  min_width :: u64
  precision :: u64
  fm_base :: u32

definition write_one :: "fmt_buf_state \<Rightarrow> char \<Rightarrow> fmt_buf_state" where
  "write_one fb c =
     (let fb1 = (if bytes_written fb < fb_capacity fb then fb\<lparr>fb_buffer := (fb_buffer fb)(bytes_written fb := c)\<rparr> else fb)
      in fb1\<lparr>bytes_written := bytes_written fb1 + 1\<rparr>)"

text \<open>\<open>uacpi_memcpy\<close> of characters into the buffer.\<close>

fun put_chars :: "(u64 \<Rightarrow> char) \<Rightarrow> u64 \<Rightarrow> string \<Rightarrow> u64 \<Rightarrow> char" where
  "put_chars b i [] = b"
| "put_chars b i (c # cs) = put_chars (b(i := c)) (i + 1) cs"

definition write_many :: "fmt_buf_state \<Rightarrow> string \<Rightarrow> u64 \<Rightarrow> fmt_buf_state" where
  "write_many fb str count =
     (let fb1 = (if bytes_written fb < fb_capacity fb then
            let count_to_write = min count (fb_capacity fb - bytes_written fb)
            in fb\<lparr>fb_buffer := put_chars (fb_buffer fb) (bytes_written fb) (take (unat count_to_write) str)\<rparr>
          else fb)
      in fb1\<lparr>bytes_written := bytes_written fb1 + count\<rparr>)"

definition hex_char :: "bool \<Rightarrow> u64 \<Rightarrow> char" where
  "hex_char upper v = (if upper then ''0123456789ABCDEF'' else ''0123456789abcdef'') ! unat v"

fun write_n :: "nat \<Rightarrow> char \<Rightarrow> fmt_buf_state \<Rightarrow> fmt_buf_state" where
  "write_n 0 c fb = fb"
| "write_n (Suc n) c fb = write_n n c (write_one fb c)"

definition write_padding :: "fmt_buf_state \<Rightarrow> fmt_spec \<Rightarrow> u64 \<Rightarrow> fmt_buf_state" where
  "write_padding fb fm repr_size =
     (if min_width fm \<le> repr_size then fb
      else write_n (unat (min_width fm - repr_size)) (if left_justify fm then CHR '' '' else pad_char fm) fb)"

definition REPR_BUFFER_SIZE :: nat where "REPR_BUFFER_SIZE = 32"

definition digit_char :: "fmt_spec \<Rightarrow> u64 \<Rightarrow> char" where
  "digit_char fm remainder =
     (if fm_base fm = 16 then hex_char (uppercase fm) remainder
      else if fm_base fm = 8 \<or> fm_base fm = 10 then char_of (unat (remainder + 48))
      else CHR ''?'')"

text \<open>\<open>repr_buffer[--index] = c\<close>: the characters from \<open>index\<close> on are the list; below index 0 there is no room.\<close>

fun push_repr :: "char \<Rightarrow> nat \<times> string \<Rightarrow> (nat \<times> string) option" where
  "push_repr c (0, repr) = None"
| "push_repr c (Suc index, repr) = Some (index, c # repr)"

fun repr_loop :: "nat \<Rightarrow> fmt_spec \<Rightarrow> u64 \<Rightarrow> string \<Rightarrow> (nat \<times> string) option" where
  "repr_loop 0 fm v repr = (if v = 0 then Some (0, repr) else None)"
| "repr_loop (Suc index) fm v repr =
     (if v = 0 then Some (Suc index, repr)
      else repr_loop index fm (v div ucast (fm_base fm)) (digit_char fm (v mod ucast (fm_base fm)) # repr))"

definition alternate_prefix :: "fmt_spec \<Rightarrow> nat \<times> string \<Rightarrow> (nat \<times> string) option" where
  "alternate_prefix fm r =
     (if alternate_form fm then
        if fm_base fm = 16 then
          Option.bind (push_repr (if uppercase fm then CHR ''X'' else CHR ''x'') r) (push_repr (CHR ''0''))
        else if fm_base fm = 8 then push_repr (CHR ''0'') r
        else Some r
      else Some r)"

text \<open>The characters of an unsigned value in the internal buffer, prefix included.\<close>

definition integer_repr :: "fmt_spec \<Rightarrow> u64 \<Rightarrow> string option" where
  "integer_repr fm v =
     Option.bind (repr_loop REPR_BUFFER_SIZE fm v []) (\<lambda>r.
     Option.bind (if snd r = [] then push_repr (CHR ''0'') r else Some r) (\<lambda>r1.
     map_option snd (alternate_prefix fm r1)))"

definition write_integer :: "fmt_buf_state \<Rightarrow> fmt_spec \<Rightarrow> u64 \<Rightarrow> fmt_buf_state option" where
  "write_integer fb fm v0 =
     (let negative = (is_signed fm \<and> v0 <s 0);
          v = (if negative then - v0 else v0);
          fb1 = (if prepend fm \<or> negative then write_one fb (if negative then CHR ''-'' else prepend_char fm) else fb)
      in map_option (\<lambda>repr.
           let repr_size = of_nat (length repr)
           in if left_justify fm then write_padding (write_many fb1 repr repr_size) fm repr_size
              else write_many (write_padding fb1 fm repr_size) repr repr_size)
         (integer_repr fm v))"

fun string_has_at_least :: "string \<Rightarrow> u64 \<Rightarrow> bool" where
  "string_has_at_least [] characters = False"
| "string_has_at_least (c # str) characters = (if characters - 1 = 0 then True else string_has_at_least str (characters - 1))"

fun digits_prefix :: "string \<Rightarrow> string \<times> string" where
  "digits_prefix [] = ([], [])"
| "digits_prefix (c # str) =
     (if of_char c < (48 :: nat) \<or> of_char c > (57 :: nat) then ([], c # str)
      else let (ds, rest) = digits_prefix str in (c # ds, rest))"

text \<open>The digits at the front of the string, if there are any, and what follows them.\<close>

definition consume_digits :: "string \<Rightarrow> (string \<times> string) option" where
  "consume_digits str = (let (ds, rest) = digits_prefix str in if ds = [] then None else Some (ds, rest))"

datatype parse_number_mode = PARSE_NUMBER_MODE_MAYBE | PARSE_NUMBER_MODE_MUST

text \<open>\<open>out_value\<close> keeps its old value when there are no digits; \<open>None\<close> is the result false.\<close>

definition parse_number :: "string \<Rightarrow> parse_number_mode \<Rightarrow> u64 \<Rightarrow> (u64 \<times> string) option" where
  "parse_number fmt mode out_value =
     (case consume_digits fmt of
        None \<Rightarrow> if mode \<noteq> PARSE_NUMBER_MODE_MUST then Some (out_value, fmt) else None
      | Some (ds, rest) \<Rightarrow>
          let (ret, v) = uacpi_string_to_integer ds UACPI_BASE_DEC
          in if ret = UACPI_STATUS_OK then Some (v, rest) else None)"

definition consume :: "string \<Rightarrow> string \<Rightarrow> string option" where
  "consume str token =
     (if \<not> string_has_at_least str (of_nat (length token)) then None
      else if take (length token) str = token then Some (drop (length token) str)
      else None)"

fun is_one_of :: "char \<Rightarrow> string \<Rightarrow> bool" where
  "is_one_of c [] = False"
| "is_one_of c (x # xs) = (if c = x then True else is_one_of c xs)"

definition consume_one_of :: "string \<Rightarrow> string \<Rightarrow> (char \<times> string) option" where
  "consume_one_of str cs = (case str of [] \<Rightarrow> None | c # rest \<Rightarrow> if is_one_of c cs then Some (c, rest) else None)"

definition base_from_specifier :: "char \<Rightarrow> u32" where
  "base_from_specifier specifier =
     (if specifier = CHR ''x'' \<or> specifier = CHR ''X'' then 16 else if specifier = CHR ''o'' then 8 else 10)"

definition is_uppercase_specifier :: "char \<Rightarrow> bool" where
  "is_uppercase_specifier specifier = (specifier = CHR ''X'')"

fun find_next_conversion :: "string \<Rightarrow> u64 \<Rightarrow> string option \<times> u64" where
  "find_next_conversion [] offset = (None, offset)"
| "find_next_conversion (c # fmt) offset = (if c = CHR ''%'' then (Some (c # fmt), offset) else find_next_conversion fmt (offset + 1))"

text \<open>An argument is a machine word or a pointer to a string, which may be null.\<close>

datatype va_arg = VaWord u64 | VaString "string option"

datatype fmt_exit = BadArgs | ReprOverflow | MinusOne fmt_buf_state

type_synonym conv_state = "fmt_buf_state \<times> va_arg list \<times> string"

fun fbind :: "fmt_exit + 'a \<Rightarrow> ('a \<Rightarrow> fmt_exit + 'b) \<Rightarrow> fmt_exit + 'b" where
  "fbind (Inl e) f = Inl e"
| "fbind (Inr x) f = f x"

fun va_word :: "va_arg list \<Rightarrow> fmt_exit + (u64 \<times> va_arg list)" where
  "va_word (VaWord w # vlist) = Inr (w, vlist)"
| "va_word vlist = Inl BadArgs"

fun va_string :: "va_arg list \<Rightarrow> fmt_exit + (string option \<times> va_arg list)" where
  "va_string (VaString s # vlist) = Inr (s, vlist)"
| "va_string vlist = Inl BadArgs"

definition new_spec :: fmt_spec where
  "new_spec = \<lparr>is_signed = False, prepend = False, uppercase = False, left_justify = False, alternate_form = False,
     has_precision = False, pad_char = CHR '' '', prepend_char = CHR 0x00, min_width = 0, precision = 0, fm_base = 10\<rparr>"

definition apply_flag :: "char \<Rightarrow> fmt_spec \<Rightarrow> fmt_spec option" where
  "apply_flag flag fm =
     (if flag = CHR ''+'' \<or> flag = CHR '' '' then Some (fm\<lparr>prepend := True, prepend_char := flag\<rparr>)
      else if flag = CHR ''-'' then Some (fm\<lparr>left_justify := True\<rparr>)
      else if flag = CHR ''0'' then Some (fm\<lparr>pad_char := CHR ''0''\<rparr>)
      else if flag = CHR ''#'' then Some (fm\<lparr>alternate_form := True\<rparr>)
      else None)"

fun parse_flags :: "fmt_spec \<Rightarrow> string \<Rightarrow> (fmt_spec \<times> string) option" where
  "parse_flags fm [] = Some (fm, [])"
| "parse_flags fm (c # fmt) =
     (if is_one_of c ''+- 0#'' then (case apply_flag c fm of None \<Rightarrow> None | Some fm1 \<Rightarrow> parse_flags fm1 fmt)
      else Some (fm, c # fmt))"

text \<open>An \<open>int\<close> argument that becomes a 64-bit value is sign extended.\<close>

definition parse_width :: "fmt_buf_state \<Rightarrow> fmt_spec \<Rightarrow> va_arg list \<Rightarrow> string \<Rightarrow> fmt_exit + (fmt_spec \<times> va_arg list \<times> string)" where
  "parse_width fb fm vlist fmt =
     (case consume fmt ''*'' of
        Some fmt1 \<Rightarrow> fbind (va_word vlist) (\<lambda>(w, vlist1). Inr (fm\<lparr>min_width := signed_take_bit 31 w\<rparr>, vlist1, fmt1))
      | None \<Rightarrow>
          (case parse_number fmt PARSE_NUMBER_MODE_MAYBE (min_width fm) of
             None \<Rightarrow> Inl (MinusOne fb)
           | Some (v, fmt1) \<Rightarrow> Inr (fm\<lparr>min_width := v\<rparr>, vlist, fmt1)))"

definition parse_precision :: "fmt_buf_state \<Rightarrow> fmt_spec \<Rightarrow> va_arg list \<Rightarrow> string \<Rightarrow> fmt_exit + (fmt_spec \<times> va_arg list \<times> string)" where
  "parse_precision fb fm vlist fmt =
     (case consume fmt ''.'' of
        None \<Rightarrow> Inr (fm, vlist, fmt)
      | Some fmt1 \<Rightarrow>
          let fm1 = fm\<lparr>has_precision := True\<rparr>
          in (case consume fmt1 ''*'' of
                Some fmt2 \<Rightarrow> fbind (va_word vlist) (\<lambda>(w, vlist1). Inr (fm1\<lparr>precision := signed_take_bit 31 w\<rparr>, vlist1, fmt2))
              | None \<Rightarrow>
                  (case parse_number fmt1 PARSE_NUMBER_MODE_MUST (precision fm1) of
                     None \<Rightarrow> Inl (MinusOne fb)
                   | Some (v, fmt2) \<Rightarrow> Inr (fm1\<lparr>precision := v\<rparr>, vlist, fmt2))))"

fun write_string :: "fmt_buf_state \<Rightarrow> fmt_spec \<Rightarrow> u64 \<Rightarrow> string \<Rightarrow> fmt_buf_state \<times> u64" where
  "write_string fb fm i [] = (fb, i)"
| "write_string fb fm i (c # str) =
     (if \<not> has_precision fm \<or> i < precision fm then write_string (write_one fb c) fm (i + 1) str else (fb, i))"

definition write_string_arg :: "fmt_buf_state \<Rightarrow> fmt_spec \<Rightarrow> string option \<Rightarrow> fmt_buf_state" where
  "write_string_arg fb fm arg =
     (let (fb1, i) = write_string fb fm 0 (case arg of None \<Rightarrow> ''<null>'' | Some str \<Rightarrow> str)
      in if has_precision fm \<and> i < precision fm then write_n (unat (precision fm - i)) (pad_char fm) fb1 else fb1)"

text \<open>The code after the label \<open>write_int\<close>; the flag is \<open>None\<close> where the source has 0.\<close>

definition write_int :: "fmt_buf_state \<Rightarrow> fmt_spec \<Rightarrow> char option \<Rightarrow> u64 \<Rightarrow> va_arg list \<Rightarrow> string \<Rightarrow> fmt_exit + conv_state" where
  "write_int fb fm flag v vlist fmt =
     (let fm1 = (case flag of None \<Rightarrow> fm
            | Some f \<Rightarrow> fm\<lparr>fm_base := base_from_specifier f, uppercase := is_uppercase_specifier f\<rparr>)
      in (case write_integer fb fm1 v of None \<Rightarrow> Inl ReprOverflow | Some fb1 \<Rightarrow> Inr (fb1, vlist, fmt)))"

text \<open>One of the branches \<open>d\<close>, \<open>i\<close> or \<open>oxXu\<close> behind a length modifier, with the casts of that modifier.\<close>

definition int_conversion :: "(u64 \<Rightarrow> u64) \<Rightarrow> (u64 \<Rightarrow> u64) \<Rightarrow> fmt_buf_state \<Rightarrow> fmt_spec \<Rightarrow> va_arg list \<Rightarrow> string \<Rightarrow> fmt_exit + conv_state" where
  "int_conversion as_signed as_unsigned fb fm vlist fmt =
     (case (case consume fmt ''d'' of None \<Rightarrow> consume fmt ''i'' | Some r \<Rightarrow> Some r) of
        Some rest \<Rightarrow> fbind (va_word vlist) (\<lambda>(w, vlist1). write_int fb (fm\<lparr>is_signed := True\<rparr>) None (as_signed w) vlist1 rest)
      | None \<Rightarrow>
          (case consume_one_of fmt ''oxXu'' of
             Some (flag, rest) \<Rightarrow> fbind (va_word vlist) (\<lambda>(w, vlist1). write_int fb fm (Some flag) (as_unsigned w) vlist1 rest)
           | None \<Rightarrow> Inl (MinusOne fb)))"

definition char_conversion :: "fmt_buf_state \<Rightarrow> va_arg list \<Rightarrow> string \<Rightarrow> fmt_exit + conv_state" where
  "char_conversion fb vlist fmt = fbind (va_word vlist) (\<lambda>(w, vlist1). Inr (write_one fb (char_of (unat (take_bit 8 w))), vlist1, fmt))"

definition string_conversion :: "fmt_buf_state \<Rightarrow> fmt_spec \<Rightarrow> va_arg list \<Rightarrow> string \<Rightarrow> fmt_exit + conv_state" where
  "string_conversion fb fm vlist fmt = fbind (va_string vlist) (\<lambda>(s, vlist1). Inr (write_string_arg fb fm s, vlist1, fmt))"

definition pointer_conversion :: "fmt_buf_state \<Rightarrow> fmt_spec \<Rightarrow> va_arg list \<Rightarrow> string \<Rightarrow> fmt_exit + conv_state" where
  "pointer_conversion fb fm vlist fmt =
     fbind (va_word vlist) (\<lambda>(w, vlist1). write_int fb (fm\<lparr>fm_base := 16, min_width := 8 * 2, pad_char := CHR ''0''\<rparr>) None w vlist1 fmt)"

fun first_match :: "(string \<times> (string \<Rightarrow> 'a)) list \<Rightarrow> (string \<Rightarrow> 'a) \<Rightarrow> string \<Rightarrow> 'a" where
  "first_match [] other fmt = other fmt"
| "first_match ((token, act) # cs) other fmt = (case consume fmt token of Some rest \<Rightarrow> act rest | None \<Rightarrow> first_match cs other fmt)"

text \<open>The conversions in the order the code tries them. \<open>long\<close> and \<open>uacpi_size\<close> are 64 bits wide, so \<open>z\<close> is taken
  together with \<open>ll\<close>.\<close>

definition convert :: "fmt_buf_state \<Rightarrow> fmt_spec \<Rightarrow> va_arg list \<Rightarrow> string \<Rightarrow> fmt_exit + conv_state" where
  "convert fb fm vlist =
     first_match
       [(''c'', char_conversion fb vlist),
        (''s'', string_conversion fb fm vlist),
        (''p'', pointer_conversion fb fm vlist),
        (''hh'', int_conversion (signed_take_bit 7) (take_bit 8) fb fm vlist),
        (''h'', int_conversion (signed_take_bit 15) (take_bit 16) fb fm vlist),
        (''ll'', int_conversion (\<lambda>w. w) (\<lambda>w. w) fb fm vlist),
        (''z'', int_conversion (\<lambda>w. w) (\<lambda>w. w) fb fm vlist),
        (''l'', int_conversion (\<lambda>w. w) (\<lambda>w. w) fb fm vlist)]
       (int_conversion (signed_take_bit 31) (take_bit 32) fb fm vlist)"

text \<open>What follows a percent sign.\<close>

definition conversion :: "fmt_buf_state \<Rightarrow> va_arg list \<Rightarrow> string \<Rightarrow> fmt_exit + conv_state" where
  "conversion fb vlist fmt =
     (case parse_flags new_spec fmt of
        None \<Rightarrow> Inl (MinusOne fb)
      | Some (fm, fmt1) \<Rightarrow>
          fbind (parse_width fb fm vlist fmt1) (\<lambda>(fm1, vlist1, fmt2).
          fbind (parse_precision fb fm1 vlist1 fmt2) (\<lambda>(fm2, vlist2, fmt3).
          convert fb fm2 vlist2 fmt3)))"

subsection \<open>Parsing moves forward\<close>

lemma consume_length: "consume str token = Some rest \<Longrightarrow> length rest \<le> length str"
  by (auto simp: consume_def split: if_splits)

lemma consume_one_of_length: "consume_one_of str cs = Some (c, rest) \<Longrightarrow> length rest \<le> length str"
  by (auto simp: consume_one_of_def split: list.splits if_splits)

lemma digits_prefix_append: "fst (digits_prefix str) @ snd (digits_prefix str) = str"
  by (induction str) (auto split: prod.splits)

lemma parse_number_length: "parse_number fmt mode v = Some (w, rest) \<Longrightarrow> length rest \<le> length fmt"
  using digits_prefix_append [of fmt]
  by (auto simp: parse_number_def consume_digits_def split: prod.splits if_splits option.splits)

lemma parse_flags_length: "parse_flags fm fmt = Some (fm', rest) \<Longrightarrow> length rest \<le> length fmt"
  by (induction fm fmt arbitrary: fm' rest rule: parse_flags.induct) (fastforce split: if_splits option.splits)+

lemma fbind_Inr: "fbind x f = Inr r \<longleftrightarrow> (\<exists>y. x = Inr y \<and> f y = Inr r)"
  by (cases x) auto

lemma parse_width_length: "parse_width fb fm vlist fmt = Inr (fm', vlist', rest) \<Longrightarrow> length rest \<le> length fmt"
  by (auto simp: parse_width_def fbind_Inr split: option.splits dest: consume_length parse_number_length)

lemma parse_precision_length: "parse_precision fb fm vlist fmt = Inr (fm', vlist', rest) \<Longrightarrow> length rest \<le> length fmt"
  by (auto simp: parse_precision_def fbind_Inr Let_def split: option.splits dest!: consume_length parse_number_length)

lemma write_int_rest: "write_int fb fm flag v vlist fmt = Inr (fb', vlist', rest) \<Longrightarrow> rest = fmt"
  by (auto simp: write_int_def Let_def split: option.splits)

lemma int_conversion_length: "int_conversion sg us fb fm vlist fmt = Inr (fb', vlist', rest) \<Longrightarrow> length rest \<le> length fmt"
  by (auto simp: int_conversion_def fbind_Inr split: option.splits dest!: write_int_rest dest: consume_length consume_one_of_length)

lemma other_conversion_rest:
  "char_conversion fb vlist fmt = Inr (fb', vlist', rest) \<Longrightarrow> rest = fmt"
  "string_conversion fb fm vlist fmt = Inr (fb', vlist', rest) \<Longrightarrow> rest = fmt"
  "pointer_conversion fb fm vlist fmt = Inr (fb', vlist', rest) \<Longrightarrow> rest = fmt"
  by (auto simp: char_conversion_def string_conversion_def pointer_conversion_def fbind_Inr dest: write_int_rest)

lemma first_match_all:
  assumes "\<And>token act rest. (token, act) \<in> set cs \<Longrightarrow> consume fmt token = Some rest \<Longrightarrow> P (act rest)" "P (other fmt)"
  shows "P (first_match cs other fmt)"
  using assms(1)
proof (induction cs)
  case (Cons tc cs)
  obtain token act where tc: "tc = (token, act)" by (cases tc)
  have "P (first_match cs other fmt)" by (rule Cons.IH, rule Cons.prems) (auto simp: tc)
  moreover have "P (act rest)" if "consume fmt token = Some rest" for rest using Cons.prems [of token act] that by (simp add: tc)
  ultimately show ?case by (cases "consume fmt token") (simp_all add: tc)
qed (simp add: assms(2))

lemma convert_length: "convert fb fm vlist fmt = Inr (fb', vlist', rest) \<Longrightarrow> length rest \<le> length fmt"
proof -
  let ?P = "\<lambda>r. \<forall>fb' vlist' rest. r = Inr (fb', vlist', rest) \<longrightarrow> length rest \<le> length fmt"
  have "?P (convert fb fm vlist fmt)" unfolding convert_def
    by (rule first_match_all)
      (auto dest!: other_conversion_rest int_conversion_length consume_length intro: le_trans)
  then show "convert fb fm vlist fmt = Inr (fb', vlist', rest) \<Longrightarrow> length rest \<le> length fmt" by blast
qed

lemma conversion_length: "conversion fb vlist fmt = Inr (fb', vlist', rest) \<Longrightarrow> length rest \<le> length fmt"
  by (auto simp: conversion_def fbind_Inr split: option.splits dest!: parse_flags_length parse_width_length parse_precision_length convert_length)

lemma find_next_conversion_length: "find_next_conversion fmt i = (Some rest, j) \<Longrightarrow> rest \<noteq> [] \<and> length rest \<le> length fmt"
  by (induction fmt i rule: find_next_conversion.induct) (auto split: if_splits)

lemma consume_shorter: "consume str token = Some rest \<Longrightarrow> token \<noteq> [] \<Longrightarrow> length rest < length str"
  by (cases str) (auto simp: consume_def split: if_splits)

text \<open>The loop over the format.\<close>

function vsnprintf_loop :: "fmt_buf_state \<Rightarrow> va_arg list \<Rightarrow> string \<Rightarrow> fmt_exit + fmt_buf_state" where
  "vsnprintf_loop fb vlist fmt =
     (if fmt = [] then Inr fb
      else let (next_conversion, next_offset) = find_next_conversion fmt 0;
               fb1 = (if next_offset \<noteq> 0 then write_many fb fmt next_offset else fb)
           in (case next_conversion of
                 None \<Rightarrow> Inr fb1
               | Some fmt1 \<Rightarrow>
                   (case consume fmt1 ''%%'' of
                      Some fmt2 \<Rightarrow> vsnprintf_loop (write_one fb1 (CHR ''%'')) vlist fmt2
                    | None \<Rightarrow>
                        (case conversion fb1 vlist (tl fmt1) of
                           Inl e \<Rightarrow> Inl e
                         | Inr (fb2, vlist2, fmt2) \<Rightarrow> vsnprintf_loop fb2 vlist2 fmt2))))"
  by pat_completeness auto
termination
proof (relation "measure (\<lambda>(fb, vlist, fmt). length fmt)", goal_cases)
  case (2 fb vlist fmt x nc off fb1 fmt1 b fb2 ya vlist2 fmt2)
  then have "find_next_conversion fmt 0 = (Some fmt1, off)" "conversion fb1 vlist (tl fmt1) = Inr (fb2, vlist2, fmt2)" by simp_all
  then show ?case using find_next_conversion_length [of fmt 0 fmt1 off] conversion_length [of fb1 vlist "tl fmt1" fb2 vlist2 fmt2]
    by (cases fmt1) auto
next
  case (3 fb vlist fmt x nc off fb1 fmt1 fmt2)
  then have "find_next_conversion fmt 0 = (Some fmt1, off)" by simp
  then show ?case using find_next_conversion_length [of fmt 0 fmt1 off] consume_shorter [of fmt1 "''%%''" fmt2] 3 by simp
qed simp

declare vsnprintf_loop.simps [simp del]

text \<open>The result is the memory at the buffer and the 32-bit return value.\<close>

definition uacpi_vsnprintf :: "(u64 \<Rightarrow> char) \<Rightarrow> u64 \<Rightarrow> string \<Rightarrow> va_arg list \<Rightarrow> fmt_exit + ((u64 \<Rightarrow> char) \<times> u32)" where
  "uacpi_vsnprintf buffer capacity fmt vlist =
     (case vsnprintf_loop \<lparr>fb_buffer = buffer, fb_capacity = capacity, bytes_written = 0\<rparr> vlist fmt of
        Inl (MinusOne fb) \<Rightarrow> Inr (fb_buffer fb, -1)
      | Inl e \<Rightarrow> Inl e
      | Inr fb \<Rightarrow>
          Inr (if fb_capacity fb \<noteq> 0 then (fb_buffer fb)(min (bytes_written fb) (fb_capacity fb - 1) := CHR 0x00) else fb_buffer fb,
               ucast (bytes_written fb)))"

definition uacpi_snprintf :: "(u64 \<Rightarrow> char) \<Rightarrow> u64 \<Rightarrow> string \<Rightarrow> va_arg list \<Rightarrow> fmt_exit + ((u64 \<Rightarrow> char) \<times> u32)" where
  "uacpi_snprintf buffer capacity fmt vlist = uacpi_vsnprintf buffer capacity fmt vlist"

definition UACPI_PLAIN_LOG_BUFFER_SIZE :: u64 where "UACPI_PLAIN_LOG_BUFFER_SIZE = 128"

fun c_string :: "nat \<Rightarrow> (u64 \<Rightarrow> char) \<Rightarrow> u64 \<Rightarrow> string" where
  "c_string 0 b i = []"
| "c_string (Suc n) b i = (if b i = CHR 0x00 then [] else b i # c_string n b (i + 1))"

text \<open>The contents of the uninitialised buffer are an argument.\<close>

definition uacpi_log :: "(u64 \<Rightarrow> char) \<Rightarrow> uacpi_log_level \<Rightarrow> string \<Rightarrow> va_arg list \<Rightarrow> tty \<Rightarrow> fmt_exit + tty option" where
  "uacpi_log stack lvl str vlist t =
     (case uacpi_vsnprintf stack UACPI_PLAIN_LOG_BUFFER_SIZE str vlist of
        Inl e \<Rightarrow> Inl e
      | Inr (buf, ret) \<Rightarrow>
          if ret <s 0 then Inr (Some t)
          else let buf1 = (if \<not> ret <s ucast UACPI_PLAIN_LOG_BUFFER_SIZE then
                   buf(UACPI_PLAIN_LOG_BUFFER_SIZE - 5 := CHR ''.'', UACPI_PLAIN_LOG_BUFFER_SIZE - 4 := CHR ''.'',
                       UACPI_PLAIN_LOG_BUFFER_SIZE - 3 := CHR ''.'', UACPI_PLAIN_LOG_BUFFER_SIZE - 2 := CHR 0x0A)
                 else buf)
               in Inr (uacpi_kernel_log lvl (c_string 128 buf1 0) t))"

section \<open>Agreement with the kernel's routines\<close>

lemma uacpi_copy_up_kernel: "uacpi_copy_up n m d s = copy_up n m d s"
  by (induction n arbitrary: m d s) simp_all

lemma copy_up_self: "copy_up n m d d = m"
  by (induction n arbitrary: m d) simp_all

lemma uacpi_copy_down_kernel: "uacpi_copy_down n m (d + of_nat n) (s + of_nat n) = copy_down n m d s"
  by (induction n arbitrary: m) (simp_all add: add.commute)

lemma uacpi_fill_kernel: "uacpi_fill n m d v = memset_loop n m d v"
  by (induction n arbitrary: m d) simp_all

lemma uacpi_memcmp_sign: "sgn (uacpi_memcmp_from n m p q) = memcmp_loop n m p q"
proof (induction n arbitrary: p q)
  case (Suc n)
  show ?case
  proof (cases "m p = m q")
    case False
    then have "uint (m p) \<noteq> uint (m q)" by (simp add: word_uint_eq_iff)
    then show ?thesis using False by (simp add: sgn_if word_less_def)
  qed (simp add: Suc.IH)
qed simp


lemma strlen_loop_end: "m (p + of_nat k) = 0 \<Longrightarrow> (\<And>i. i < k \<Longrightarrow> m (p + of_nat i) \<noteq> 0) \<Longrightarrow> strlen_loop m p = Some (p + of_nat k)"
proof (induction k arbitrary: p)
  case (Suc k)
  have "strlen_loop m (p + 1) = Some (p + 1 + of_nat k)"
  proof (rule Suc.IH)
    show "m (p + 1 + of_nat k) = 0" using Suc.prems(1) by (simp add: add.assoc)
    show "m (p + 1 + of_nat i) \<noteq> 0" if "i < k" for i using Suc.prems(2) [of "Suc i"] that by (simp add: add.assoc)
  qed
  then show ?case using Suc.prems(2) [of 0] by (simp add: strlen_loop.simps [of m p] add.assoc)
qed (simp add: strlen_loop.simps)

lemma strnlen_loop_end:
  "k \<le> n \<Longrightarrow> (k < n \<Longrightarrow> m (p + of_nat k) = 0) \<Longrightarrow> (\<And>i. i < k \<Longrightarrow> m (p + of_nat i) \<noteq> 0) \<Longrightarrow> strnlen_loop n m p = p + of_nat k"
proof (induction k arbitrary: p n)
  case 0
  then show ?case by (cases n) simp_all
next
  case (Suc k)
  obtain j where j: "n = Suc j" using Suc.prems(1) by (cases n) auto
  have "strnlen_loop j m (p + 1) = p + 1 + of_nat k"
  proof (rule Suc.IH)
    show "k \<le> j" using Suc.prems(1) j by simp
    show "k < j \<Longrightarrow> m (p + 1 + of_nat k) = 0" using Suc.prems(2) j by (simp add: add.assoc)
    show "m (p + 1 + of_nat i) \<noteq> 0" if "i < k" for i using Suc.prems(3) [of "Suc i"] that by (simp add: add.assoc)
  qed
  then show ?case using Suc.prems(3) [of 0] j by (simp add: add.assoc)
qed

text \<open>On a terminated string both lengths are the number of characters before the terminator, \<open>uacpi_strnlen\<close>'s cut at its bound.\<close>

lemma strlen_strnlen:
  assumes "m (p + of_nat k) = 0" "\<And>i. i < k \<Longrightarrow> m (p + of_nat i) \<noteq> 0" "k < 2 ^ 64"
  shows "uacpi_strlen m p = Some (of_nat k)" "uacpi_strnlen m p n = min n (of_nat k)"
proof -
  show "uacpi_strlen m p = Some (of_nat k)" using strlen_loop_end [of m p k] assms by (simp add: uacpi_strlen_def)
  have "strnlen_loop (unat n) m p = p + of_nat (min (unat n) k)" using assms(1,2) by (intro strnlen_loop_end) auto
  then show "uacpi_strnlen m p n = min n (of_nat k)" using unat_of_nat64 [OF assms(3)]
    by (simp add: uacpi_strnlen_def min_def word_le_nat_alt)
qed

section \<open>Reference counts\<close>

definition BUGGED_REFCOUNT :: u32 where "BUGGED_REFCOUNT = 0xFFFFFFFF"

record uacpi_shareable = reference_count :: u32

definition uacpi_shareable_init :: "uacpi_shareable \<Rightarrow> uacpi_shareable" where
  "uacpi_shareable_init s = s\<lparr>reference_count := 1\<rparr>"

definition uacpi_make_shareable_bugged :: "uacpi_shareable \<Rightarrow> uacpi_shareable" where
  "uacpi_make_shareable_bugged s = s\<lparr>reference_count := BUGGED_REFCOUNT\<rparr>"

definition uacpi_bugged_shareable :: "uacpi_shareable \<Rightarrow> bool \<times> uacpi_shareable" where
  "uacpi_bugged_shareable s =
     (let s1 = (if reference_count s = 0 then uacpi_make_shareable_bugged s else s)
      in (reference_count s1 = BUGGED_REFCOUNT, s1))"

definition uacpi_shareable_ref :: "uacpi_shareable \<Rightarrow> u32 \<times> uacpi_shareable" where
  "uacpi_shareable_ref s =
     (let (bugged, s1) = uacpi_bugged_shareable s
      in if bugged then (BUGGED_REFCOUNT, s1)
         else let c = reference_count s1 + 1 in (c - 1, s1\<lparr>reference_count := c\<rparr>))"

definition uacpi_shareable_unref :: "uacpi_shareable \<Rightarrow> u32 \<times> uacpi_shareable" where
  "uacpi_shareable_unref s =
     (let (bugged, s1) = uacpi_bugged_shareable s
      in if bugged then (BUGGED_REFCOUNT, s1)
         else let c = reference_count s1 - 1 in (c + 1, s1\<lparr>reference_count := c\<rparr>))"

text \<open>The first component tells whether \<open>do_free\<close> is called.\<close>

definition uacpi_shareable_unref_and_delete_if_last :: "uacpi_shareable option \<Rightarrow> bool \<times> uacpi_shareable option" where
  "uacpi_shareable_unref_and_delete_if_last handle =
     (case handle of
        None \<Rightarrow> (False, None)
      | Some s \<Rightarrow>
          let (bugged, s1) = uacpi_bugged_shareable s
          in if bugged then (False, Some s1)
             else let (c, s2) = uacpi_shareable_unref s1 in (c = 1, Some s2))"

definition uacpi_shareable_refcount :: "uacpi_shareable \<Rightarrow> u32" where
  "uacpi_shareable_refcount s = reference_count s"

fun take_refs :: "nat \<Rightarrow> uacpi_shareable \<Rightarrow> uacpi_shareable" where
  "take_refs 0 s = s"
| "take_refs (Suc n) s = take_refs n (snd (uacpi_shareable_ref s))"

fun drop_refs :: "nat \<Rightarrow> uacpi_shareable \<Rightarrow> bool list \<times> uacpi_shareable" where
  "drop_refs 0 s = ([], s)"
| "drop_refs (Suc n) s =
     (let (freed, h) = uacpi_shareable_unref_and_delete_if_last (Some s);
          (fs, s2) = drop_refs n (the h)
      in (freed # fs, s2))"

lemma count_plus: "unat c + 1 < 2 ^ 32 - 1 \<Longrightarrow> unat (c + 1) = unat c + 1" for c :: u32
  by (simp add: unat_word_ariths)

lemma ref_counts:
  assumes "reference_count s \<noteq> 0" "reference_count s \<noteq> BUGGED_REFCOUNT"
  shows "snd (uacpi_shareable_ref s) = s\<lparr>reference_count := reference_count s + 1\<rparr>"
    "uacpi_shareable_unref_and_delete_if_last (Some s) = (reference_count s = 1, Some (s\<lparr>reference_count := reference_count s - 1\<rparr>))"
  using assms by (simp_all add: uacpi_shareable_ref_def uacpi_shareable_unref_and_delete_if_last_def uacpi_shareable_unref_def uacpi_bugged_shareable_def Let_def)

lemma not_bugged: "0 < unat c \<Longrightarrow> unat c < 2 ^ 32 - 1 \<Longrightarrow> c \<noteq> 0 \<and> c \<noteq> BUGGED_REFCOUNT" for c :: u32
  by (auto simp: BUGGED_REFCOUNT_def)

lemma take_refs_count:
  "0 < unat (reference_count s) \<Longrightarrow> unat (reference_count s) + n < 2 ^ 32 - 1 \<Longrightarrow>
   take_refs n s = s\<lparr>reference_count := reference_count s + of_nat n\<rparr>"
proof (induction n arbitrary: s)
  case (Suc n)
  have nb: "reference_count s \<noteq> 0" "reference_count s \<noteq> BUGGED_REFCOUNT" using not_bugged Suc.prems by auto
  have "unat (reference_count s + 1) = unat (reference_count s) + 1" using Suc.prems by (intro count_plus) simp
  then show ?case using Suc by (simp add: ref_counts(1) [OF nb] add.assoc)
qed simp

lemma drop_refs_count:
  "unat (reference_count s) = Suc n \<Longrightarrow> Suc n < 2 ^ 32 - 1 \<Longrightarrow> drop_refs (Suc n) s = (replicate n False @ [True], s\<lparr>reference_count := 0\<rparr>)"
proof (induction n arbitrary: s)
  case 0
  then have c: "reference_count s = 1" by (simp add: word_unat_eq_iff)
  then show ?case using ref_counts(2) [of s] by (simp add: BUGGED_REFCOUNT_def)
next
  case (Suc n)
  have nb: "reference_count s \<noteq> 0" "reference_count s \<noteq> BUGGED_REFCOUNT" "reference_count s \<noteq> 1" using not_bugged Suc.prems by auto
  have "unat (reference_count s - 1) = Suc n" using Suc.prems(1) nb(1) by (simp add: unat_minus_one)
  then have "drop_refs (Suc n) (s\<lparr>reference_count := reference_count s - 1\<rparr>) = (replicate n False @ [True], s\<lparr>reference_count := 0\<rparr>)"
    using Suc by simp
  then show ?case using ref_counts(2) [OF nb(1,2)] nb(3) by (simp del: drop_refs.simps(2) add: drop_refs.simps(2) [of "Suc n" s])
qed

text \<open>C24. An object that was initialised and then shared \<open>n\<close> more times is freed by exactly the last of its \<open>n + 1\<close> releases; a
  release after that does not free it again but marks the count as broken, and so does every later use.\<close>

theorem shareable_freed_once:
  assumes "n + 2 < 2 ^ 32"
  shows "\<exists>s1. drop_refs (Suc n) (take_refs n (uacpi_shareable_init s)) = (replicate n False @ [True], s1) \<and>
    (let (freed, h) = uacpi_shareable_unref_and_delete_if_last (Some s1)
     in \<not> freed \<and> h = Some (uacpi_make_shareable_bugged s1) \<and>
        uacpi_shareable_ref (the h) = (BUGGED_REFCOUNT, the h) \<and> uacpi_shareable_unref (the h) = (BUGGED_REFCOUNT, the h))"
proof -
  let ?s = "take_refs n (uacpi_shareable_init s)"
  have t: "?s = s\<lparr>reference_count := 1 + of_nat n\<rparr>" using take_refs_count [of "uacpi_shareable_init s" n] assms by (simp add: uacpi_shareable_init_def)
  have "unat (of_nat (Suc n) :: u32) = Suc n" using assms by (simp only: unat_of_nat) (simp add: take_bit_nat_eq_self)
  then have "unat (reference_count ?s) = Suc n" by (simp add: t)
  from drop_refs_count [OF this] assms
  have "drop_refs (Suc n) ?s = (replicate n False @ [True], s\<lparr>reference_count := 0\<rparr>)" by (simp add: t)
  then show ?thesis
    by (intro exI [of _ "s\<lparr>reference_count := 0\<rparr>"])
      (simp add: uacpi_shareable_unref_and_delete_if_last_def uacpi_shareable_ref_def uacpi_shareable_unref_def uacpi_bugged_shareable_def uacpi_make_shareable_bugged_def)
qed

theorem shareable_freed_once_witness:
  "\<exists>s1. drop_refs (Suc 2) (take_refs 2 (uacpi_shareable_init \<lparr>reference_count = 0\<rparr>)) = (replicate 2 False @ [True], s1)"
proof -
  have "2 + 2 < (2 :: nat) ^ 32" by simp
  from shareable_freed_once [OF this, of "\<lparr>reference_count = 0\<rparr>"] show ?thesis by blast
qed

end
