(* ===== verification/Uacpi_Format.thy ===== *)
theory Uacpi_Format
  imports Uacpi_Stdlib
begin

text \<open>
  Properties of the formatter of \<open>uacpi/source/stdlib.c\<close>: it writes only inside its buffers, a smaller buffer only truncates the
  text, and printed numbers read back. The proofs follow two runs of the formatter side by side, through the interface
  \<open>buffer_relation\<close>.
\<close>

section \<open>Properties\<close>

text \<open>What one write does at every offset of the buffer.\<close>

lemma write_one_buffer:
  "fb_buffer (write_one fb c) i = (if i = bytes_written fb \<and> i < fb_capacity fb then c else fb_buffer fb i)"
  "fb_capacity (write_one fb c) = fb_capacity fb" "bytes_written (write_one fb c) = bytes_written fb + 1"
  by (auto simp: write_one_def Let_def)

lemma put_chars_at: "length s < 2 ^ 64 \<Longrightarrow> put_chars b i s x = (if unat (x - i) < length s then s ! unat (x - i) else b x)"
proof (induction s arbitrary: b i)
  case (Cons c s)
  show ?case
  proof (cases "x = i")
    case True
    have "unat (- 1 :: u64) = 2 ^ 64 - 1" by simp
    then have "\<not> unat (i - (i + 1)) < length s" using Cons.prems by simp
    then show ?thesis using True Cons by simp
  next
    case False
    then have "1 \<le> unat (x - i)" by (metis One_nat_def Suc_leI eq_iff_diff_eq_0 unat_gt_0)
    then have "unat (x - i) = Suc (unat (x - (i + 1)))" using unat_diff_step [of x i] by simp
    then show ?thesis using False Cons by simp
  qed
qed simp

lemma write_many_buffer:
  "fb_buffer (write_many fb s n) i =
     (if bytes_written fb \<le> i \<and> i < fb_capacity fb \<and> unat (i - bytes_written fb) < unat n \<and> unat (i - bytes_written fb) < length s
      then s ! unat (i - bytes_written fb) else fb_buffer fb i)"
  "fb_capacity (write_many fb s n) = fb_capacity fb" "bytes_written (write_many fb s n) = bytes_written fb + n"
proof -
  let ?w = "bytes_written fb" and ?c = "fb_capacity fb"
  have step: "unat (i - ?w) < unat (min n (?c - ?w)) \<longleftrightarrow> ?w \<le> i \<and> i < ?c \<and> unat (i - ?w) < unat n" if w: "?w < ?c"
  proof -
    have c: "unat (?c - ?w) = unat ?c - unat ?w" using w by (simp add: unat_sub less_imp_le)
    have i: "?w \<le> i \<and> i < ?c \<longleftrightarrow> unat (i - ?w) < unat (?c - ?w)"
    proof (cases "?w \<le> i")
      case True
      then have "unat (i - ?w) = unat i - unat ?w" by (simp add: unat_sub)
      then show ?thesis using True c w by (simp add: word_less_nat_alt word_le_nat_alt) linarith
    next
      case False
      then have "unat (i - ?w) = 2 ^ 64 + unat i - unat ?w" by (simp add: unat_sub_if_size word_size word_le_nat_alt)
      then show ?thesis using False c unat_less64 [of ?c] by simp
    qed
    have "unat (min n (?c - ?w)) = min (unat n) (unat (?c - ?w))" by (simp add: min_def word_le_nat_alt)
    then show ?thesis using i by auto
  qed
  have "length (take (unat (min n (?c - ?w))) s) < 2 ^ 64" using unat_less64 [of "min n (?c - ?w)"] by (simp add: min.strict_coboundedI2)
  from put_chars_at [OF this, of "fb_buffer fb" ?w i]
  show "fb_buffer (write_many fb s n) i =
     (if ?w \<le> i \<and> i < ?c \<and> unat (i - ?w) < unat n \<and> unat (i - ?w) < length s then s ! unat (i - ?w) else fb_buffer fb i)"
    using step by (cases "?w < ?c") (auto simp: write_many_def Let_def)
qed (auto simp: write_many_def Let_def)

text \<open>
  A relation between two output buffers that both kinds of writes keep is kept by the whole formatter. The formatter reads
  nothing from the buffer, so it takes the same branches on both sides.
\<close>

fun exit_rel :: "(fmt_buf_state \<Rightarrow> fmt_buf_state \<Rightarrow> bool) \<Rightarrow> fmt_exit \<Rightarrow> fmt_exit \<Rightarrow> bool" where
  "exit_rel R (MinusOne a) (MinusOne b) = R a b"
| "exit_rel R (MinusOne a) e = False"
| "exit_rel R e f = (e = f)"

definition conv_rel :: "(fmt_buf_state \<Rightarrow> fmt_buf_state \<Rightarrow> bool) \<Rightarrow> fmt_exit + conv_state \<Rightarrow> fmt_exit + conv_state \<Rightarrow> bool" where
  "conv_rel R = rel_sum (exit_rel R) (rel_prod R (=))"

locale buffer_relation =
  fixes R :: "fmt_buf_state \<Rightarrow> fmt_buf_state \<Rightarrow> bool"
  assumes one: "R a b \<Longrightarrow> R (write_one a c) (write_one b c)"
    and many: "R a b \<Longrightarrow> R (write_many a s n) (write_many b s n)"
begin

lemma rel_n: "R a b \<Longrightarrow> R (write_n n c a) (write_n n c b)"
  by (induction n arbitrary: a b) (simp_all add: one)

lemma rel_padding: "R a b \<Longrightarrow> R (write_padding a fm n) (write_padding b fm n)"
  by (simp add: write_padding_def rel_n)

lemma rel_integer: "R a b \<Longrightarrow> rel_option R (write_integer a fm v) (write_integer b fm v)"
  by (cases "integer_repr fm (if is_signed fm \<and> v <s 0 then - v else v)") (simp_all add: write_integer_def Let_def one many rel_padding)

lemma rel_string: "R a b \<Longrightarrow> rel_prod R (=) (write_string a fm i s) (write_string b fm i s)"
  by (induction s arbitrary: a b i) (simp_all add: one)

lemma rel_string_arg: "R a b \<Longrightarrow> R (write_string_arg a fm s) (write_string_arg b fm s)"
  using rel_string [of a b fm 0 "case s of None \<Rightarrow> ''<null>'' | Some str \<Rightarrow> str"]
  by (auto simp: write_string_arg_def rel_n split: prod.splits)

lemma rel_bind:
  "(\<And>e. x = Inl e \<Longrightarrow> exit_rel R e e) \<Longrightarrow> (\<And>y. conv_rel R (f y) (g y)) \<Longrightarrow> conv_rel R (fbind x f) (fbind x g)"
  by (cases x) (auto simp: conv_rel_def)

lemma va_exit: "va_word vlist = Inl e \<Longrightarrow> exit_rel R e e" "va_string vlist = Inl e \<Longrightarrow> exit_rel R e e"
  by (induction vlist rule: va_word.induct; simp) (induction vlist rule: va_string.induct; simp)

lemma rel_int: "R a b \<Longrightarrow> conv_rel R (write_int a fm flag v vlist fmt) (write_int b fm flag v vlist fmt)"
  using rel_integer [of a b "case flag of None \<Rightarrow> fm | Some f \<Rightarrow> fm\<lparr>fm_base := base_from_specifier f, uppercase := is_uppercase_specifier f\<rparr>" v]
  by (auto simp: write_int_def conv_rel_def Let_def option_rel_Some1 option_rel_Some2 split: option.splits)

lemma rel_int_conversion: "R a b \<Longrightarrow> conv_rel R (int_conversion sg us a fm vlist fmt) (int_conversion sg us b fm vlist fmt)"
  by (auto simp: int_conversion_def intro!: rel_bind rel_int dest: va_exit split: option.splits) (simp add: conv_rel_def)

lemma rel_other_conversion:
  assumes "R a b"
  shows "conv_rel R (char_conversion a vlist fmt) (char_conversion b vlist fmt)"
    "conv_rel R (string_conversion a fm vlist fmt) (string_conversion b fm vlist fmt)"
    "conv_rel R (pointer_conversion a fm vlist fmt) (pointer_conversion b fm vlist fmt)"
  unfolding char_conversion_def string_conversion_def pointer_conversion_def
  using assms by (auto intro!: rel_bind rel_int dest: va_exit) (simp_all add: conv_rel_def one rel_string_arg)

lemma rel_first_match:
  assumes "list_all2 (\<lambda>(t, f) (u, g). t = u \<and> (\<forall>rest. conv_rel R (f rest) (g rest))) cs ds" "conv_rel R (p fmt) (q fmt)"
  shows "conv_rel R (first_match cs p fmt) (first_match ds q fmt)"
  using assms by (induction cs ds rule: list_all2_induct) (auto split: option.splits)

lemma rel_convert: "R a b \<Longrightarrow> conv_rel R (convert a fm vlist fmt) (convert b fm vlist fmt)"
  unfolding convert_def by (rule rel_first_match) (simp_all add: rel_other_conversion rel_int_conversion)

lemma parse_rel:
  assumes "R a b"
  shows "rel_sum (exit_rel R) (=) (parse_width a fm vlist fmt) (parse_width b fm vlist fmt)"
    "rel_sum (exit_rel R) (=) (parse_precision a fm vlist fmt) (parse_precision b fm vlist fmt)"
proof -
  have w: "rel_sum (exit_rel R) (=) (fbind (va_word vlist) f) (fbind (va_word vlist) f)"
    if "\<And>y. \<exists>z. f y = Inr z" for f :: "u64 \<times> va_arg list \<Rightarrow> fmt_exit + (fmt_spec \<times> va_arg list \<times> string)"
  proof (cases "va_word vlist")
    case (Inr y)
    then show ?thesis using that [of y] by auto
  qed (simp add: va_exit)
  show "rel_sum (exit_rel R) (=) (parse_width a fm vlist fmt) (parse_width b fm vlist fmt)"
    "rel_sum (exit_rel R) (=) (parse_precision a fm vlist fmt) (parse_precision b fm vlist fmt)"
    unfolding parse_width_def parse_precision_def Let_def using assms by (auto intro!: w split: option.splits)
qed

lemma rel_fbind:
  "rel_sum (exit_rel R) (=) x y \<Longrightarrow> (\<And>z. conv_rel R (f z) (g z)) \<Longrightarrow> conv_rel R (fbind x f) (fbind y g)"
  by (cases x; cases y) (auto simp: conv_rel_def)

lemma rel_conversion:
  assumes "R a b"
  shows "conv_rel R (conversion a vlist fmt) (conversion b vlist fmt)"
proof (cases "parse_flags new_spec fmt")
  case (Some p)
  then show ?thesis using assms
    by (auto simp: conversion_def intro!: rel_fbind parse_rel rel_convert split: prod.splits)
qed (simp add: conversion_def conv_rel_def assms)

lemma rel_loop:
  "R a b \<Longrightarrow> rel_sum (exit_rel R) R (vsnprintf_loop a vlist fmt) (vsnprintf_loop b vlist fmt)"
proof (induction a vlist fmt arbitrary: b rule: vsnprintf_loop.induct)
  case (1 a vlist fmt)
  obtain nc off where f: "find_next_conversion fmt 0 = (nc, off)" by (cases "find_next_conversion fmt 0")
  define a1 where "a1 = (if off \<noteq> 0 then write_many a fmt off else a)"
  define b1 where "b1 = (if off \<noteq> 0 then write_many b fmt off else b)"
  have r: "R a1 b1" using 1(3) by (simp add: a1_def b1_def many)
  show ?case
  proof (cases "fmt = [] \<or> nc = None")
    case True
    then show ?thesis using 1(3) r
      by (auto simp: vsnprintf_loop.simps [of a] vsnprintf_loop.simps [of b] f a1_def b1_def)
  next
    case False
    then obtain g where g: "nc = Some g" "fmt \<noteq> []" by auto
    show ?thesis
    proof (cases "consume g ''%%''")
      case (Some h)
      have "rel_sum (exit_rel R) R (vsnprintf_loop (write_one a1 CHR ''%'') vlist h) (vsnprintf_loop (write_one b1 CHR ''%'') vlist h)"
        by (rule 1(2) [OF g(2) f [symmetric] refl a1_def g(1) Some one [OF r]])
      then show ?thesis
        using Some g by (simp add: vsnprintf_loop.simps [of a] vsnprintf_loop.simps [of b] f flip: a1_def b1_def)
    next
      case None
      have c: "conv_rel R (conversion a1 vlist (tl g)) (conversion b1 vlist (tl g))" by (rule rel_conversion [OF r])
      show ?thesis
      proof (cases "conversion a1 vlist (tl g)")
        case (Inl e)
        then obtain e' where "conversion b1 vlist (tl g) = Inl e'" "exit_rel R e e'" using c
          by (cases "conversion b1 vlist (tl g)") (auto simp: conv_rel_def)
        then show ?thesis
          using Inl None g by (simp add: vsnprintf_loop.simps [of a] vsnprintf_loop.simps [of b] f flip: a1_def b1_def)
      next
        case (Inr t)
        obtain a2 v2 f2 where t: "t = (a2, v2, f2)" by (cases t)
        then obtain b2 where b2: "conversion b1 vlist (tl g) = Inr (b2, v2, f2)" "R a2 b2" using c Inr
          by (cases "conversion b1 vlist (tl g)") (auto simp: conv_rel_def)
        have "rel_sum (exit_rel R) R (vsnprintf_loop a2 v2 f2) (vsnprintf_loop b2 v2 f2)"
          by (rule 1(1) [OF g(2) f [symmetric] refl a1_def g(1) None Inr t [symmetric] refl b2(2)])
        then show ?thesis
          using Inr t b2(1) None g by (simp add: vsnprintf_loop.simps [of a] vsnprintf_loop.simps [of b] f flip: a1_def b1_def)
      qed
    qed
  qed
qed

end

subsection \<open>Digits\<close>

definition base_ok :: "fmt_spec \<Rightarrow> bool" where
  "base_ok fm = (fm_base fm = 8 \<or> fm_base fm = 10 \<or> fm_base fm = 16)"

lemma hex_digits: "list_all (\<lambda>d. hex_value (of_char (hex_char True (of_nat d))) = d \<and> hex_value (of_char (hex_char False (of_nat d))) = d) [0..<16]"
  by code_simp

lemma base_bounds: "base_ok fm \<Longrightarrow> 8 \<le> unat (fm_base fm) \<and> unat (fm_base fm) \<le> 16"
  by (auto simp: base_ok_def)

lemma digit_char_value:
  assumes "base_ok fm" "unat r < unat (fm_base fm)"
  shows "hex_value (of_char (digit_char fm r)) = unat r"
proof (cases "fm_base fm = 16")
  case True
  then have "unat r < 16" using assms(2) by simp
  then show ?thesis using hex_digits True by (cases "uppercase fm") (auto simp: digit_char_def list_all_iff Ball_def dest!: spec [of _ "unat r"])
next
  case False
  then have b: "fm_base fm = 8 \<or> fm_base fm = 10" using assms(1) by (auto simp: base_ok_def)
  then have r: "unat r < 10" using assms(2) by auto
  then have "unat (r + 48) = unat r + 48" using unat_add64 [of r 48] by simp
  then show ?thesis using b r by (auto simp: digit_char_def hex_value_def of_char_of)
qed

lemma numeral_in_snoc: "numeral_in b (s @ [c]) v = numeral_in b s v * b + hex_value (of_char c)"
  by (simp add: numeral_in_def)

lemma repr_loop_digits:
  assumes "base_ok fm"
  shows "unat v < 8 ^ k \<Longrightarrow> k \<le> index \<Longrightarrow> \<exists>s. repr_loop index fm v acc = Some (index - length s, s @ acc) \<and> length s \<le> k \<and>
    numeral_in (unat (fm_base fm)) s 0 = unat v \<and> (\<forall>c\<in>set s. hex_value (of_char c) < unat (fm_base fm)) \<and> (s = [] \<longleftrightarrow> v = 0)"
proof (induction k arbitrary: v index acc)
  case 0
  then have "v = 0" by (simp add: unat_eq_zero)
  then show ?case by (intro exI [of _ "[]"]) (cases index; simp add: numeral_in_def)
next
  case (Suc k)
  let ?b = "unat (fm_base fm)" and ?w = "ucast (fm_base fm) :: u64"
  have b: "8 \<le> ?b" using base_bounds [OF assms] by simp
  have w: "unat ?w = ?b" by (rule unat_widen(1))
  show ?case
  proof (cases "v = 0")
    case True
    then show ?thesis by (intro exI [of _ "[]"]) (cases index; simp add: numeral_in_def)
  next
    case False
    obtain j where j: "index = Suc j" "k \<le> j" using Suc.prems(2) by (cases index) auto
    let ?c = "digit_char fm (v mod ?w)"
    have q: "unat (v div ?w) = unat v div ?b" and r: "unat (v mod ?w) = unat v mod ?b" by (simp_all add: unat_div_distrib unat_mod_distrib w)
    have "unat v div ?b \<le> unat v div 8" using b by (simp add: div_le_mono2)
    also have "\<dots> < 8 ^ k" using Suc.prems(1) by simp
    finally obtain s where s: "repr_loop j fm (v div ?w) (?c # acc) = Some (j - length s, s @ ?c # acc)" "length s \<le> k"
      "numeral_in ?b s 0 = unat v div ?b" "\<forall>c\<in>set s. hex_value (of_char c) < ?b"
      using Suc.IH [of "v div ?w" j "?c # acc"] j(2) q by auto
    have c: "hex_value (of_char ?c) = unat v mod ?b" using digit_char_value [OF assms, of "v mod ?w"] b by (simp add: r)
    have "numeral_in ?b (s @ [?c]) 0 = unat v" by (simp add: numeral_in_snoc s(3) c)
    moreover have "\<forall>x\<in>set (s @ [?c]). hex_value (of_char x) < ?b" using s(4) c b by simp
    ultimately show ?thesis using s(1,2) False j by (intro exI [of _ "s @ [?c]"]) auto
  qed
qed

text \<open>The internal buffer is large enough for every base the formatter uses, prefix included.\<close>

lemma integer_repr_digits:
  assumes "base_ok fm"
  shows "\<exists>s. length s \<le> 24 \<and> s \<noteq> [] \<and> integer_repr fm v = Some s \<and> (\<not> alternate_form fm \<longrightarrow>
    numeral_in (unat (fm_base fm)) s 0 = unat v \<and> (\<forall>c\<in>set s. hex_value (of_char c) < unat (fm_base fm)))"
proof -
  have "unat v < 8 ^ 22" using unat_less64 [of v] by simp
  from repr_loop_digits [OF assms this, of 32 "[]"]
  obtain s where s: "repr_loop 32 fm v [] = Some (32 - length s, s)" "length s \<le> 22" "numeral_in (unat (fm_base fm)) s 0 = unat v"
    "\<forall>c\<in>set s. hex_value (of_char c) < unat (fm_base fm)" "s = [] \<longleftrightarrow> v = 0" by auto
  define t where "t = (if s = [] then ''0'' else s)"
  have t: "length t \<le> 22" "t \<noteq> []" "numeral_in (unat (fm_base fm)) t 0 = unat v" "\<forall>c\<in>set t. hex_value (of_char c) < unat (fm_base fm)"
    using s(2,3,4,5) base_bounds [OF assms] by (auto simp: t_def numeral_in_def hex_value_def)
  have r: "Option.bind (repr_loop REPR_BUFFER_SIZE fm v []) (\<lambda>r. if snd r = [] then push_repr (CHR ''0'') r else Some r) = Some (32 - length t, t)"
    using s(1) by (simp add: t_def REPR_BUFFER_SIZE_def numeral_eq_Suc)
  have j: "32 - length t = Suc (Suc (30 - length t))" using t(1) by simp
  have "integer_repr fm v = map_option snd (alternate_prefix fm (32 - length t, t))"
    by (simp only: integer_repr_def flip: Option.bind_assoc) (simp add: r)
  then show ?thesis using t j by (auto simp: alternate_prefix_def)
qed

subsection \<open>The internal buffer\<close>

lemma base_ok_updates [simp]:
  "base_ok (fm\<lparr>is_signed := x\<rparr>) = base_ok fm" "base_ok (fm\<lparr>min_width := w\<rparr>) = base_ok fm" "base_ok (fm\<lparr>precision := w\<rparr>) = base_ok fm"
  "base_ok (fm\<lparr>has_precision := x\<rparr>) = base_ok fm" "base_ok new_spec" "base_ok (fm\<lparr>fm_base := 16, min_width := w, pad_char := c\<rparr>)"
  "base_ok (fm\<lparr>fm_base := base_from_specifier f, uppercase := x\<rparr>)"
  by (auto simp: base_ok_def new_spec_def base_from_specifier_def)

lemma write_int_room: "base_ok fm \<Longrightarrow> write_int fb fm flag v vlist fmt \<noteq> Inl ReprOverflow"
proof -
  assume fm: "base_ok fm"
  let ?fm = "case flag of None \<Rightarrow> fm | Some f \<Rightarrow> fm\<lparr>fm_base := base_from_specifier f, uppercase := is_uppercase_specifier f\<rparr>"
  have "base_ok ?fm" using fm by (cases flag) simp_all
  from integer_repr_digits [OF this]
  have "write_integer fb ?fm v \<noteq> None" by (auto simp: write_integer_def Let_def split del: if_split)
  then show ?thesis by (auto simp: write_int_def Let_def split: option.splits)
qed

lemma fbind_room: "fbind x f = Inl e \<longleftrightarrow> x = Inl e \<or> (\<exists>y. x = Inr y \<and> f y = Inl e)"
  by (cases x) auto

lemma va_room [simp]: "va_word vlist \<noteq> Inl ReprOverflow" "va_string vlist \<noteq> Inl ReprOverflow"
  by (induction vlist rule: va_word.induct; simp) (induction vlist rule: va_string.induct; simp)

lemma conversions_room:
  assumes "base_ok fm"
  shows "int_conversion sg us fb fm vlist fmt \<noteq> Inl ReprOverflow" "char_conversion fb vlist fmt \<noteq> Inl ReprOverflow"
    "string_conversion fb fm vlist fmt \<noteq> Inl ReprOverflow" "pointer_conversion fb fm vlist fmt \<noteq> Inl ReprOverflow"
  unfolding int_conversion_def char_conversion_def string_conversion_def pointer_conversion_def
  using assms by (auto simp: fbind_room write_int_room split: option.splits)

lemma convert_room: "base_ok fm \<Longrightarrow> convert fb fm vlist fmt \<noteq> Inl ReprOverflow"
  unfolding convert_def by (rule first_match_all [where P = "\<lambda>r. r \<noteq> Inl ReprOverflow"]) (auto dest: conversions_room)

lemma parse_flags_base: "parse_flags fm fmt = Some (fm', rest) \<Longrightarrow> base_ok fm \<Longrightarrow> base_ok fm'"
  by (induction fm fmt arbitrary: fm' rest rule: parse_flags.induct)
    (fastforce simp: apply_flag_def base_ok_def split: if_splits option.splits)+

lemma parse_base:
  "parse_width fb fm vlist fmt = Inr (fm', vlist', rest) \<Longrightarrow> base_ok fm \<Longrightarrow> base_ok fm'"
  "parse_precision fb fm vlist fmt = Inr (fm', vlist', rest) \<Longrightarrow> base_ok fm \<Longrightarrow> base_ok fm'"
  by (auto simp: parse_width_def parse_precision_def fbind_Inr Let_def split: option.splits)

lemma parse_room: "parse_width fb fm vlist fmt \<noteq> Inl ReprOverflow" "parse_precision fb fm vlist fmt \<noteq> Inl ReprOverflow"
  unfolding parse_width_def parse_precision_def Let_def by (auto simp: fbind_room split: option.splits)

lemma conversion_room: "conversion fb vlist fmt \<noteq> Inl ReprOverflow"
  unfolding conversion_def
  by (auto simp: fbind_room parse_room dest!: parse_base parse_flags_base dest: convert_room split: option.splits)

lemma loop_room: "vsnprintf_loop fb vlist fmt \<noteq> Inl ReprOverflow"
proof (induction fb vlist fmt rule: vsnprintf_loop.induct)
  case (1 fb vlist fmt)
  then show ?case using conversion_room
    by (subst vsnprintf_loop.simps) (auto simp: Let_def split: option.splits sum.splits prod.splits)
qed

subsection \<open>Bounds and truncation\<close>

definition bounded_by :: "(u64 \<Rightarrow> char) \<Rightarrow> u64 \<Rightarrow> fmt_buf_state \<Rightarrow> fmt_buf_state \<Rightarrow> bool" where
  "bounded_by b0 cap a b \<longleftrightarrow> a = b \<and> fb_capacity a = cap \<and> (\<forall>i. cap \<le> i \<longrightarrow> fb_buffer a i = b0 i)"

interpretation bounded: buffer_relation "bounded_by b0 cap" for b0 cap
  by unfold_locales (auto simp: bounded_by_def write_one_buffer write_many_buffer)

definition agree :: "u64 \<Rightarrow> u64 \<Rightarrow> fmt_buf_state \<Rightarrow> fmt_buf_state \<Rightarrow> bool" where
  "agree c d a b \<longleftrightarrow> fb_capacity a = c \<and> fb_capacity b = d \<and> bytes_written a = bytes_written b \<and>
     (\<forall>i. i < c \<longrightarrow> i < d \<longrightarrow> fb_buffer a i = fb_buffer b i)"

interpretation trunc: buffer_relation "agree c d" for c d
  by unfold_locales (auto simp: agree_def write_one_buffer write_many_buffer)

lemma pred_less64: "c \<noteq> 0 \<Longrightarrow> c - 1 < c" for c :: u64
  using unat_minus_one [of c] unat_gt_0 [of c] by (simp add: word_less_nat_alt)

lemma pred_mono64: "c \<noteq> 0 \<Longrightarrow> c \<le> d \<Longrightarrow> c - 1 \<le> d - 1 \<and> d \<noteq> 0" for c d :: u64
  using unat_minus_one [of c] unat_minus_one [of d] by (cases "d = 0") (auto simp: word_le_nat_alt unat_eq_zero)


lemma sample_conversion: "conversion fb [VaString (Some ''bcd'')] ''s'' = Inr (write_one (write_one (write_one fb CHR ''b'') CHR ''c'') CHR ''d'', [], [])"
  by (simp add: conversion_def new_spec_def parse_width_def consume_def parse_number_def
    consume_digits_def parse_precision_def convert_def string_conversion_def write_string_arg_def)

lemma sample_format:
  "uacpi_vsnprintf b 4 ''a%s'' [VaString (Some ''bcd'')] = Inr (b(0 := CHR ''a'', 1 := CHR ''b'', 2 := CHR ''c'', 3 := CHR 0x00), 4)"
  by (simp add: uacpi_vsnprintf_def vsnprintf_loop.simps consume_def sample_conversion write_one_def write_many_def)


text \<open>C22. A smaller buffer only cuts the text off: on the same memory, format and arguments the return value is the same for both
  capacities, and the characters before the last place of the smaller buffer are the same.\<close>

theorem vsnprintf_truncates:
  assumes "uacpi_vsnprintf b c fmt vlist = Inr (b1, ret)" "0 < c" "c \<le> d"
  shows "\<exists>b2. uacpi_vsnprintf b d fmt vlist = Inr (b2, ret) \<and> (\<forall>i. i < c - 1 \<longrightarrow> b2 i = b1 i)"
proof -
  let ?A = "vsnprintf_loop \<lparr>fb_buffer = b, fb_capacity = c, bytes_written = 0\<rparr> vlist fmt"
  let ?B = "vsnprintf_loop \<lparr>fb_buffer = b, fb_capacity = d, bytes_written = 0\<rparr> vlist fmt"
  have r: "rel_sum (exit_rel (agree c d)) (agree c d) ?A ?B" by (rule trunc.rel_loop) (simp add: agree_def)
  have cd: "c - 1 < c" "c - 1 \<le> d - 1" "d \<noteq> 0" "c - 1 < d"
    using assms(2,3) pred_less64 [of c] pred_mono64 [of c d] by (auto simp: word_gt_0 intro: order_less_le_trans)
  show ?thesis
  proof (cases ?A)
    case (Inl e)
    then obtain fa where fa: "?A = Inl (MinusOne fa)" "b1 = fb_buffer fa" "ret = -1" using assms(1) by (cases e) (auto simp: uacpi_vsnprintf_def)
    obtain e' where e': "?B = Inl e'" "exit_rel (agree c d) (MinusOne fa) e'" using r fa(1) by (cases ?B) auto
    then obtain f2 where f2: "e' = MinusOne f2" "agree c d fa f2" by (cases e') auto
    show ?thesis using e'(1) f2 fa cd by (auto simp: uacpi_vsnprintf_def agree_def intro: less_trans)
  next
    case (Inr fa)
    then obtain f2 where f2: "?B = Inr f2" "agree c d fa f2" using r by (cases ?B) auto
    have b1: "b1 = (fb_buffer fa)(min (bytes_written fa) (c - 1) := CHR 0x00)" "ret = ucast (bytes_written fa)"
      using assms(1,2) Inr f2(2) by (auto simp: uacpi_vsnprintf_def agree_def)
    have b2: "uacpi_vsnprintf b d fmt vlist = Inr ((fb_buffer f2)(min (bytes_written f2) (d - 1) := CHR 0x00), ret)"
      using f2 cd(3) b1(2) by (simp add: uacpi_vsnprintf_def agree_def)
    have "((fb_buffer f2)(min (bytes_written f2) (d - 1) := CHR 0x00)) i = b1 i" if "i < c - 1" for i
      using that f2(2) cd b1(1) by (auto simp: agree_def min_def)
    then show ?thesis using b2 by blast
  qed
qed

theorem vsnprintf_truncates_witness:
  "\<exists>b1 b2. uacpi_vsnprintf (\<lambda>i. CHR ''x'') 4 ''a%s'' [VaString (Some ''bcd'')] = Inr (b1, 4) \<and> b1 2 = CHR ''c'' \<and>
     uacpi_vsnprintf (\<lambda>i. CHR ''x'') 8 ''a%s'' [VaString (Some ''bcd'')] = Inr (b2, 4) \<and> b2 2 = b1 2"
  using vsnprintf_truncates [OF sample_format [of "\<lambda>i. CHR ''x''"], of 8] sample_format [of "\<lambda>i. CHR ''x''"] by auto

subsection \<open>Printing and reading a number\<close>

lemma c_string_eq:
  "(\<And>i. i < length s \<Longrightarrow> b (p + of_nat i) = s ! i \<and> s ! i \<noteq> CHR 0x00) \<Longrightarrow> c_string (length s) b p = s"
proof (induction s arbitrary: p)
  case (Cons c s)
  have "b p = c \<and> c \<noteq> CHR 0x00" using Cons.prems [of 0] by simp
  moreover have "c_string (length s) b (p + 1) = s"
  proof (rule Cons.IH)
    fix i assume "i < length s"
    then show "b (p + 1 + of_nat i) = s ! i \<and> s ! i \<noteq> CHR 0x00" using Cons.prems [of "Suc i"] by (simp add: add.assoc)
  qed
  ultimately show ?case by simp
qed simp

definition llu_spec :: fmt_spec where
  "llu_spec = new_spec\<lparr>fm_base := base_from_specifier (CHR ''u''), uppercase := is_uppercase_specifier (CHR ''u'')\<rparr>"

lemma llu_conversion:
  assumes "integer_repr llu_spec v = Some s"
  shows "conversion fb [VaWord v] ''llu'' = Inr (write_many fb s (of_nat (length s)), [], [])"
proof -
  have "conversion fb [VaWord v] ''llu'' = write_int fb new_spec (Some (CHR ''u'')) v [] []"
    by (simp add: conversion_def parse_width_def consume_def parse_number_def consume_digits_def parse_precision_def convert_def
      int_conversion_def consume_one_of_def new_spec_def)
  also have "\<dots> = Inr (write_many fb s (of_nat (length s)), [], [])"
    using assms by (simp add: write_int_def write_integer_def write_padding_def flip: llu_spec_def) (simp add: llu_spec_def new_spec_def write_padding_def Let_def)
  finally show ?thesis .
qed

text \<open>C23. Formatting a 64-bit value with \<open>%llu\<close> into a buffer of more than 24 characters and converting the text back with
  \<open>uacpi_string_to_integer\<close> gives the value.\<close>

theorem print_read_roundtrip:
  assumes "24 < cap"
  shows "\<exists>b' ret. uacpi_vsnprintf b cap ''%llu'' [VaWord v] = Inr (b', ret) \<and>
    uacpi_string_to_integer (c_string (unat ret) b' 0) UACPI_BASE_DEC = (UACPI_STATUS_OK, v)"
proof -
  have base: "base_ok llu_spec" "\<not> alternate_form llu_spec" "unat (fm_base llu_spec) = unat (base_val UACPI_BASE_DEC)"
    by (simp_all add: llu_spec_def base_ok_def new_spec_def base_from_specifier_def)
  obtain s where s: "length s \<le> 24" "integer_repr llu_spec v = Some s" "numeral_in (unat (base_val UACPI_BASE_DEC)) s 0 = unat v"
    "\<forall>c\<in>set s. hex_value (of_char c) < unat (base_val UACPI_BASE_DEC)"
    using integer_repr_digits [OF base(1), of v] base(2,3) by auto
  let ?fb = "write_many \<lparr>fb_buffer = b, fb_capacity = cap, bytes_written = 0\<rparr> s (of_nat (length s))"
  have n: "unat (of_nat (length s) :: u64) = length s" "unat (of_nat (length s) :: u32) = length s"
    using s(1) by (simp_all add: unat_of_nat take_bit_nat_eq_self)
  have uc: "(ucast (of_nat (length s) :: u64) :: u32) = of_nat (length s)" using n unat_narrow [of "of_nat (length s)"] s(1) by (simp add: word_unat_eq_iff)
  have cap: "24 < unat cap" "cap \<noteq> 0" using assms by (auto simp: word_less_nat_alt)
  have lt: "(of_nat (length s) :: u64) \<le> cap - 1" using s(1) cap n by (simp add: word_le_nat_alt unat_minus_one)
  have p: "uacpi_vsnprintf b cap ''%llu'' [VaWord v] = Inr ((fb_buffer ?fb)(of_nat (length s) := CHR 0x00), of_nat (length s))"
    using lt cap(2) by (simp add: uacpi_vsnprintf_def vsnprintf_loop.simps consume_def llu_conversion [OF s(2)] write_many_buffer(2,3) min_def uc)
  have "c_string (length s) ((fb_buffer ?fb)(of_nat (length s) := CHR 0x00)) 0 = s"
  proof (rule c_string_eq)
    fix i assume i: "i < length s"
    then have u: "unat (of_nat i :: u64) = i" using s(1) by simp
    have "of_nat i < cap" "(of_nat i :: u64) \<noteq> of_nat (length s)" using u n i s(1) cap by (auto simp: word_less_nat_alt word_unat_eq_iff)
    moreover have "s ! i \<noteq> CHR 0x00" using bspec [OF s(4) nth_mem [OF i]] by (auto simp: hex_value_def)
    ultimately show "((fb_buffer ?fb)(of_nat (length s) := CHR 0x00)) (0 + of_nat i) = s ! i \<and> s ! i \<noteq> CHR 0x00"
      using i u n by (simp add: write_many_buffer)
  qed
  then show ?thesis using p string_to_integer_fits [OF _ s(4,3)] n by simp
qed

theorem print_read_roundtrip_witness:
  "\<exists>b' ret. uacpi_vsnprintf (\<lambda>i. CHR ''x'') 32 ''%llu'' [VaWord 18446744073709551615] = Inr (b', ret) \<and>
    uacpi_string_to_integer (c_string (unat ret) b' 0) UACPI_BASE_DEC = (UACPI_STATUS_OK, 18446744073709551615)"
  by (rule print_read_roundtrip) simp

end
