(* ===== verification/Spec2Isabelle.thy ===== *)
theory Spec2Isabelle
  imports Sched_Run Uacpi_Format
begin

text \<open>
  Flurry is a small x86-64 kernel.
\<close>

end
